(* ===== verification/Villa_Prelude.thy ===== *)
theory Villa_Prelude
  imports Main "HOL-Library.Word" "HOL-Library.Signed_Division" "HOL-Library.List_Lexorder"
begin

text \<open>
  Shared vocabulary of the Villa development: the byte and buffer types of the C code,
  the reading of a C buffer through a pointer (a buffer and an \<open>int\<close> offset), C's
  truncating division of \<open>int\<close>s, and the generic list and arithmetic lemmas that the
  component theories use. The facts collected in \<open>c_simps\<close> evaluate buffer reads at
  offsets inside a buffer and are used by the serialisation proofs.
\<close>

named_theorems c_simps "reading a C buffer inside its bounds"
named_theorems option_elims "taking apart a computation of the option monad that returned"

type_synonym byte = "8 word"
type_synonym bytes = "byte list"

text \<open>A comparison function \<open>VLCFUNC\<close>: two regions (pointer and size) compared to an
  \<open>int\<close> whose sign is the order. A region is modelled as the byte list it holds.\<close>

type_synonym cmpfn = "bytes \<Rightarrow> bytes \<Rightarrow> int"

section \<open>Reading a C buffer\<close>

text \<open>
  A pointer into a buffer is the buffer and an \<open>int\<close> offset; pointer arithmetic
  changes the offset. The buffers the code reads are the ones \<open>dpget\<close> returns, which
  carry a terminating NUL byte after their last byte: a read at the offset of the
  length sees \<open>0\<close>. Reads further outside a buffer are undefined in C; they are
  modelled as reading \<open>0\<close> too, and only corrupt pages reach them.
\<close>

definition c_byte :: "bytes \<Rightarrow> int \<Rightarrow> byte" where
  "c_byte buf p = (if 0 \<le> p \<and> p < int (length buf) then buf ! nat p else 0)"

definition c_bytes :: "bytes \<Rightarrow> int \<Rightarrow> nat \<Rightarrow> bytes" where
  "c_bytes buf p n = map (\<lambda>j. c_byte buf (p + int j)) [0..<n]"

text \<open>\<open>strlen\<close> from a pointer: the number of bytes before the first NUL.\<close>

definition c_strlen :: "bytes \<Rightarrow> int \<Rightarrow> nat" where
  "c_strlen buf p = (if p < 0 then 0 else length (takeWhile (\<lambda>b. b \<noteq> 0) (drop (nat p) buf)))"

text \<open>The region \<open>cbdatumcat\<close> and \<open>cblistpush\<close> copy from a pointer and a size: a
  negative size means \<open>strlen\<close> of the pointer.\<close>

definition c_region :: "bytes \<Rightarrow> int \<Rightarrow> int \<Rightarrow> bytes" where
  "c_region buf p n = (if n < 0 then c_bytes buf p (c_strlen buf p) else c_bytes buf p (nat n))"

text \<open>\<open>cblistinsert\<close> at an index inside the list.\<close>

definition ins_at :: "nat \<Rightarrow> 'a \<Rightarrow> 'a list \<Rightarrow> 'a list" where
  "ins_at i x xs = take i xs @ x # drop i xs"

lemma c_byte_append_mid [c_simps]:
  "j < length xs \<Longrightarrow> c_byte (pre @ xs @ post) (int (length pre) + int j) = xs ! j"
  by (simp add: c_byte_def nth_append flip: of_nat_add)

lemma c_byte_append_hd [c_simps]:
  "c_byte (pre @ x # post) (int (length pre)) = x"
  using c_byte_append_mid [of 0 "[x]" pre post] by simp

lemma c_bytes_append_mid [c_simps]:
  "c_bytes (pre @ xs @ post) (int (length pre)) (length xs) = xs"
  by (rule nth_equalityI) (simp_all add: c_bytes_def c_byte_append_mid)

lemma c_bytes_Suc:
  "c_bytes buf p (Suc n) = c_byte buf p # c_bytes buf (p + 1) n"
  by (simp add: c_bytes_def map_upt_Suc algebra_simps del: upt_Suc)

lemma c_bytes_length [simp]: "length (c_bytes buf p n) = n"
  by (simp add: c_bytes_def)

lemma c_region_append_mid [c_simps]:
  "c_region (pre @ xs @ post) (int (length pre)) (int (length xs)) = xs"
  by (simp add: c_region_def c_bytes_append_mid)

section \<open>C integer division\<close>

text \<open>C's \<open>/\<close> on \<open>int\<close> truncates towards zero; that is \<open>sdiv\<close> of
  HOL-Library.Signed_Division, not HOL's \<open>div\<close>. The midpoint \<open>(left + right) / 2\<close>
  of the binary searches lies between its bounds whenever they are in order.\<close>

lemma sdiv2_nonneg [simp]: "0 \<le> k \<Longrightarrow> (k::int) sdiv 2 = k div 2"
  by (simp add: signed_divide_int_def sgn_if)

lemma sdiv_nonneg [simp]: "0 \<le> k \<Longrightarrow> 0 < d \<Longrightarrow> (k::int) sdiv d = k div d"
  by (simp add: signed_divide_int_def sgn_if)

lemma sdiv2_minus_one [simp]: "(-1::int) sdiv 2 = 0"
  by (simp add: signed_divide_int_def)

lemma sdiv2_mid_bounds:
  fixes l r :: int
  assumes "l \<le> r"
  shows "l \<le> (l + r) sdiv 2 \<and> (l + r) sdiv 2 \<le> r"
proof (cases "0 \<le> l + r")
  case True
  then show ?thesis using assms by simp presburger
next
  case False
  then have "(l + r) sdiv 2 = - ((- (l + r)) div 2)"
    by (simp add: signed_divide_int_def sgn_if)
  then show ?thesis using assms False by presburger
qed

section \<open>Lists\<close>

lemma length_ins_at [simp]: "length (ins_at i x xs) = Suc (length xs)"
  by (simp add: ins_at_def)

lemma ins_at_0 [simp]: "ins_at 0 x xs = x # xs"
  by (simp add: ins_at_def)

lemma ins_at_Cons_Suc [simp]: "ins_at (Suc i) x (y # ys) = y # ins_at i x ys"
  by (simp add: ins_at_def)

lemma nth_ins_at:
  "i \<le> length xs \<Longrightarrow> j \<le> length xs \<Longrightarrow>
     ins_at i x xs ! j = (if j < i then xs ! j else if j = i then x else xs ! (j - 1))"
  by (auto simp: ins_at_def nth_append min_def)

lemma map_ins_at: "map f (ins_at i x xs) = ins_at i (f x) (map f xs)"
  by (simp add: ins_at_def take_map drop_map)

text \<open>In a list sorted by \<open>R\<close>, a predicate closed downwards along \<open>R\<close> holds exactly
  on a prefix: the one \<open>takeWhile\<close> computes.\<close>

lemma sorted_wrt_takeWhile_nth:
  assumes "sorted_wrt R xs" and "\<And>x y. R x y \<Longrightarrow> P y \<Longrightarrow> P x" and "j < length xs"
  shows "P (xs ! j) \<longleftrightarrow> j < length (takeWhile P xs)"
  using assms(1,3)
proof (induction xs arbitrary: j)
  case Nil
  then show ?case by simp
next
  case (Cons x xs)
  show ?case
  proof (cases j)
    case 0
    then show ?thesis by simp
  next
    case (Suc j')
    have j': "j' < length xs" using Cons.prems Suc by simp
    show ?thesis
    proof (cases "P x")
      case True
      then show ?thesis using Cons.IH [OF _ j'] Cons.prems(1) Suc by simp
    next
      case False
      have "R x (xs ! j')" using Cons.prems(1) j' by simp
      then have "\<not> P (xs ! j')" using False assms(2) by blast
      then show ?thesis using False Suc by simp
    qed
  qed
qed

lemma takeWhile_length_le [simp]: "length (takeWhile P xs) \<le> length xs"
  by (induction xs) auto

lemma takeWhile_length_ge:
  "n \<le> length xs \<Longrightarrow> (\<And>j. j < n \<Longrightarrow> P (xs ! j)) \<Longrightarrow> n \<le> length (takeWhile P xs)"
proof (induction xs arbitrary: n)
  case Nil
  then show ?case by simp
next
  case (Cons x xs)
  show ?case
  proof (cases n)
    case 0
    then show ?thesis by simp
  next
    case (Suc m)
    have "P x" using Cons.prems(2) [of 0] Suc by simp
    moreover have "m \<le> length (takeWhile P xs)"
      using Cons.IH [of m] Cons.prems Suc by force
    ultimately show ?thesis using Suc by simp
  qed
qed


lemma takeWhile_length_mono:
  "(\<And>x. P x \<Longrightarrow> Q x) \<Longrightarrow> length (takeWhile P xs) \<le> length (takeWhile Q xs)"
  by (induction xs) auto

section \<open>The option monad\<close>

text \<open>Functions that may not return are written in the option monad; a result
  \<open>Some y\<close> is taken apart step by step with these rules (used with \<open>elim!\<close>).\<close>

lemma bind_SomeE [option_elims]:
  "Option.bind m f = Some y \<Longrightarrow> (\<And>x. m = Some x \<Longrightarrow> f x = Some y \<Longrightarrow> P) \<Longrightarrow> P"
  by (cases m) auto

lemma case_option_SomeE [option_elims]:
  "(case r of None \<Rightarrow> x | Some v \<Rightarrow> g v) = Some y \<Longrightarrow>
   (r = None \<Longrightarrow> x = Some y \<Longrightarrow> P) \<Longrightarrow> (\<And>v. r = Some v \<Longrightarrow> g v = Some y \<Longrightarrow> P) \<Longrightarrow> P"
  by (cases r) auto

lemma case_prod_SomeE [option_elims]:
  "(case p of (a, b) \<Rightarrow> f a b) = Some y \<Longrightarrow> (\<And>a b. p = (a, b) \<Longrightarrow> f a b = Some y \<Longrightarrow> P) \<Longrightarrow> P"
  by (cases p) auto

section \<open>Folds\<close>

lemma fold_rel:
  assumes "reflp R" "transp R" "\<And>x s. R s (f x s)"
  shows "R s (fold f xs s)"
  using assms by (induction xs arbitrary: s) (simp_all add: reflpD, metis transpD)

end
