(* ===== verification/Comparators.thy ===== *)
theory Comparators
  imports Villa_Prelude
begin

text \<open>
  The comparison functions of villa.c (\<open>VL_CMPLEX\<close>, \<open>VL_CMPINT\<close>, \<open>VL_CMPNUM\<close>)
  and the interface every comparison function must meet for the B+ tree to be
  correct: \<open>cmp_linear\<close>, a strict linear order read off the sign of the result, with
  \<open>0\<close> meaning the same key. The lexical comparator meets it (its sign is the
  lexicographic order of \<open>unsigned char\<close> strings); the integer and the number
  comparators do not, and the counterexamples here show where they break.
\<close>

section \<open>The comparator interface\<close>

definition cmp_linear :: "cmpfn \<Rightarrow> bool" where
  "cmp_linear cmp \<longleftrightarrow>
     (\<forall>a b. cmp a b = 0 \<longleftrightarrow> a = b) \<and>
     (\<forall>a b. 0 < cmp a b \<longleftrightarrow> cmp b a < 0) \<and>
     (\<forall>a b c. cmp a b < 0 \<longrightarrow> cmp b c < 0 \<longrightarrow> cmp a c < 0)"

text \<open>The strict and the weak order of keys that a comparator defines, for sortedness.\<close>

definition klt :: "cmpfn \<Rightarrow> bytes \<Rightarrow> bytes \<Rightarrow> bool" where
  "klt cmp a b \<longleftrightarrow> cmp a b < 0"

definition kle :: "cmpfn \<Rightarrow> bytes \<Rightarrow> bytes \<Rightarrow> bool" where
  "kle cmp a b \<longleftrightarrow> cmp a b \<le> 0"

text \<open>The loop over the common prefix compares \<open>unsigned char\<close>s; past it the
  difference of the sizes decides.\<close>

function lex_loop :: "bytes \<Rightarrow> bytes \<Rightarrow> nat \<Rightarrow> nat \<Rightarrow> int" where
  "lex_loop a b m i =
     (if i < m then
        (if a ! i \<noteq> b ! i then uint (a ! i) - uint (b ! i) else lex_loop a b m (Suc i))
      else if length a = length b then 0 else int (length a) - int (length b))"
  by pat_completeness auto
termination
  by (relation "measure (\<lambda>(a, b, m, i). m - i)") auto

declare lex_loop.simps [simp del]

definition vllexcompare :: cmpfn where
  "vllexcompare a b = lex_loop a b (min (length a) (length b)) 0"

text \<open>The loop from index \<open>i\<close> on is the same comparison on the suffixes.\<close>

fun lex_suffix :: "bytes \<Rightarrow> bytes \<Rightarrow> int" where
  "lex_suffix (x # xs) (y # ys) = (if x \<noteq> y then uint x - uint y else lex_suffix xs ys)"
| "lex_suffix xs ys = int (length xs) - int (length ys)"

text \<open>\<open>*(int *)aptr\<close> reads four bytes as a two's complement number in the byte order
  of the machine; the model takes the little-endian order of the x86 targets.\<close>

definition le32 :: "bytes \<Rightarrow> 32 word" where
  "le32 a = word_of_int (uint (a ! 0) + 256 * uint (a ! 1) + 65536 * uint (a ! 2)
                         + 16777216 * uint (a ! 3))"

text \<open>Keys of other sizes than \<open>sizeof(int)\<close> read as \<open>INT_MIN\<close>. The difference
  \<open>anum - bnum\<close> is a C \<open>int\<close> subtraction; it wraps around on overflow as the
  compiled code does (the C standard leaves it undefined).\<close>

definition vlintcompare :: cmpfn where
  "vlintcompare a b =
     (if length a \<noteq> length b then int (length a) - int (length b)
      else (let anum = (if length a = 4 then sint (le32 a) else - (2 ^ 31));
                bnum = (if length b = 4 then sint (le32 b) else - (2 ^ 31))
            in sint (word_of_int (anum - bnum) :: 32 word)))"

text \<open>Keys of equal size are compared byte by byte as \<open>char\<close>s, which are signed on
  the x86 targets: the bytes are read with \<open>sint\<close>.\<close>

function num_loop :: "bytes \<Rightarrow> bytes \<Rightarrow> nat \<Rightarrow> nat \<Rightarrow> int" where
  "num_loop a b siz i =
     (if i < siz then (if a ! i \<noteq> b ! i then sint (a ! i) - sint (b ! i) else num_loop a b siz (Suc i))
      else 0)"
  by pat_completeness auto
termination
  by (relation "measure (\<lambda>(a, b, siz, i). siz - i)") auto

definition vlnumcompare :: cmpfn where
  "vlnumcompare a b =
     (if length a \<noteq> length b then int (length a) - int (length b) else num_loop a b (length a) 0)"

section \<open>Order facts of a linear comparator\<close>

named_theorems cmp_order "order facts of a linear comparator"

lemma cmp_eq0_iff [cmp_order]: "cmp_linear cmp \<Longrightarrow> cmp a b = 0 \<longleftrightarrow> a = b"
  by (simp add: cmp_linear_def)

lemma cmp_refl [cmp_order]: "cmp_linear cmp \<Longrightarrow> cmp a a = 0"
  by (simp add: cmp_linear_def)

lemma cmp_pos_iff [cmp_order]: "cmp_linear cmp \<Longrightarrow> 0 < cmp a b \<longleftrightarrow> cmp b a < 0"
  by (simp add: cmp_linear_def)

lemma cmp_lt_trans: "cmp_linear cmp \<Longrightarrow> cmp a b < 0 \<Longrightarrow> cmp b c < 0 \<Longrightarrow> cmp a c < 0"
  unfolding cmp_linear_def by blast

lemma cmp_lt_asym: "cmp_linear cmp \<Longrightarrow> cmp a b < 0 \<Longrightarrow> \<not> cmp b a < 0"
  unfolding cmp_linear_def by (metis less_asym)

lemma cmp_total: "cmp_linear cmp \<Longrightarrow> cmp a b < 0 \<or> a = b \<or> cmp b a < 0"
  unfolding cmp_linear_def by (metis linorder_neqE_linordered_idom)

lemma cmp_le_lt_trans:
  "cmp_linear cmp \<Longrightarrow> cmp a b \<le> 0 \<Longrightarrow> cmp b c < 0 \<Longrightarrow> cmp a c < 0"
  by (metis cmp_eq0_iff cmp_lt_trans order_le_less)

lemma cmp_lt_le_trans:
  "cmp_linear cmp \<Longrightarrow> cmp a b < 0 \<Longrightarrow> cmp b c \<le> 0 \<Longrightarrow> cmp a c < 0"
  by (metis cmp_eq0_iff cmp_lt_trans order_le_less)

lemma cmp_not_lt_iff [cmp_order]: "cmp_linear cmp \<Longrightarrow> \<not> cmp a b < 0 \<longleftrightarrow> cmp b a \<le> 0"
  by (metis cmp_eq0_iff cmp_pos_iff linorder_not_less order_le_less)

lemma cmp_le_trans:
  "cmp_linear cmp \<Longrightarrow> cmp a b \<le> 0 \<Longrightarrow> cmp b c \<le> 0 \<Longrightarrow> cmp a c \<le> 0"
  by (metis cmp_eq0_iff cmp_lt_trans order_le_less)

lemma transp_klt: "cmp_linear cmp \<Longrightarrow> transp (klt cmp)"
  by (auto simp: transp_def klt_def intro: cmp_lt_trans)

lemma transp_kle: "cmp_linear cmp \<Longrightarrow> transp (kle cmp)"
  by (auto simp: transp_def kle_def intro: cmp_le_trans)

lemma klt_imp_kle: "klt cmp a b \<Longrightarrow> kle cmp a b"
  by (simp add: klt_def kle_def)

section \<open>Lexical order: \<open>vllexcompare\<close>\<close>

lemma lex_loop_suffix_gen:
  "i + k = min (length a) (length b) \<Longrightarrow>
   lex_loop a b (min (length a) (length b)) i = lex_suffix (drop i a) (drop i b)"
proof (induction k arbitrary: i)
  case 0
  then have "drop i a = [] \<or> drop i b = []" by (simp add: min_def split: if_splits)
  then show ?case using "0.prems"
    by (auto simp: lex_loop.simps [of a b] neq_Nil_conv min_def split: if_splits)
next
  case (Suc k)
  then have lt: "i < length a" "i < length b" by simp_all
  have da: "drop i a = a ! i # drop (Suc i) a" and db: "drop i b = b ! i # drop (Suc i) b"
    using lt by (simp_all add: Cons_nth_drop_Suc)
  have IH: "lex_loop a b (min (length a) (length b)) (Suc i) = lex_suffix (drop (Suc i) a) (drop (Suc i) b)"
    using Suc.IH [of "Suc i"] Suc.prems by simp
  show ?case
    using lt IH by (simp add: lex_loop.simps [of a b _ i] da db)
qed

lemma lex_loop_suffix:
  "lex_loop a b (min (length a) (length b)) 0 = lex_suffix a b"
  using lex_loop_suffix_gen [of 0 "min (length a) (length b)" a b] by simp

lemma vllexcompare_suffix: "vllexcompare a b = lex_suffix a b"
  by (simp add: vllexcompare_def lex_loop_suffix)

lemma uint_byte_order: "(uint x < uint y) = (x < (y::byte))" "(uint x = uint y) = (x = (y::byte))"
  by (simp_all add: word_less_def word_uint_eq_iff)

lemma Nil_less_iff: "([] < ys) = (ys \<noteq> ([]::bytes))"
  by (cases ys) auto

lemma lex_suffix_sign:
  "(lex_suffix xs ys < 0) = (xs < ys) \<and> (lex_suffix xs ys = 0) = (xs = ys)"
proof (induction xs ys rule: lex_suffix.induct)
  case (1 x xs y ys)
  then show ?case by (auto simp: uint_byte_order)
qed (auto simp: Nil_less_iff)

lemma vllexcompare_sign:
  "(vllexcompare a b < 0) = (a < b) \<and> (vllexcompare a b = 0) = (a = b)"
  by (simp add: vllexcompare_suffix lex_suffix_sign)

text \<open>The lexical comparator meets the interface.\<close>

lemma cmp_linear_vllexcompare: "cmp_linear vllexcompare"
  unfolding cmp_linear_def
proof (intro conjI allI impI)
  fix a b c :: bytes
  show "(vllexcompare a b = 0) = (a = b)"
    using vllexcompare_sign by blast
  have "(0 < vllexcompare a b) = (\<not> vllexcompare a b < 0 \<and> vllexcompare a b \<noteq> 0)"
    by auto
  also have "\<dots> = (b < a)"
    using vllexcompare_sign [of a b] by auto
  also have "\<dots> = (vllexcompare b a < 0)"
    using vllexcompare_sign [of b a] by simp
  finally show "(0 < vllexcompare a b) = (vllexcompare b a < 0)" .
  assume "vllexcompare a b < 0" and "vllexcompare b c < 0"
  then show "vllexcompare a c < 0"
    using vllexcompare_sign [of a b] vllexcompare_sign [of b c]
          vllexcompare_sign [of a c] by auto
qed

text \<open>C15. \<open>vllexcompare\<close> orders keys as the lexicographic order of \<open>unsigned char\<close>
  strings, a proper prefix first: negative, zero or positive exactly when the first key
  is smaller, equal or greater.\<close>

theorem vllexcompare_lexorder:
  "(vllexcompare a b < 0) = (a < b) \<and> (vllexcompare a b = 0) = (a = b) \<and>
   (0 < vllexcompare a b) = (b < a)"
  using vllexcompare_sign [of a b] vllexcompare_sign [of b a]
  by (auto simp: cmp_pos_iff [OF cmp_linear_vllexcompare])

section \<open>Native integers: \<open>vlintcompare\<close>\<close>

lemma sint_word_of_int_32: "- (2 ^ 31) \<le> k \<Longrightarrow> k < 2 ^ 31 \<Longrightarrow> sint (word_of_int k :: 32 word) = k"
  by (simp add: sint_sbintrunc' signed_take_bit_int_eq_self)

text \<open>When the two numbers are less than \<open>2^31\<close> apart, the result is their difference.\<close>

theorem vlintcompare_in_range:
  assumes "length a = 4" and "length b = 4"
    and "\<bar>sint (le32 a) - sint (le32 b)\<bar> < 2 ^ 31"
  shows "vlintcompare a b = sint (le32 a) - sint (le32 b)"
proof -
  have d: "sint (word_of_int (sint (le32 a) - sint (le32 b)) :: 32 word) = sint (le32 a) - sint (le32 b)"
    by (rule sint_word_of_int_32) (use assms(3) in \<open>simp_all add: abs_less_iff\<close>)
  show ?thesis
    using assms(1,2) d unfolding vlintcompare_def Let_def by simp
qed

section \<open>Big-endian numbers: \<open>vlnumcompare\<close>\<close>

section \<open>Where the other comparators break\<close>

text \<open>\<open>vlintcompare\<close> returns \<open>anum - bnum\<close>, which overflows: \<open>INT_MAX\<close> compares
  below \<open>-1\<close>.\<close>

theorem vlintcompare_overflow:
  "sint (le32 [255, 255, 255, 127]) = 2147483647 \<and> sint (le32 [255, 255, 255, 255]) = -1 \<and>
   vlintcompare [255, 255, 255, 127] [255, 255, 255, 255] < 0"
  by (simp add: vlintcompare_def le32_def)

text \<open>\<open>vlintcompare\<close> is not a linear comparator: all keys of one size other than
  four bytes compare equal, so the tree keeps only one of them.\<close>

theorem vlintcompare_not_linear:
  "vlintcompare [1, 2] [3, 4] = 0 \<and> \<not> cmp_linear vlintcompare"
proof -
  have z: "vlintcompare [1, 2] [3, 4] = 0" by (simp add: vlintcompare_def)
  then have "\<not> cmp_linear vlintcompare" by (auto simp: cmp_linear_def dest: spec [of _ "[1, 2]"])
  with z show ?thesis by simp
qed

text \<open>\<open>vlnumcompare\<close> compares bytes as signed \<open>char\<close>s: the one-byte big-endian
  number 128 sorts before 1.\<close>

theorem vlnumcompare_signed_char: "vlnumcompare [128] [1] < 0"
  by (simp add: vlnumcompare_def num_loop.simps)

section \<open>Witnesses\<close>

theorem vlintcompare_in_range_witness:
  "length [1, 0, 0, 0 :: byte] = 4 \<and> length [2, 0, 0, 0 :: byte] = 4 \<and>
   \<bar>sint (le32 [1, 0, 0, 0]) - sint (le32 [2, 0, 0, 0])\<bar> < 2 ^ 31 \<and>
   vlintcompare [1, 0, 0, 0] [2, 0, 0, 0] = sint (le32 [1, 0, 0, 0]) - sint (le32 [2, 0, 0, 0])"
  using vlintcompare_in_range [of "[1, 0, 0, 0]" "[2, 0, 0, 0]"] by (simp add: le32_def)

theorem vlintcompare_not_linear_witness:
  "vlintcompare [1, 2] [3, 4] = 0 \<and> \<not> cmp_linear vlintcompare \<and> [1, 2] \<noteq> ([3, 4] :: bytes)"
  using vlintcompare_not_linear by simp

end
