(* ===== verification/Binsearch.thy ===== *)
theory Binsearch
  imports Comparators
begin

text \<open>
  The binary narrowing that four functions of villa.c share: \<open>vlrecsearch\<close>,
  \<open>vlleafaddrec\<close> and \<open>vlnodeaddidx\<close> start it at \<open>left = 0\<close>, \<open>vlsearchleaf\<close> at
  \<open>left = 1\<close>; all at \<open>right\<close> = the number of entries, one past the last index. The
  loop returns the last midpoint \<open>i = (left + right) / 2\<close> (C division) and whether it
  stopped on an equal key. The callers then scan forward from \<open>i\<close>, so what they need
  is a bound: the loop never overshoots the entries smaller than the key
  (\<open>vlbsearch_bound\<close>), and on a strictly sorted list it finds a key that is there
  (\<open>vlbsearch_finds\<close>).
\<close>

function vlbsearch :: "cmpfn \<Rightarrow> bytes \<Rightarrow> bytes list \<Rightarrow> int \<Rightarrow> int \<Rightarrow> int \<times> bool" where
  "vlbsearch cmp k ks left right =
     (let i = (left + right) sdiv 2
      in if left \<le> right \<and> i < int (length ks) then
           (let rv = cmp k (ks ! nat i)
            in if rv = 0 then (i, True)
               else if rv \<le> 0 then vlbsearch cmp k ks left (i - 1)
               else vlbsearch cmp k ks (i + 1) right)
         else (i, False))"
  by pat_completeness auto
termination
proof (relation "measure (\<lambda>(cmp, k, ks, left, right). nat (right - left + 1))")
  fix cmp k ks left right i
  assume i: "i = (left + right) sdiv 2" and g: "left \<le> right \<and> i < int (length ks)"
  then have "left \<le> i \<and> i \<le> right" using sdiv2_mid_bounds [of left right] by simp
  then show "((cmp, k, ks, left, i - 1), cmp, k, ks, left, right)
               \<in> measure (\<lambda>(cmp, k, ks, left, right). nat (right - left + 1))"
    and "((cmp, k, ks, i + 1, right), cmp, k, ks, left, right)
               \<in> measure (\<lambda>(cmp, k, ks, left, right). nat (right - left + 1))"
    by auto
qed simp

declare vlbsearch.simps [simp del]

text \<open>The number of keys smaller than \<open>k\<close>, and of keys not greater than \<open>k\<close>.\<close>

definition lt_count :: "cmpfn \<Rightarrow> bytes \<Rightarrow> bytes list \<Rightarrow> nat" where
  "lt_count cmp k ks = length (takeWhile (\<lambda>x. cmp x k < 0) ks)"

definition le_count :: "cmpfn \<Rightarrow> bytes \<Rightarrow> bytes list \<Rightarrow> nat" where
  "le_count cmp k ks = length (takeWhile (\<lambda>x. cmp x k \<le> 0) ks)"

lemma lt_count_nth:
  assumes "cmp_linear cmp" and "sorted_wrt (kle cmp) ks" and "j < length ks"
  shows "cmp (ks ! j) k < 0 \<longleftrightarrow> j < lt_count cmp k ks"
  unfolding lt_count_def
  by (rule sorted_wrt_takeWhile_nth [OF assms(2) _ assms(3)])
     (auto simp: kle_def intro: cmp_le_lt_trans [OF assms(1)])

lemma le_count_nth:
  assumes "cmp_linear cmp" and "sorted_wrt (kle cmp) ks" and "j < length ks"
  shows "cmp (ks ! j) k \<le> 0 \<longleftrightarrow> j < le_count cmp k ks"
  unfolding le_count_def
  by (rule sorted_wrt_takeWhile_nth [OF assms(2) _ assms(3)])
     (auto simp: kle_def intro: cmp_le_trans [OF assms(1)])

lemma lt_count_le_length [simp]: "lt_count cmp k ks \<le> length ks"
  by (simp add: lt_count_def)

lemma le_count_le_length [simp]: "le_count cmp k ks \<le> length ks"
  by (simp add: le_count_def)

lemma vlbsearch_unfold:
  "vlbsearch cmp k ks left right =
     (if left \<le> right \<and> (left + right) sdiv 2 < int (length ks) then
        (if cmp k (ks ! nat ((left + right) sdiv 2)) = 0 then ((left + right) sdiv 2, True)
         else if cmp k (ks ! nat ((left + right) sdiv 2)) \<le> 0
           then vlbsearch cmp k ks left ((left + right) sdiv 2 - 1)
         else vlbsearch cmp k ks ((left + right) sdiv 2 + 1) right)
      else ((left + right) sdiv 2, False))"
  by (simp add: vlbsearch.simps [of cmp k ks left right] Let_def)

text \<open>The loop's bound. From any start \<open>lo \<le> left \<le> right + 1\<close> with \<open>right\<close> at most
  the length, the result lies in \<open>[0, length]\<close>; a hit is an index with an equal key;
  a miss is at most \<open>max lo (lt_count \<dots>)\<close>.\<close>

lemma vlbsearch_bound:
  assumes "cmp_linear cmp" and "sorted_wrt (kle cmp) ks"
    and "0 \<le> lo" and "lo \<le> left" and "left \<le> right + 1" and "right \<le> int (length ks)"
    and "left \<le> max lo (int (lt_count cmp k ks))"
    and "vlbsearch cmp k ks left right = (i, f)"
  shows "0 \<le> i \<and> i \<le> int (length ks) \<and>
         (f \<longrightarrow> i < int (length ks) \<and> cmp k (ks ! nat i) = 0) \<and>
         (\<not> f \<longrightarrow> i \<le> max lo (int (lt_count cmp k ks)))"
  using assms
proof (induction cmp k ks left right rule: vlbsearch.induct)
  case (1 cmp k ks left right)
  note lin = "1.prems"(1) and srt = "1.prems"(2) and lo0 = "1.prems"(3)
    and lol = "1.prems"(4) and lr = "1.prems"(5) and rlen = "1.prems"(6)
    and lmax = "1.prems"(7) and res = "1.prems"(8)
  let ?m = "(left + right) sdiv 2"
  show ?case
  proof (cases "left \<le> right \<and> ?m < int (length ks)")
    case g: True
    have mb: "left \<le> ?m" "?m \<le> right" using sdiv2_mid_bounds [of left right] g by simp_all
    have m0: "0 \<le> ?m" using mb lol lo0 by simp
    show ?thesis
    proof (cases "cmp k (ks ! nat ?m) = 0")
      case True
      then have "i = ?m" "f" using res g by (simp_all add: vlbsearch_unfold [of cmp k ks left right])
      then show ?thesis using True g m0 by simp
    next
      case ne: False
      show ?thesis
      proof (cases "cmp k (ks ! nat ?m) \<le> 0")
        case True
        have rec: "vlbsearch cmp k ks left (?m - 1) = (i, f)"
          using res g ne True by (simp add: vlbsearch_unfold [of cmp k ks left right])
        show ?thesis
          by (rule "1.IH"(1) [OF refl g refl ne True lin srt lo0])
             (use lol lr rlen lmax mb g rec in simp_all)
      next
        case False
        then have lt: "cmp (ks ! nat ?m) k < 0" by (metis cmp_pos_iff [OF lin] not_le)
        have mlen: "nat ?m < length ks" using g m0 by (simp add: nat_less_iff)
        have "nat ?m < lt_count cmp k ks"
          using lt lt_count_nth [OF lin srt mlen, of k] by simp
        then have left': "?m + 1 \<le> max lo (int (lt_count cmp k ks))"
          using m0 by simp
        have rec: "vlbsearch cmp k ks (?m + 1) right = (i, f)"
          using res g ne False by (simp add: vlbsearch_unfold [of cmp k ks left right])
        show ?thesis
          by (rule "1.IH"(2) [OF refl g refl ne False lin srt lo0])
             (use lol lr rlen mb g rec left' in simp_all)
      qed
    qed
  next
    case g: False
    then have "vlbsearch cmp k ks left right = (?m, False)"
      by (simp only: vlbsearch_unfold [of cmp k ks left right] if_False)
    then have r: "i = ?m" "\<not> f" using res by simp_all
    show ?thesis
    proof (cases "left \<le> right")
      case True
      have mdiv: "?m = (left + right) div 2" using True lol lo0 by simp
      have "(left + right) div 2 \<ge> int (length ks)" using g True mdiv by simp
      then have "left = int (length ks) \<and> right = int (length ks)" using rlen True by presburger
      then show ?thesis using r lmax mdiv by simp
    next
      case False
      then have "right = left - 1" using lr by simp
      then have "?m = (if left = 0 then 0 else left - 1)"
        using lol lo0 by (simp add: signed_divide_int_def sgn_if) presburger
      then show ?thesis using r lol lo0 lmax lr rlen by auto
    qed
  qed
qed

text \<open>On a strictly sorted list the loop finds a key that is present, at its index,
  from any bounds that enclose that index.\<close>

lemma vlbsearch_finds:
  assumes "cmp_linear cmp" and "sorted_wrt (klt cmp) ks" and "p < length ks" and "ks ! p = k"
    and "0 \<le> left" and "left \<le> int p" and "int p \<le> right" and "right \<le> int (length ks)"
  shows "vlbsearch cmp k ks left right = (int p, True)"
  using assms
proof (induction cmp k ks left right rule: vlbsearch.induct)
  case (1 cmp k ks left right)
  note lin = "1.prems"(1) and srt = "1.prems"(2) and plen = "1.prems"(3) and pk = "1.prems"(4)
    and l0 = "1.prems"(5) and lp = "1.prems"(6) and pr = "1.prems"(7) and rlen = "1.prems"(8)
  let ?m = "(left + right) sdiv 2"
  have lr: "left \<le> right" using lp pr by simp
  have mb: "left \<le> ?m" "?m \<le> right" using sdiv2_mid_bounds [OF lr] by simp_all
  have mdiv: "?m = (left + right) div 2" using l0 lr by simp
  have mlen: "?m < int (length ks)"
  proof (rule ccontr)
    assume "\<not> ?m < int (length ks)"
    then have "left = int (length ks)" using mdiv mb rlen lr by presburger
    then show False using lp plen by simp
  qed
  have g: "left \<le> right \<and> ?m < int (length ks)" using lr mlen by simp
  have m0: "0 \<le> ?m" using mb l0 by simp
  have mnat: "nat ?m < length ks" using mlen m0 by (simp add: nat_less_iff)
  show ?case
  proof (cases "?m = int p")
    case True
    then show ?thesis using pk lin g plen by (simp add: vlbsearch_unfold [of cmp k ks left right] cmp_refl)
  next
    case False
    show ?thesis
    proof (cases "?m < int p")
      case True
      then have "cmp (ks ! nat ?m) (ks ! p) < 0"
        using sorted_wrt_nth_less [OF srt, of "nat ?m" p] plen m0 by (simp add: klt_def)
      then have pos: "0 < cmp k (ks ! nat ?m)" using pk cmp_pos_iff [OF lin] by simp
      have "vlbsearch cmp k ks (?m + 1) right = (int p, True)"
        by (rule "1.IH"(2) [OF refl g refl]) (use pos lin srt plen pk l0 True m0 pr rlen in simp_all)
      then show ?thesis using g pos by (simp add: vlbsearch_unfold [of cmp k ks left right])
    next
      case False2: False
      then have gt: "int p < ?m" using False by simp
      then have "cmp (ks ! p) (ks ! nat ?m) < 0"
        using sorted_wrt_nth_less [OF srt, of p "nat ?m"] mnat by (simp add: klt_def)
      then have neg: "cmp k (ks ! nat ?m) < 0" using pk by simp
      have "vlbsearch cmp k ks left (?m - 1) = (int p, True)"
        by (rule "1.IH"(1) [OF refl g refl]) (use neg lin srt plen pk l0 lp gt mb rlen in simp_all)
      then show ?thesis using g neg by (simp add: vlbsearch_unfold [of cmp k ks left right])
    qed
  qed
qed

lemma sorted_klt_kle: "sorted_wrt (klt cmp) ks \<Longrightarrow> sorted_wrt (kle cmp) ks"
  by (rule sorted_wrt_mono_rel [of _ "klt cmp"]) (simp_all add: klt_imp_kle)

text \<open>On a strictly sorted list a miss means the key is absent, and a hit is the key.\<close>

lemma vlbsearch_hit_key:
  assumes "cmp_linear cmp" and "sorted_wrt (klt cmp) ks"
    and "vlbsearch cmp k ks 0 (int (length ks)) = (i, f)"
  shows "f \<longleftrightarrow> k \<in> set ks" and "f \<Longrightarrow> ks ! nat i = k \<and> nat i < length ks"
proof -
  have b: "0 \<le> i \<and> i \<le> int (length ks) \<and> (f \<longrightarrow> i < int (length ks) \<and> cmp k (ks ! nat i) = 0)"
    using vlbsearch_bound [OF assms(1) sorted_klt_kle [OF assms(2)] _ _ _ _ _ assms(3), of 0]
    by simp
  show hit: "f \<Longrightarrow> ks ! nat i = k \<and> nat i < length ks"
    using b cmp_eq0_iff [OF assms(1)] by (auto simp: nat_less_iff)
  show "f \<longleftrightarrow> k \<in> set ks"
  proof
    assume f then show "k \<in> set ks" using hit by (metis nth_mem)
  next
    assume "k \<in> set ks"
    then obtain p where "p < length ks" "ks ! p = k" by (metis in_set_conv_nth)
    then have "vlbsearch cmp k ks 0 (int (length ks)) = (int p, True)"
      using vlbsearch_finds [OF assms(1,2)] by simp
    then show f using assms(3) by simp
  qed
qed

text \<open>From any start \<open>lo\<close>, hit or miss, the loop ends at most at \<open>max lo\<close> and the
  number of keys not greater than the key: the scans that follow start inside the
  prefix they must pass over.\<close>

lemma lt_count_le_le_count: "lt_count cmp k ks \<le> le_count cmp k ks"
  unfolding lt_count_def le_count_def by (rule takeWhile_length_mono) simp

lemma vlbsearch_le_count:
  assumes "cmp_linear cmp" and "sorted_wrt (kle cmp) ks" and "0 \<le> lo" and "lo \<le> int (length ks) + 1"
    and "vlbsearch cmp k ks lo (int (length ks)) = (i, f)"
  shows "0 \<le> i \<and> i \<le> int (length ks) \<and> i \<le> max lo (int (le_count cmp k ks))"
proof -
  have b: "0 \<le> i \<and> i \<le> int (length ks) \<and>
           (f \<longrightarrow> i < int (length ks) \<and> cmp k (ks ! nat i) = 0) \<and>
           (\<not> f \<longrightarrow> i \<le> max lo (int (lt_count cmp k ks)))"
    by (rule vlbsearch_bound [OF assms(1,2,3) _ _ _ _ assms(5)]) (use assms(4) in simp_all)
  show ?thesis
  proof (cases f)
    case True
    then have il: "nat i < length ks" and eq: "ks ! nat i = k"
      using b cmp_eq0_iff [OF assms(1)] by (auto simp: nat_less_iff)
    then have "nat i < le_count cmp k ks"
      using le_count_nth [OF assms(1,2) il, where k = k] cmp_refl [OF assms(1)] eq by simp
    then show ?thesis using b by linarith
  next
    case False
    then show ?thesis using b lt_count_le_le_count [of cmp k ks] by linarith
  qed
qed

end
