(* ===== verification/Leaf_Page.thy ===== *)
theory Leaf_Page
  imports Binsearch
begin

text \<open>
  Leaf pages of the B+ tree (villa.h \<open>VLREC\<close>, \<open>VLLEAF\<close>; villa.c \<open>vlrecsearch\<close>,
  \<open>vlleafaddrec\<close>). A record holds a key, its first value and the list of further
  values of the same key; the code's \<open>NULL\<close> list of further values is the empty list
  (the code never keeps an empty non-\<open>NULL\<close> list: \<open>vlout\<close> frees it). The records of
  a leaf are kept strictly sorted by the comparison function.

  The functions here work on the leaf's record list; the engine theory adds the
  page cache around them. \<open>vlleafaddrec\<close> also updates the handle's record count
  \<open>rnum\<close>, which it takes and returns. Its correctness is stated against
  \<open>addrec_ref\<close>, insertion into a sorted association list, and, one level up,
  against \<open>put_abs\<close>, the update of a map from keys to value lists.
\<close>

section \<open>Data\<close>

record vlrec =
  rec_key :: bytes
  rec_first :: bytes
  rec_rest :: "bytes list"

record vlleaf =
  leaf_id :: int
  leaf_dirty :: bool
  recs :: "vlrec list"
  leaf_prev :: int
  leaf_next :: int

text \<open>The \<open>dmode\<close> argument of \<open>vlput\<close>: overwrite, keep, or add a duplicate. The C
  \<open>switch\<close> treats every other value as \<open>VL_DDUP\<close>.\<close>

datatype dmode = VL_DOVER | VL_DKEEP | VL_DDUP

definition new_rec :: "bytes \<Rightarrow> bytes \<Rightarrow> vlrec" where
  "new_rec k v = \<lparr>rec_key = k, rec_first = v, rec_rest = []\<rparr>"

abbreviation rec_keys :: "vlrec list \<Rightarrow> bytes list" where
  "rec_keys rs \<equiv> map rec_key rs"

section \<open>Searching a leaf: \<open>vlrecsearch\<close>\<close>

text \<open>The record with the key, if the narrowing hits it, and the last midpoint (the
  \<open>*ip\<close> output).\<close>

definition vlrecsearch :: "cmpfn \<Rightarrow> vlleaf \<Rightarrow> bytes \<Rightarrow> vlrec option \<times> int" where
  "vlrecsearch cmp leaf k =
     (case vlbsearch cmp k (rec_keys (recs leaf)) 0 (int (length (recs leaf))) of
        (i, True) \<Rightarrow> (Some (recs leaf ! nat i), i)
      | (i, False) \<Rightarrow> (None, i))"

section \<open>Adding a record: \<open>vlleafaddrec\<close>\<close>

text \<open>The forward scan that follows the narrowing: on an equal key the \<open>dmode\<close>
  decides, before a greater key the record is inserted, past the end it is appended.
  \<open>None\<close> is the \<open>VL_DKEEP\<close> failure; the flag says whether \<open>rnum\<close> grows.\<close>

function addrec_scan ::
  "cmpfn \<Rightarrow> dmode \<Rightarrow> bytes \<Rightarrow> bytes \<Rightarrow> vlrec list \<Rightarrow> nat \<Rightarrow> (vlrec list \<times> bool) option" where
  "addrec_scan cmp dm k v rs i =
     (if i < length rs then
        (let r = rs ! i; rv = cmp k (rec_key r)
         in if rv = 0 then
              (case dm of
                 VL_DOVER \<Rightarrow> Some (rs[i := r\<lparr>rec_first := v\<rparr>], False)
               | VL_DKEEP \<Rightarrow> None
               | VL_DDUP \<Rightarrow> Some (rs[i := r\<lparr>rec_rest := rec_rest r @ [v]\<rparr>], True))
            else if rv < 0 then Some (ins_at i (new_rec k v) rs, True)
            else addrec_scan cmp dm k v rs (Suc i))
      else Some (rs @ [new_rec k v], True))"
  by pat_completeness auto
termination
  by (relation "measure (\<lambda>(cmp, dm, k, v, rs, i). length rs - i)") auto

declare addrec_scan.simps [simp del]

definition vlleafaddrec ::
  "cmpfn \<Rightarrow> dmode \<Rightarrow> bytes \<Rightarrow> bytes \<Rightarrow> int \<Rightarrow> vlleaf \<Rightarrow> (int \<times> vlleaf) option" where
  "vlleafaddrec cmp dm k v rnum leaf =
     (let rs = recs leaf;
          i = fst (vlbsearch cmp k (rec_keys rs) 0 (int (length rs)))
      in case addrec_scan cmp dm k v rs (nat i) of
           None \<Rightarrow> None
         | Some (rs', inc) \<Rightarrow>
             Some (if inc then rnum + 1 else rnum, leaf\<lparr>recs := rs', leaf_dirty := True\<rparr>))"

section \<open>The reference: insertion into a sorted association list\<close>

fun addrec_ref ::
  "cmpfn \<Rightarrow> dmode \<Rightarrow> bytes \<Rightarrow> bytes \<Rightarrow> vlrec list \<Rightarrow> (vlrec list \<times> bool) option" where
  "addrec_ref cmp dm k v [] = Some ([new_rec k v], True)"
| "addrec_ref cmp dm k v (r # rs) =
     (if rec_key r = k then
        (case dm of
           VL_DOVER \<Rightarrow> Some (r\<lparr>rec_first := v\<rparr> # rs, False)
         | VL_DKEEP \<Rightarrow> None
         | VL_DDUP \<Rightarrow> Some (r\<lparr>rec_rest := rec_rest r @ [v]\<rparr> # rs, True))
      else if cmp k (rec_key r) < 0 then Some (new_rec k v # r # rs, True)
      else map_option (\<lambda>(rs', b). (r # rs', b)) (addrec_ref cmp dm k v rs))"

section \<open>The abstract view of a leaf\<close>

text \<open>A leaf stands for the map from each key to the list of its values, first value
  first; \<open>put_abs\<close> is what a put does to that map, and \<open>vals_count\<close> counts the
  values, which is what \<open>rnum\<close> counts over the whole tree.\<close>

definition recs_abs :: "vlrec list \<Rightarrow> (bytes \<times> bytes list) list" where
  "recs_abs rs = map (\<lambda>r. (rec_key r, rec_first r # rec_rest r)) rs"

definition put_abs ::
  "dmode \<Rightarrow> bytes \<Rightarrow> bytes \<Rightarrow> (bytes \<rightharpoonup> bytes list) \<Rightarrow> (bytes \<rightharpoonup> bytes list) option" where
  "put_abs dm k v m =
     (case m k of
        None \<Rightarrow> Some (m(k \<mapsto> [v]))
      | Some vs \<Rightarrow>
          (case dm of
             VL_DOVER \<Rightarrow> Some (m(k \<mapsto> v # tl vs))
           | VL_DKEEP \<Rightarrow> None
           | VL_DDUP \<Rightarrow> Some (m(k \<mapsto> vs @ [v]))))"

definition vals_count :: "vlrec list \<Rightarrow> nat" where
  "vals_count rs = sum_list (map (\<lambda>r. Suc (length (rec_rest r))) rs)"

text \<open>A two-record leaf ordered by the lexical comparator, used by the witnesses.\<close>

definition ex_leaf :: vlleaf where
  "ex_leaf = \<lparr>leaf_id = 1, leaf_dirty = False, recs = [new_rec [1] [10], new_rec [3] [30]],
              leaf_prev = -1, leaf_next = -1\<rparr>"

section \<open>Insertion lemmas\<close>

lemma addrec_ref_append_lt:
  assumes "\<forall>r \<in> set pre. cmp (rec_key r) k < 0" and "cmp_linear cmp"
  shows "addrec_ref cmp dm k v (pre @ suf) =
           map_option (\<lambda>(rs', b). (pre @ rs', b)) (addrec_ref cmp dm k v suf)"
  using assms(1)
proof (induction pre)
  case Nil
  then show ?case by (simp add: option.map_ident case_prod_unfold)
next
  case (Cons r pre)
  have "rec_key r \<noteq> k" and "\<not> cmp k (rec_key r) < 0"
    using Cons.prems cmp_refl [OF assms(2)] cmp_lt_asym [OF assms(2)] by auto
  then show ?case
    using Cons by (simp add: option.map_comp comp_def case_prod_unfold)
qed

text \<open>From an index \<open>i\<close> whose prefix holds smaller keys only, the scan computes the
  reference on the rest.\<close>

lemma addrec_scan_suffix:
  assumes "cmp_linear cmp"
  shows "addrec_scan cmp dm k v (pre @ suf) (length pre) =
           map_option (\<lambda>(rs', b). (pre @ rs', b)) (addrec_ref cmp dm k v suf)"
proof (induction suf arbitrary: pre)
  case Nil
  then show ?case by (simp add: addrec_scan.simps)
next
  case (Cons r suf)
  have nth: "(pre @ r # suf) ! length pre = r" by simp
  show ?case
  proof (cases "rec_key r = k")
    case True
    then show ?thesis using cmp_refl [OF assms]
      by (cases dm) (simp_all add: addrec_scan.simps [of _ _ _ _ _ "length pre"] list_update_append)
  next
    case ne: False
    then have "cmp k (rec_key r) \<noteq> 0" using cmp_eq0_iff [OF assms] by metis
    show ?thesis
    proof (cases "cmp k (rec_key r) < 0")
      case True
      then show ?thesis using ne
        by (simp add: addrec_scan.simps [of _ _ _ _ _ "length pre"] ins_at_def)
    next
      case False
      have "addrec_scan cmp dm k v ((pre @ [r]) @ suf) (length (pre @ [r]))
              = map_option (\<lambda>(rs', b). ((pre @ [r]) @ rs', b)) (addrec_ref cmp dm k v suf)"
        by (rule Cons.IH)
      then show ?thesis using ne False \<open>cmp k (rec_key r) \<noteq> 0\<close>
        by (simp add: addrec_scan.simps [of _ _ _ _ _ "length pre"] option.map_comp comp_def
                      case_prod_unfold)
    qed
  qed
qed

lemma take_keys_lt:
  assumes "cmp_linear cmp" and "sorted_wrt (klt cmp) (rec_keys rs)"
    and "vlbsearch cmp k (rec_keys rs) 0 (int (length rs)) = (i, f)"
  shows "\<forall>r \<in> set (take (nat i) rs). cmp (rec_key r) k < 0" and "nat i \<le> length rs"
proof -
  let ?ks = "rec_keys rs"
  have srt: "sorted_wrt (kle cmp) ?ks" by (rule sorted_klt_kle [OF assms(2)])
  have b: "0 \<le> i \<and> i \<le> int (length ?ks) \<and>
           (f \<longrightarrow> i < int (length ?ks) \<and> cmp k (?ks ! nat i) = 0) \<and>
           (\<not> f \<longrightarrow> i \<le> max 0 (int (lt_count cmp k ?ks)))"
    by (rule vlbsearch_bound [OF assms(1) srt _ _ _ _ _ assms(3)]) simp_all
  show len: "nat i \<le> length rs" using b by (simp add: nat_le_iff)
  have pre: "cmp (?ks ! j) k < 0" if j: "j < nat i" for j
  proof (cases f)
    case True
    have bs: "vlbsearch cmp k ?ks 0 (int (length ?ks)) = (i, f)" using assms(3) by simp
    then have hit: "?ks ! nat i = k" "nat i < length ?ks"
      using vlbsearch_hit_key(2) [OF assms(1,2) bs] True by simp_all
    have "klt cmp (?ks ! j) (?ks ! nat i)"
      by (rule sorted_wrt_nth_less [OF assms(2) j hit(2)])
    then show ?thesis using hit by (simp add: klt_def)
  next
    case False
    then have "int j < int (lt_count cmp k ?ks)" using b j by (simp add: zless_nat_eq_int_zless)
    then have "j < lt_count cmp k ?ks" by simp
    moreover have "j < length ?ks" using j len by simp
    ultimately show ?thesis using lt_count_nth [OF assms(1) srt] by blast
  qed
  show "\<forall>r \<in> set (take (nat i) rs). cmp (rec_key r) k < 0"
  proof
    fix r assume "r \<in> set (take (nat i) rs)"
    then obtain j where "j < length (take (nat i) rs)" "take (nat i) rs ! j = r"
      by (metis in_set_conv_nth)
    then show "cmp (rec_key r) k < 0" using pre [of j] len by auto
  qed
qed

lemma vlleafaddrec_eq_addrec_ref:
  assumes "cmp_linear cmp" and "sorted_wrt (klt cmp) (rec_keys (recs leaf))"
  shows "vlleafaddrec cmp dm k v rnum leaf =
           map_option (\<lambda>(rs', inc). (if inc then rnum + 1 else rnum, leaf\<lparr>recs := rs', leaf_dirty := True\<rparr>))
             (addrec_ref cmp dm k v (recs leaf))"
proof -
  let ?rs = "recs leaf"
  obtain i f where bs: "vlbsearch cmp k (rec_keys ?rs) 0 (int (length ?rs)) = (i, f)"
    by (cases "vlbsearch cmp k (rec_keys ?rs) 0 (int (length ?rs))") auto
  note lt = take_keys_lt [OF assms bs]
  have "addrec_scan cmp dm k v (take (nat i) ?rs @ drop (nat i) ?rs) (length (take (nat i) ?rs))
          = map_option (\<lambda>(rs', b). (take (nat i) ?rs @ rs', b)) (addrec_ref cmp dm k v (drop (nat i) ?rs))"
    by (rule addrec_scan_suffix [OF assms(1)])
  also have "\<dots> = addrec_ref cmp dm k v (take (nat i) ?rs @ drop (nat i) ?rs)"
    by (rule addrec_ref_append_lt [OF lt(1) assms(1), symmetric])
  finally have "addrec_scan cmp dm k v ?rs (nat i) = addrec_ref cmp dm k v ?rs"
    using lt(2) by simp
  then show ?thesis
    using bs by (simp add: vlleafaddrec_def split: option.splits)
qed

text \<open>C4. The narrowing-plus-scan insertion of \<open>vlleafaddrec\<close> is the plain sorted
  insertion \<open>addrec_ref\<close>, on every strictly sorted leaf and for every \<open>dmode\<close>,
  the failing \<open>VL_DKEEP\<close> case included.\<close>

theorem vlleafaddrec_eq_ref:
  assumes "cmp_linear cmp" and "sorted_wrt (klt cmp) (rec_keys (recs leaf))"
  shows "vlleafaddrec cmp dm k v rnum leaf =
           map_option (\<lambda>(rs', inc). (if inc then rnum + 1 else rnum, leaf\<lparr>recs := rs', leaf_dirty := True\<rparr>))
             (addrec_ref cmp dm k v (recs leaf))"
  using assms by (rule vlleafaddrec_eq_addrec_ref)

lemma addrec_ref_keys:
  "addrec_ref cmp dm k v rs = Some (rs', b) \<Longrightarrow> set (rec_keys rs') = insert k (set (rec_keys rs))"
proof (induction rs arbitrary: rs' b)
  case Nil
  then show ?case by (auto simp: new_rec_def)
next
  case (Cons r rs)
  show ?case
  proof (cases "rec_key r = k \<or> cmp k (rec_key r) < 0")
    case True
    then show ?thesis using Cons.prems by (auto simp: new_rec_def split: if_splits dmode.splits)
  next
    case False
    then obtain rs'' where rec: "addrec_ref cmp dm k v rs = Some (rs'', b)" and "rs' = r # rs''"
      using Cons.prems by auto
    then show ?thesis using Cons.IH [OF rec] by auto
  qed
qed

lemma addrec_ref_sorted:
  assumes "cmp_linear cmp"
  shows "sorted_wrt (klt cmp) (rec_keys rs) \<Longrightarrow> addrec_ref cmp dm k v rs = Some (rs', b) \<Longrightarrow>
         sorted_wrt (klt cmp) (rec_keys rs')"
proof (induction rs arbitrary: rs' b)
  case Nil
  then show ?case by (auto simp: new_rec_def)
next
  case (Cons r rs)
  show ?case
  proof (cases "rec_key r = k")
    case True
    then show ?thesis using Cons.prems by (auto split: dmode.splits)
  next
    case ne: False
    show ?thesis
    proof (cases "cmp k (rec_key r) < 0")
      case True
      have "\<forall>y \<in> set (rec_keys rs). klt cmp k y"
        using Cons.prems(1) True cmp_lt_trans [OF assms] by (auto simp: klt_def)
      then show ?thesis using Cons.prems ne True by (auto simp: new_rec_def klt_def)
    next
      case False
      then have rk: "klt cmp (rec_key r) k"
        using ne cmp_total [OF assms, of k "rec_key r"] by (auto simp: klt_def)
      obtain rs'' where rec: "addrec_ref cmp dm k v rs = Some (rs'', b)" and rs': "rs' = r # rs''"
        using Cons.prems(2) ne False by auto
      have "sorted_wrt (klt cmp) (rec_keys rs'')" using Cons.IH [OF _ rec] Cons.prems(1) by simp
      moreover have "set (rec_keys rs'') = insert k (set (rec_keys rs))" by (rule addrec_ref_keys [OF rec])
      ultimately show ?thesis using rs' rk Cons.prems(1) by auto
    qed
  qed
qed

lemma addrec_ref_count:
  "addrec_ref cmp dm k v rs = Some (rs', b) \<Longrightarrow> vals_count rs' = vals_count rs + (if b then 1 else 0)"
  by (induction rs arbitrary: rs' b) (auto simp: vals_count_def new_rec_def split: if_splits dmode.splits)

lemma map_of_recs_abs_None:
  "map_of (recs_abs rs) k = None \<longleftrightarrow> k \<notin> set (rec_keys rs)"
  by (simp add: recs_abs_def map_of_eq_None_iff image_image)

lemma put_abs_upd_other:
  "k \<noteq> x \<Longrightarrow> put_abs dm k v (m(x \<mapsto> y)) = map_option (\<lambda>m'. m'(x \<mapsto> y)) (put_abs dm k v m)"
  by (auto simp: put_abs_def fun_upd_twist split: option.splits dmode.splits)

lemma addrec_ref_abs:
  assumes "cmp_linear cmp"
  shows "sorted_wrt (klt cmp) (rec_keys rs) \<Longrightarrow>
         map_option (\<lambda>(rs', b). map_of (recs_abs rs')) (addrec_ref cmp dm k v rs)
           = put_abs dm k v (map_of (recs_abs rs))"
proof (induction rs)
  case Nil
  then show ?case by (simp add: recs_abs_def put_abs_def new_rec_def)
next
  case (Cons r rs)
  show ?case
  proof (cases "rec_key r = k")
    case True
    then show ?thesis by (cases dm) (auto simp: recs_abs_def put_abs_def fun_eq_iff)
  next
    case ne: False
    show ?thesis
    proof (cases "cmp k (rec_key r) < 0")
      case True
      then have "\<forall>y \<in> set (rec_keys (r # rs)). cmp k y < 0"
        using Cons.prems cmp_lt_trans [OF assms] by (auto simp: klt_def)
      then have "k \<notin> set (rec_keys (r # rs))" using cmp_refl [OF assms] by force
      then have "map_of (recs_abs (r # rs)) k = None" using map_of_recs_abs_None by blast
      then show ?thesis using ne True
        by (auto simp: put_abs_def recs_abs_def new_rec_def fun_eq_iff)
    next
      case False
      have IH: "map_option (\<lambda>(rs', b). map_of (recs_abs rs')) (addrec_ref cmp dm k v rs)
                  = put_abs dm k v (map_of (recs_abs rs))"
        using Cons.IH Cons.prems by simp
      have ne': "k \<noteq> rec_key r" using ne by simp
      have m: "map_of (recs_abs (r # rs)) = (map_of (recs_abs rs))(rec_key r \<mapsto> rec_first r # rec_rest r)"
        by (simp add: recs_abs_def)
      have "put_abs dm k v (map_of (recs_abs (r # rs)))
              = map_option (\<lambda>m'. m'(rec_key r \<mapsto> rec_first r # rec_rest r)) (put_abs dm k v (map_of (recs_abs rs)))"
        by (simp only: m put_abs_upd_other [OF ne'])
      also have "\<dots> = map_option (\<lambda>m'. m'(rec_key r \<mapsto> rec_first r # rec_rest r))
                         (map_option (\<lambda>(rs', b). map_of (recs_abs rs')) (addrec_ref cmp dm k v rs))"
        by (simp only: IH)
      also have "\<dots> = map_option (\<lambda>(rs', b). map_of (recs_abs rs'))
                         (map_option (\<lambda>(rs', b). (r # rs', b)) (addrec_ref cmp dm k v rs))"
        by (simp add: option.map_comp comp_def case_prod_unfold recs_abs_def)
      finally show ?thesis using ne False by simp
    qed
  qed
qed

text \<open>C3. Putting a record into a sorted leaf is the map update \<open>put_abs\<close> of the leaf's
  abstract contents: overwrite the first value, keep and fail, or append a duplicate,
  and a fresh key gets the one value.\<close>

theorem vlleafaddrec_refines:
  assumes "cmp_linear cmp" and "sorted_wrt (klt cmp) (rec_keys (recs leaf))"
  shows "map_option (\<lambda>(rnum', leaf'). map_of (recs_abs (recs leaf'))) (vlleafaddrec cmp dm k v rnum leaf)
           = put_abs dm k v (map_of (recs_abs (recs leaf)))"
  using addrec_ref_abs [OF assms(1,2), of dm k v]
  by (simp add: vlleafaddrec_eq_addrec_ref [OF assms] option.map_comp comp_def case_prod_unfold)

text \<open>C5. A successful put keeps the leaf strictly sorted, marks it dirty, and changes
  the record count \<open>rnum\<close> by exactly the number of values it adds.\<close>

theorem vlleafaddrec_invariant:
  assumes "cmp_linear cmp" and "sorted_wrt (klt cmp) (rec_keys (recs leaf))"
    and "vlleafaddrec cmp dm k v rnum leaf = Some (rnum', leaf')"
  shows "sorted_wrt (klt cmp) (rec_keys (recs leaf')) \<and> leaf_dirty leaf' \<and>
         rnum' - rnum = int (vals_count (recs leaf')) - int (vals_count (recs leaf)) \<and>
         leaf_id leaf' = leaf_id leaf \<and> leaf_prev leaf' = leaf_prev leaf \<and> leaf_next leaf' = leaf_next leaf"
proof -
  obtain rs' b where ref: "addrec_ref cmp dm k v (recs leaf) = Some (rs', b)"
    and res: "rnum' = (if b then rnum + 1 else rnum)" "leaf' = leaf\<lparr>recs := rs', leaf_dirty := True\<rparr>"
    using assms(3) by (auto simp: vlleafaddrec_eq_addrec_ref [OF assms(1,2)])
  show ?thesis
    using addrec_ref_sorted [OF assms(1,2) ref] addrec_ref_count [OF ref] res by simp
qed

lemma sorted_klt_distinct:
  assumes "cmp_linear cmp" and "sorted_wrt (klt cmp) ks"
  shows "distinct ks"
  using assms(2)
proof (induction ks)
  case (Cons x ks)
  then show ?case using cmp_refl [OF assms(1)] by (auto simp: klt_def)
qed simp

text \<open>C10. \<open>vlrecsearch\<close> on a sorted leaf is a linear search for the key: it returns the
  record with the key when there is one and \<open>NULL\<close> otherwise.\<close>

theorem vlrecsearch_find:
  assumes "cmp_linear cmp" and "sorted_wrt (klt cmp) (rec_keys (recs leaf))"
  shows "fst (vlrecsearch cmp leaf k) = find (\<lambda>r. rec_key r = k) (recs leaf)"
proof -
  let ?rs = "recs leaf" and ?ks = "rec_keys (recs leaf)"
  obtain i f where bs: "vlbsearch cmp k ?ks 0 (int (length ?ks)) = (i, f)"
    by (cases "vlbsearch cmp k ?ks 0 (int (length ?ks))") auto
  note hit = vlbsearch_hit_key [OF assms bs]
  have dist: "distinct ?ks" by (rule sorted_klt_distinct [OF assms])
  show ?thesis
  proof (cases f)
    case True
    then have p: "?ks ! nat i = k" "nat i < length ?rs" using hit(2) by simp_all
    have "find (\<lambda>r. rec_key r = k) ?rs = Some (?rs ! nat i)"
      unfolding find_Some_iff
    proof (intro exI conjI allI impI)
      show "nat i < length ?rs" "rec_key (?rs ! nat i) = k" "?rs ! nat i = ?rs ! nat i"
        using p by simp_all
    next
      fix j assume j: "j < nat i"
      then have jl: "j < length ?ks" using p by simp
      have il: "nat i < length ?ks" using p by simp
      have "?ks ! j \<noteq> ?ks ! nat i" using nth_eq_iff_index_eq [OF dist jl il] j by simp
      then show "\<not> rec_key (?rs ! j) = k" using p jl by simp
    qed
    then show ?thesis using bs True by (simp add: vlrecsearch_def)
  next
    case False
    then have "k \<notin> set ?ks" using hit(1) by simp
    then have "find (\<lambda>r. rec_key r = k) ?rs = None" by (auto simp: find_None_iff)
    then show ?thesis using bs False by (simp add: vlrecsearch_def)
  qed
qed

section \<open>Witnesses\<close>

lemma ex_leaf_sorted: "sorted_wrt (klt vllexcompare) (rec_keys (recs ex_leaf))"
  by (simp add: ex_leaf_def new_rec_def klt_def vllexcompare_suffix)

theorem vlleafaddrec_refines_witness:
  "cmp_linear vllexcompare \<and> sorted_wrt (klt vllexcompare) (rec_keys (recs ex_leaf)) \<and>
   map_option (\<lambda>(rnum', leaf'). map_of (recs_abs (recs leaf'))) (vlleafaddrec vllexcompare VL_DDUP [3] [31] 2 ex_leaf)
     = put_abs VL_DDUP [3] [31] (map_of (recs_abs (recs ex_leaf)))"
  using vlleafaddrec_refines [OF cmp_linear_vllexcompare ex_leaf_sorted] cmp_linear_vllexcompare ex_leaf_sorted
  by simp

theorem vlleafaddrec_eq_ref_witness:
  "cmp_linear vllexcompare \<and> sorted_wrt (klt vllexcompare) (rec_keys (recs ex_leaf)) \<and>
   vlleafaddrec vllexcompare VL_DOVER [2] [20] 2 ex_leaf =
     map_option (\<lambda>(rs', inc). (if inc then 2 + 1 else 2, ex_leaf\<lparr>recs := rs', leaf_dirty := True\<rparr>))
       (addrec_ref vllexcompare VL_DOVER [2] [20] (recs ex_leaf))"
  using vlleafaddrec_eq_ref [OF cmp_linear_vllexcompare ex_leaf_sorted] cmp_linear_vllexcompare ex_leaf_sorted
  by simp

lemma ex_leaf_bsearch: "vlbsearch vllexcompare [3] [[1], [3]] 0 2 = (1, True)"
  by (subst vlbsearch_unfold) (simp add: vllexcompare_suffix)

lemma ex_leaf_addrec:
  "vlleafaddrec vllexcompare VL_DDUP [3] [31] 2 ex_leaf
     = Some (3, ex_leaf\<lparr>recs := [new_rec [1] [10], (new_rec [3] [30])\<lparr>rec_rest := [[31]]\<rparr>],
                       leaf_dirty := True\<rparr>)"
  by (simp add: vlleafaddrec_def ex_leaf_def new_rec_def ex_leaf_bsearch addrec_scan.simps
                vllexcompare_suffix)

theorem vlleafaddrec_invariant_witness:
  "cmp_linear vllexcompare \<and> sorted_wrt (klt vllexcompare) (rec_keys (recs ex_leaf)) \<and>
   vlleafaddrec vllexcompare VL_DDUP [3] [31] 2 ex_leaf
     = Some (3, ex_leaf\<lparr>recs := [new_rec [1] [10], (new_rec [3] [30])\<lparr>rec_rest := [[31]]\<rparr>],
                       leaf_dirty := True\<rparr>) \<and>
   (let leaf' = ex_leaf\<lparr>recs := [new_rec [1] [10], (new_rec [3] [30])\<lparr>rec_rest := [[31]]\<rparr>],
                       leaf_dirty := True\<rparr>
    in sorted_wrt (klt vllexcompare) (rec_keys (recs leaf')) \<and> leaf_dirty leaf' \<and>
       3 - 2 = int (vals_count (recs leaf')) - int (vals_count (recs ex_leaf)) \<and>
       leaf_id leaf' = leaf_id ex_leaf \<and> leaf_prev leaf' = leaf_prev ex_leaf \<and>
       leaf_next leaf' = leaf_next ex_leaf)"
  using vlleafaddrec_invariant [OF cmp_linear_vllexcompare ex_leaf_sorted ex_leaf_addrec]
        cmp_linear_vllexcompare ex_leaf_sorted ex_leaf_addrec
  by (simp add: Let_def)

theorem vlrecsearch_find_witness:
  "cmp_linear vllexcompare \<and> sorted_wrt (klt vllexcompare) (rec_keys (recs ex_leaf)) \<and>
   fst (vlrecsearch vllexcompare ex_leaf [3]) = Some (new_rec [3] [30])"
  using vlrecsearch_find [OF cmp_linear_vllexcompare ex_leaf_sorted, of "[3]"]
        cmp_linear_vllexcompare ex_leaf_sorted
  by (simp add: ex_leaf_def new_rec_def)

end
