(* ===== verification/Varint.thy ===== *)
theory Varint
  imports Villa_Prelude
begin

text \<open>
  The variable-length number codec of villa.c (\<open>vlsetvnumbuf\<close>, \<open>vlreadvnumbuf\<close>).
  A number is written base 128, least significant digit first, one digit per signed
  char; every digit but the last is stored as \<open>-digit - 1\<close>, so that its sign bit says
  that more digits follow. Bytes are \<open>8 word\<close>s and a signed char is read with
  \<open>sint\<close>. The accumulator of the reader is a C \<open>int\<close>, modelled as \<open>int\<close>; the
  bounds lemmas show that no encoding of a C \<open>int\<close> takes more than five bytes.
\<close>

section \<open>Encoding\<close>

text \<open>The digit loop of \<open>vlsetvnumbuf\<close>: \<open>div(num, 128)\<close> on a positive number,
  negated when a quotient remains.\<close>

function vnum_digits :: "int \<Rightarrow> int list" where
  "vnum_digits num =
     (if num \<le> 0 then []
      else (let q = num div 128; r = num mod 128
            in (if 0 < q then - r - 1 else r) # vnum_digits q))"
  by pat_completeness auto
termination
  by (relation "measure (\<lambda>num. nat num)") auto

declare vnum_digits.simps [simp del]

definition vlsetvnumbuf :: "int \<Rightarrow> bytes" where
  "vlsetvnumbuf num = (if num = 0 then [0] else map word_of_int (vnum_digits num))"

section \<open>Decoding\<close>

text \<open>The loop of \<open>vlreadvnumbuf\<close> over the bytes at \<open>p + i\<close>, \<open>i < size\<close>. It
  returns the number and the count of bytes read, \<open>i + 1\<close>; when no byte ends the
  number that count is \<open>size + 1\<close>, as in the C.\<close>

function vnum_read_loop :: "bytes \<Rightarrow> int \<Rightarrow> int \<Rightarrow> int \<Rightarrow> int \<Rightarrow> int \<Rightarrow> int \<times> int" where
  "vnum_read_loop buf p siz i num base =
     (if i < siz then
        (let b = sint (c_byte buf (p + i))
         in if 0 \<le> b then (num + b * base, i + 1)
            else vnum_read_loop buf p siz (i + 1) (num + base * (b + 1) * -1) (base * 128))
      else (num, i + 1))"
  by pat_completeness auto
termination
  by (relation "measure (\<lambda>(buf, p, siz, i, num, base). nat (siz - i))") auto

declare vnum_read_loop.simps [simp del]

text \<open>\<open>vlreadvnumbuf(buf, size, sp)\<close>: with fewer than two bytes left the single byte
  is returned as it is, even when its sign bit is set.\<close>

definition vlreadvnumbuf :: "bytes \<Rightarrow> int \<Rightarrow> int \<Rightarrow> int \<times> int" where
  "vlreadvnumbuf buf p siz =
     (if siz < 2 then (sint (c_byte buf p), 1) else vnum_read_loop buf p siz 0 0 1)"

section \<open>Digits\<close>

lemma vnum_digits_pos:
  "0 < num \<Longrightarrow> vnum_digits num =
     (if 0 < num div 128 then (- (num mod 128) - 1) # vnum_digits (num div 128) else [num])"
proof -
  have z: "vnum_digits 0 = []" by (simp add: vnum_digits.simps)
  assume pos: "0 < num"
  show ?thesis
  proof (cases "0 < num div 128")
    case True
    then show ?thesis using pos by (simp add: vnum_digits.simps [of num] Let_def)
  next
    case False
    with pos have "num mod 128 = num" and "num div 128 = 0" by presburger+
    then show ?thesis using pos by (simp add: vnum_digits.simps [of num] Let_def z)
  qed
qed

lemma vnum_digits_range: "d \<in> set (vnum_digits num) \<Longrightarrow> -128 \<le> d \<and> d < 128"
proof (induction num rule: vnum_digits.induct)
  case (1 num)
  show ?case
  proof (cases "0 < num")
    case True
    then show ?thesis using "1.prems" "1.IH" [OF _ refl refl]
      by (auto simp: vnum_digits_pos [OF True] split: if_splits)
  next
    case False
    then show ?thesis using "1.prems" by (simp add: vnum_digits.simps [of num])
  qed
qed

lemma sint_word_of_int_byte: "-128 \<le> d \<Longrightarrow> d < 128 \<Longrightarrow> sint (word_of_int d :: byte) = d"
  by (simp add: sint_sbintrunc' signed_take_bit_int_eq_self)

lemma vnum_digits_length_bound:
  "0 \<le> num \<Longrightarrow> num < 128 ^ k \<Longrightarrow> length (vnum_digits num) \<le> k"
proof (induction num arbitrary: k rule: vnum_digits.induct)
  case (1 num)
  show ?case
  proof (cases "0 < num")
    case True
    show ?thesis
    proof (cases "0 < num div 128")
      case q: True
      then obtain k' where k: "k = Suc k'" using "1.prems"
        by (cases k) auto
      have "num < 128 * 128 ^ k'" using "1.prems" k by simp
      then have "num div 128 < 128 ^ k'" by linarith
      then have "length (vnum_digits (num div 128)) \<le> k'"
        using "1.IH" [OF _ refl refl] True by simp
      then show ?thesis using True q k by (simp add: vnum_digits_pos)
    next
      case False
      then show ?thesis using True "1.prems"
        by (cases k) (auto simp: vnum_digits_pos)
    qed
  next
    case False
    then show ?thesis by (simp add: vnum_digits.simps [of num])
  qed
qed

section \<open>Round trip\<close>

lemma ring_distribs_128: "base * (128 * a + b) = base * b + base * 128 * (a::int)"
  by (simp add: algebra_simps)

lemma vnum_read_loop_digits:
  assumes "0 < n" and "0 \<le> i" and "i + int (length (vnum_digits n)) \<le> siz"
    and "c_bytes buf (p + i) (length (vnum_digits n)) = map word_of_int (vnum_digits n)"
  shows "vnum_read_loop buf p siz i num base = (num + base * n, i + int (length (vnum_digits n)))"
  using assms
proof (induction n arbitrary: i num base rule: vnum_digits.induct)
  case (1 n)
  let ?q = "n div 128" and ?r = "n mod 128"
  have r: "0 \<le> ?r" "?r < 128" by simp_all
  show ?case
  proof (cases "0 < ?q")
    case True
    have ds: "vnum_digits n = (- ?r - 1) # vnum_digits ?q"
      using vnum_digits_pos [OF "1.prems"(1)] True by simp
    have b: "c_byte buf (p + i) = word_of_int (- ?r - 1)"
      and rest: "c_bytes buf (p + (i + 1)) (length (vnum_digits ?q)) = map word_of_int (vnum_digits ?q)"
      using "1.prems"(4) by (simp_all add: ds c_bytes_Suc add.assoc)
    have "sint (word_of_int (- ?r - 1) :: byte) = - ?r - 1"
      by (rule sint_word_of_int_byte) (use r in simp_all)
    then have sb: "sint (c_byte buf (p + i)) = - ?r - 1"
      by (simp only: b)
    have lt: "i < siz" using "1.prems"(3) by (simp add: ds)
    have IH: "vnum_read_loop buf p siz (i + 1) (num + base * ?r) (base * 128)
              = (num + base * ?r + base * 128 * ?q, i + 1 + int (length (vnum_digits ?q)))"
    proof (rule "1.IH" [OF _ refl refl])
      show "\<not> n \<le> 0" using "1.prems"(1) by simp
      show "0 < ?q" by (rule True)
      show "0 \<le> i + 1" using "1.prems"(2) by simp
      show "i + 1 + int (length (vnum_digits ?q)) \<le> siz" using "1.prems"(3) by (simp add: ds)
      show "c_bytes buf (p + (i + 1)) (length (vnum_digits ?q)) = map word_of_int (vnum_digits ?q)"
        by (rule rest)
    qed
    have "base * n = base * (128 * ?q + ?r)" by (simp only: mult_div_mod_eq)
    also have "\<dots> = base * ?r + base * 128 * ?q"
      by (rule ring_distribs_128)
    finally have n: "num + base * ?r + base * 128 * ?q = num + base * n" by simp
    have step: "num + base * (- ?r - 1 + 1) * - 1 = num + base * ?r" by simp
    have nr0: "\<not> ?r < 0" by simp
    show ?thesis
      using lt sb IH n nr0 by (simp add: vnum_read_loop.simps [of buf p siz i] ds Let_def step)
  next
    case False
    have ds: "vnum_digits n = [n]"
      using vnum_digits_pos [OF "1.prems"(1)] False by simp
    have nr: "-128 \<le> n" "n < 128" using vnum_digits_range [of n n] by (simp_all add: ds)
    have b: "c_byte buf (p + i) = word_of_int n"
      using "1.prems"(4) by (simp add: ds c_bytes_Suc)
    have lt: "i < siz" using "1.prems"(3) by (simp add: ds)
    show ?thesis
      using lt "1.prems"(1) nr by (simp add: vnum_read_loop.simps [of buf p siz i] ds b
                                           sint_word_of_int_byte Let_def mult.commute)
  qed
qed

lemma vlsetvnumbuf_nonempty: "0 \<le> n \<Longrightarrow> vlsetvnumbuf n \<noteq> []"
  by (simp add: vlsetvnumbuf_def vnum_digits_pos)

lemma vlreadvnumbuf_enc:
  assumes "0 \<le> n" and "int (length (vlsetvnumbuf n)) \<le> siz"
  shows "vlreadvnumbuf (pre @ vlsetvnumbuf n @ post) (int (length pre)) siz
           = (n, int (length (vlsetvnumbuf n)))"
proof (cases "n = 0")
  case True
  then show ?thesis using assms
    by (simp add: vlreadvnumbuf_def vlsetvnumbuf_def vnum_read_loop.simps c_byte_append_hd)
next
  case False
  with assms(1) have pos: "0 < n" by simp
  let ?ds = "vnum_digits n"
  have enc: "vlsetvnumbuf n = map word_of_int ?ds" using False by (simp add: vlsetvnumbuf_def)
  have cb: "c_bytes (pre @ vlsetvnumbuf n @ post) (int (length pre) + 0) (length ?ds) = map word_of_int ?ds"
    using c_bytes_append_mid [of pre "vlsetvnumbuf n" post] by (simp add: enc)
  show ?thesis
  proof (cases "siz < 2")
    case True
    then have "length ?ds \<le> 1" using assms(2) enc by simp
    moreover have "?ds \<noteq> []" using pos by (simp add: vnum_digits_pos)
    ultimately have ds: "?ds = [n]" using pos
      by (auto simp: vnum_digits_pos split: if_splits)
    have nr: "-128 \<le> n" "n < 128" using vnum_digits_range [of n n] by (simp_all add: ds)
    show ?thesis using True nr
      by (simp add: vlreadvnumbuf_def enc ds c_byte_append_hd sint_word_of_int_byte)
  next
    case False
    then show ?thesis
      using vnum_read_loop_digits [OF pos _ _ cb, of siz 0 1] assms(2)
      by (simp add: vlreadvnumbuf_def enc)
  qed
qed

text \<open>C12. Round trip: reading at the start of an encoding, whatever surrounds it,
  gives the number back and consumes exactly the encoding, for every \<open>size\<close> that
  covers the encoding.\<close>

theorem vlreadvnumbuf_vlsetvnumbuf:
  assumes "0 \<le> n" and "int (length (vlsetvnumbuf n)) \<le> siz"
  shows "vlreadvnumbuf (pre @ vlsetvnumbuf n @ post) (int (length pre)) siz
           = (n, int (length (vlsetvnumbuf n)))"
  using assms by (rule vlreadvnumbuf_enc)

text \<open>The encoding of any C \<open>int\<close> fits in five bytes, so the eight-byte buffers
  \<open>vnumbuf[VL_VNUMBUFSIZ]\<close> of the page writers never overflow.\<close>

theorem vlsetvnumbuf_length_bound:
  assumes "0 \<le> n" and "n < 2 ^ 31"
  shows "length (vlsetvnumbuf n) \<le> 5"
proof (cases "n = 0")
  case True
  then show ?thesis by (simp add: vlsetvnumbuf_def)
next
  case False
  have "n < 128 ^ 5" using assms(2) by simp
  then have "length (vnum_digits n) \<le> 5" by (rule vnum_digits_length_bound [OF assms(1)])
  then show ?thesis using False by (simp add: vlsetvnumbuf_def)
qed

section \<open>Witnesses\<close>

lemma vlsetvnumbuf_300: "vlsetvnumbuf 300 = [211, 2]"
  by (simp add: vlsetvnumbuf_def vnum_digits.simps)

theorem vlreadvnumbuf_vlsetvnumbuf_witness:
  "0 \<le> (300::int) \<and> int (length (vlsetvnumbuf 300)) \<le> 3 \<and>
   vlreadvnumbuf ([5] @ vlsetvnumbuf 300 @ [9]) (int (length [5::byte])) 3
     = (300, int (length (vlsetvnumbuf 300)))"
  using vlreadvnumbuf_vlsetvnumbuf [of 300 3 "[5]" "[9]"] by (simp add: vlsetvnumbuf_300)

theorem vlsetvnumbuf_length_bound_witness:
  "0 \<le> (2147483647::int) \<and> (2147483647::int) < 2 ^ 31 \<and> length (vlsetvnumbuf 2147483647) \<le> 5"
  using vlsetvnumbuf_length_bound [of 2147483647] by simp

end
