(* ===== verification/Leaf_Codec.thy ===== *)
theory Leaf_Codec
  imports Leaf_Page Varint
begin

text \<open>
  The page image of a leaf (villa.c \<open>vlleafsave\<close>, \<open>vlleafload\<close>). A leaf is written as
  its two link ids, then per record the key size and key, the number of values, and
  each value with its size, every number in the \<open>vlsetvnumbuf\<close> code. A missing link
  (\<open>-1\<close>) is written as \<open>VL_NODEIDMIN - 1\<close>, and every link read back at or above that
  value becomes \<open>-1\<close>. The reader is a loop over a pointer and the count \<open>size\<close> of
  bytes left; a corrupt page can make that count grow, so the loop is a
  \<open>partial_function\<close> in the option monad whose \<open>None\<close> is a loop that never ends.
\<close>

section \<open>Constants\<close>

definition VL_LEAFIDMIN :: int where "VL_LEAFIDMIN = 1"

definition VL_NODEIDMIN :: int where "VL_NODEIDMIN = 100000000"

section \<open>Writing: \<open>vlleafsave\<close>\<close>

text \<open>A size followed by the region, as the writer appends a key or a value.\<close>

definition vnum_item :: "bytes \<Rightarrow> bytes" where
  "vnum_item v = vlsetvnumbuf (int (length v)) @ v"

definition rec_image :: "vlrec \<Rightarrow> bytes" where
  "rec_image r = vnum_item (rec_key r) @ vlsetvnumbuf (1 + int (length (rec_rest r)))
                 @ vnum_item (rec_first r) @ concat (map vnum_item (rec_rest r))"

definition link_enc :: "int \<Rightarrow> int" where
  "link_enc l = (if l = -1 then VL_NODEIDMIN - 1 else l)"

definition leaf_image :: "vlleaf \<Rightarrow> bytes" where
  "leaf_image leaf = vlsetvnumbuf (link_enc (leaf_prev leaf)) @ vlsetvnumbuf (link_enc (leaf_next leaf))
                     @ concat (map rec_image (recs leaf))"

section \<open>Reading: \<open>vlleafload\<close>\<close>

text \<open>A link id at pointer \<open>p\<close> with \<open>siz\<close> bytes left: the id (or \<open>-1\<close>), the new pointer
  and the new count. With no byte left the link stays \<open>-1\<close>.\<close>

definition read_link :: "bytes \<Rightarrow> int \<Rightarrow> int \<Rightarrow> int \<times> int \<times> int" where
  "read_link buf p siz =
     (if 1 \<le> siz then
        (case vlreadvnumbuf buf p siz of
           (n, step) \<Rightarrow> (if VL_NODEIDMIN - 1 \<le> n then -1 else n, p + step, siz - step))
      else (-1, p, siz))"

text \<open>The inner loop over the \<open>vnum\<close> values of one record, from value \<open>i\<close>: it stops
  after \<open>vnum\<close> values, when no byte is left, or (after moving past the size) when the
  size exceeds what is left. It returns the values read, the pointer and the count;
  the C's \<open>i > 0\<close> after the loop is \<open>vs \<noteq> []\<close>.\<close>

function vals_loop ::
  "bytes \<Rightarrow> int \<Rightarrow> int \<Rightarrow> int \<Rightarrow> int \<Rightarrow> bytes list \<Rightarrow> bytes list \<times> int \<times> int" where
  "vals_loop buf p siz i vnum acc =
     (if i < vnum \<and> 1 \<le> siz then
        (case vlreadvnumbuf buf p siz of
           (vsiz, step) \<Rightarrow>
             (if siz - step < vsiz then (acc, p + step, siz - step)
              else vals_loop buf (p + step + vsiz) (siz - step - vsiz) (i + 1) vnum
                     (acc @ [c_region buf (p + step) vsiz])))
      else (acc, p, siz))"
  by pat_completeness auto
termination
  by (relation "measure (\<lambda>(buf, p, siz, i, vnum, acc). nat (vnum - i))") auto

declare vals_loop.simps [simp del]

text \<open>The outer loop over records, while at least one byte is left. A key size larger
  than what is left, a value count below one, or no byte after the count ends it.\<close>

partial_function (option) leaf_recs_loop ::
  "bytes \<Rightarrow> int \<Rightarrow> int \<Rightarrow> vlrec list \<Rightarrow> vlrec list option" where
  "leaf_recs_loop buf p siz acc =
     (if 1 \<le> siz then
        (case vlreadvnumbuf buf p siz of
           (ksiz, step) \<Rightarrow>
             (let kp = p + step; s1 = siz - step in
              if s1 < ksiz then Some acc
              else
                (case vlreadvnumbuf buf (kp + ksiz) (s1 - ksiz) of
                   (vnum, step2) \<Rightarrow>
                     (let p3 = kp + ksiz + step2; s3 = s1 - ksiz - step2 in
                      if vnum < 1 \<or> s3 < 1 then Some acc
                      else
                        (case vals_loop buf p3 s3 0 vnum [] of
                           (vs, p4, s4) \<Rightarrow>
                             leaf_recs_loop buf p4 s4
                               (if vs = [] then acc
                                else acc @ [\<lparr>rec_key = c_region buf kp ksiz, rec_first = hd vs,
                                             rec_rest = tl vs\<rparr>]))))))
      else Some acc)"

declare leaf_recs_loop.simps [code]

text \<open>The links the page format can carry: none, or an id below the sentinel.\<close>

definition leaf_link_ok :: "int \<Rightarrow> bool" where
  "leaf_link_ok l \<longleftrightarrow> l = -1 \<or> (0 \<le> l \<and> l < VL_NODEIDMIN - 1)"

text \<open>The page image decoded into a leaf with the given id, not dirty.\<close>

definition vlleafload_image :: "int \<Rightarrow> bytes \<Rightarrow> vlleaf option" where
  "vlleafload_image lid buf =
     (case read_link buf 0 (int (length buf)) of
        (prev, p1, s1) \<Rightarrow>
          (case read_link buf p1 s1 of
             (nxt, p2, s2) \<Rightarrow>
               map_option (\<lambda>rs. \<lparr>leaf_id = lid, leaf_dirty = False, recs = rs,
                                  leaf_prev = prev, leaf_next = nxt\<rparr>)
                 (leaf_recs_loop buf p2 s2 [])))"

section \<open>Round trip\<close>

lemma vnum_item_read:
  "vlreadvnumbuf (pre @ vnum_item v @ post) (int (length pre)) (int (length (vnum_item v)) + s)
     = (int (length v), int (length (vlsetvnumbuf (int (length v)))))"
  if "0 \<le> s"
  using vlreadvnumbuf_enc [of "int (length v)" "int (length (vnum_item v)) + s" pre "v @ post"] that
  by (simp add: vnum_item_def)

lemma vnum_item_length_pos: "1 \<le> int (length (vnum_item v))"
  using vlsetvnumbuf_nonempty [of "int (length v)"]
  by (cases "vlsetvnumbuf (int (length v))") (auto simp: vnum_item_def)

lemma vals_loop_items:
  assumes "0 \<le> s"
  shows "vals_loop (pre @ concat (map vnum_item vs) @ post) (int (length pre))
           (int (length (concat (map vnum_item vs))) + s) i (i + int (length vs)) acc
         = (acc @ vs, int (length pre) + int (length (concat (map vnum_item vs))), s)"
  using assms
proof (induction vs arbitrary: pre i acc)
  case Nil
  then show ?case by (simp add: vals_loop.simps)
next
  case (Cons v vs)
  let ?e = "vlsetvnumbuf (int (length v))"
  let ?r = "concat (map vnum_item vs)"
  have ne: "1 \<le> int (length ?e)"
    using vlsetvnumbuf_nonempty [of "int (length v)"] by (cases ?e) auto
  have rd: "vlreadvnumbuf (pre @ vnum_item v @ ?r @ post) (int (length pre))
              (int (length (vnum_item v)) + (int (length ?r) + s)) = (int (length v), int (length ?e))"
    using vnum_item_read [of "int (length ?r) + s" pre v "?r @ post"] Cons.prems by simp
  have reg: "c_region (pre @ vnum_item v @ ?r @ post) (int (length pre) + int (length ?e)) (int (length v)) = v"
    using c_region_append_mid [of "pre @ ?e" v "?r @ post"] by (simp add: vnum_item_def)
  have ih: "vals_loop ((pre @ vnum_item v) @ ?r @ post) (int (length (pre @ vnum_item v)))
           (int (length ?r) + s) (i + 1) (i + 1 + int (length vs)) (acc @ [v])
         = (acc @ [v] @ vs, int (length (pre @ vnum_item v)) + int (length ?r), s)"
    using Cons.IH [of "pre @ vnum_item v" "i + 1" "acc @ [v]"] Cons.prems by simp
  have ne2: "1 \<le> int (length (vnum_item v)) + (int (length ?r) + s)"
    unfolding vnum_item_def length_append of_nat_add using ne Cons.prems by linarith
  have len: "int (length (vnum_item v)) = int (length ?e) + int (length v)"
    by (simp add: vnum_item_def)
  have step: "vals_loop (pre @ vnum_item v @ ?r @ post) (int (length pre))
                (int (length (vnum_item v)) + (int (length ?r) + s)) i (i + int (length (v # vs))) acc
              = vals_loop (pre @ vnum_item v @ ?r @ post) (int (length pre) + int (length ?e) + int (length v))
                (int (length (vnum_item v)) + (int (length ?r) + s) - int (length ?e) - int (length v))
                (i + 1) (i + int (length (v # vs))) (acc @ [v])"
    by (subst vals_loop.simps) (use rd reg ne2 len Cons.prems in simp)
  show ?case
    using step ih len by (simp add: algebra_simps)
qed

lemma rec_image_split:
  "rec_image r = vnum_item (rec_key r) @ vlsetvnumbuf (1 + int (length (rec_rest r)))
                 @ concat (map vnum_item (rec_first r # rec_rest r))"
  by (simp add: rec_image_def)

lemma leaf_recs_loop_image:
  "leaf_recs_loop (pre @ concat (map rec_image rs)) (int (length pre))
     (int (length (concat (map rec_image rs)))) acc = Some (acc @ rs)"
proof (induction rs arbitrary: pre acc)
  case Nil
  then show ?case by (simp add: leaf_recs_loop.simps)
next
  case (Cons r rs)
  let ?R = "concat (map rec_image rs)"
  let ?k = "rec_key r" and ?vs = "rec_first r # rec_rest r"
  let ?e1 = "vlsetvnumbuf (int (length ?k))" and ?e2 = "vlsetvnumbuf (1 + int (length (rec_rest r)))"
  let ?V = "concat (map vnum_item ?vs)"
  let ?B = "pre @ vnum_item ?k @ ?e2 @ ?V @ ?R"
  have B: "pre @ concat (map rec_image (r # rs)) = ?B" by (simp add: rec_image_split)
  have lenB: "int (length (concat (map rec_image (r # rs))))
                = int (length (vnum_item ?k)) + (int (length (?e2 @ ?V)) + int (length ?R))"
    by (simp add: rec_image_split)
  have rd1: "vlreadvnumbuf ?B (int (length pre)) (int (length (vnum_item ?k)) + (int (length (?e2 @ ?V)) + int (length ?R)))
               = (int (length ?k), int (length ?e1))"
    using vnum_item_read [of "int (length (?e2 @ ?V)) + int (length ?R)" pre ?k "?e2 @ ?V @ ?R"] by simp
  have klen: "int (length (vnum_item ?k)) = int (length ?e1) + int (length ?k)"
    by (simp add: vnum_item_def)
  have rd2: "vlreadvnumbuf ?B (int (length (pre @ vnum_item ?k))) (int (length (?e2 @ ?V)) + int (length ?R))
               = (1 + int (length (rec_rest r)), int (length ?e2))"
    using vlreadvnumbuf_enc [of "1 + int (length (rec_rest r))" "int (length (?e2 @ ?V)) + int (length ?R)"
                                "pre @ vnum_item ?k" "?V @ ?R"] by simp
  have key: "c_region ?B (int (length pre) + int (length ?e1)) (int (length ?k)) = ?k"
    using c_region_append_mid [of "pre @ ?e1" ?k "?e2 @ ?V @ ?R"] by (simp add: vnum_item_def)
  have vl: "vals_loop ?B (int (length (pre @ vnum_item ?k @ ?e2))) (int (length ?V) + int (length ?R))
              0 (0 + int (length ?vs)) []
            = ([] @ ?vs, int (length (pre @ vnum_item ?k @ ?e2)) + int (length ?V), int (length ?R))"
    using vals_loop_items [of "int (length ?R)" "pre @ vnum_item ?k @ ?e2" ?vs ?R 0 "[]"] by simp
  have Vne: "1 \<le> int (length ?V)"
    using vnum_item_length_pos [of "rec_first r"] by simp
  have ih: "leaf_recs_loop ((pre @ vnum_item ?k @ ?e2 @ ?V) @ ?R) (int (length (pre @ vnum_item ?k @ ?e2 @ ?V)))
              (int (length ?R)) (acc @ [r]) = Some ((acc @ [r]) @ rs)"
    by (rule Cons.IH)
  have r: "\<lparr>rec_key = ?k, rec_first = rec_first r, rec_rest = rec_rest r\<rparr> = r" by simp
  have ih': "leaf_recs_loop ((pre @ vnum_item ?k @ ?e2 @ ?V) @ ?R) (int (length (pre @ vnum_item ?k @ ?e2 @ ?V)))
              (int (length ?R)) (acc @ [\<lparr>rec_key = ?k, rec_first = rec_first r, rec_rest = rec_rest r\<rparr>])
             = Some ((acc @ [r]) @ rs)"
    by (simp only: r ih)
  show ?case
    unfolding B lenB
    apply (subst leaf_recs_loop.simps)
    using rd1 rd2 key vl Vne ih' klen
    apply (simp add: Let_def algebra_simps)
    done
qed

lemma read_link_enc:
  assumes "leaf_link_ok l"
  shows "read_link (pre @ vlsetvnumbuf (link_enc l) @ post) (int (length pre))
           (int (length (vlsetvnumbuf (link_enc l))) + int (length post))
         = (l, int (length pre) + int (length (vlsetvnumbuf (link_enc l))), int (length post))"
proof -
  have nn: "0 \<le> link_enc l" using assms by (auto simp: link_enc_def leaf_link_ok_def VL_NODEIDMIN_def)
  have ne: "1 \<le> int (length (vlsetvnumbuf (link_enc l)))"
    using vlsetvnumbuf_nonempty [OF nn] by (cases "vlsetvnumbuf (link_enc l)") auto
  have dec: "(if VL_NODEIDMIN - 1 \<le> link_enc l then -1 else link_enc l) = l"
    using assms by (auto simp: link_enc_def leaf_link_ok_def)
  show ?thesis
    using vlreadvnumbuf_enc [OF nn, of "int (length (vlsetvnumbuf (link_enc l))) + int (length post)" pre post]
          ne dec
    by (simp add: read_link_def)
qed

text \<open>C13. Round trip of leaf pages: loading the image that \<open>vlleafsave\<close> writes gives
  back the leaf, clean, with its records, values and links, whenever each link is
  \<open>-1\<close> or an id below the sentinel \<open>VL_NODEIDMIN - 1\<close>.\<close>

theorem vlleafload_vlleafsave:
  assumes "leaf_link_ok (leaf_prev leaf)" and "leaf_link_ok (leaf_next leaf)"
  shows "vlleafload_image (leaf_id leaf) (leaf_image leaf) = Some (leaf\<lparr>leaf_dirty := False\<rparr>)"
proof -
  let ?a = "vlsetvnumbuf (link_enc (leaf_prev leaf))" and ?b = "vlsetvnumbuf (link_enc (leaf_next leaf))"
  let ?R = "concat (map rec_image (recs leaf))"
  have r1: "read_link ([] @ ?a @ ?b @ ?R) (int (length ([] :: bytes))) (int (length ?a) + int (length (?b @ ?R)))
              = (leaf_prev leaf, int (length ([] :: bytes)) + int (length ?a), int (length (?b @ ?R)))"
    by (rule read_link_enc [OF assms(1)])
  have r2: "read_link (?a @ ?b @ ?R) (int (length ?a)) (int (length ?b) + int (length ?R))
              = (leaf_next leaf, int (length ?a) + int (length ?b), int (length ?R))"
    by (rule read_link_enc [OF assms(2)])
  have lp: "leaf_recs_loop ((?a @ ?b) @ ?R) (int (length (?a @ ?b))) (int (length ?R)) [] = Some ([] @ recs leaf)"
    by (rule leaf_recs_loop_image)
  show ?thesis
    using r1 r2 lp by (simp add: vlleafload_image_def leaf_image_def algebra_simps)
qed
section \<open>A corrupt page\<close>

lemma corrupt_reads:
  "vlreadvnumbuf [1, 0, 253] 2 1 = (-3, 1)"
  "vlreadvnumbuf [1, 0, 253] 0 3 = (1, 1)"
  "vlreadvnumbuf [1, 0, 253] 1 2 = (0, 1)"
  by (simp_all add: vlreadvnumbuf_def vnum_read_loop.simps c_byte_def)

lemma corrupt_vals: "vals_loop [1, 0, 253] 1 2 0 1 [] = ([[]], 2, 1)"
  by (simp add: vals_loop.simps corrupt_reads c_region_def c_bytes_def)

lemma corrupt_page_cycle:
  assumes "leaf_recs_loop buf p siz acc = Some y"
  shows "buf = [1, 0, 253] \<longrightarrow> p = 2 \<longrightarrow> siz = 1 \<longrightarrow> False"
  apply (rule leaf_recs_loop.raw_induct [OF _ assms])
  subgoal for f b q s a r
    apply (intro impI)
    apply hypsubst
    apply (simp add: corrupt_reads corrupt_vals Let_def c_region_def c_strlen_def)
    apply blast
    done
  done

text \<open>A corrupt three-byte page makes \<open>vlleafload\<close> loop forever: the key size
  \<open>0xFD\<close> is read as \<open>-3\<close>, passes the check \<open>size < ksiz\<close>, and moves the pointer
  back while \<open>size\<close> grows, so the loop returns to the same position and count.\<close>

theorem vlleafload_corrupt_diverges: "vlleafload_image 1 [1, 0, 253] = None"
  using corrupt_page_cycle [of "[1, 0, 253]" 2 1 "[]"]
  by (cases "leaf_recs_loop [1, 0, 253] 2 1 []")
     (auto simp: vlleafload_image_def read_link_def corrupt_reads VL_NODEIDMIN_def)

section \<open>Witnesses\<close>

theorem vlleafload_vlleafsave_witness:
  "leaf_link_ok (leaf_prev ex_leaf) \<and> leaf_link_ok (leaf_next ex_leaf) \<and>
   vlleafload_image 1 (leaf_image ex_leaf) = Some (ex_leaf\<lparr>leaf_dirty := False\<rparr>)"
  using vlleafload_vlleafsave [of ex_leaf] by (simp add: ex_leaf_def leaf_link_ok_def)

end
