(* ===== verification/Node_Page.thy ===== *)
theory Node_Page
  imports Leaf_Codec
begin

text \<open>
  Node pages of the B+ tree (villa.h \<open>VLIDX\<close>, \<open>VLNODE\<close>; villa.c \<open>vlnodeaddidx\<close>,
  the per-node step of \<open>vlsearchleaf\<close>, \<open>vlnodesave\<close> and \<open>vlnodeload\<close>). A node holds
  its heir (the child left of the first index) and a list of indexes, each a child id
  and the separator key of that child. Adding an index runs the same narrowing as the
  leaves and then scans for the first separator greater than the new one; routing a
  key narrows from index 1, steps back one index, and scans for the first separator
  greater than the key. Both are stated against the reference \<open>le_count\<close>: the
  number of separators not greater than the key.
\<close>

section \<open>Data\<close>

record vlidx =
  idx_pid :: int
  idx_key :: bytes

record vlnode =
  node_id :: int
  node_dirty :: bool
  heir :: int
  idxs :: "vlidx list"

abbreviation idx_keys :: "vlidx list \<Rightarrow> bytes list" where
  "idx_keys xs \<equiv> map idx_key xs"

section \<open>Adding an index: \<open>vlnodeaddidx\<close>\<close>

text \<open>The scan after the narrowing: the index goes before the first separator greater
  than its key, or at the end.\<close>

function addidx_scan :: "cmpfn \<Rightarrow> bytes \<Rightarrow> vlidx \<Rightarrow> vlidx list \<Rightarrow> nat \<Rightarrow> vlidx list" where
  "addidx_scan cmp k x xs i =
     (if i < length xs then
        (if cmp k (idx_key (xs ! i)) < 0 then ins_at i x xs
         else addidx_scan cmp k x xs (Suc i))
      else xs @ [x])"
  by pat_completeness auto
termination
  by (relation "measure (\<lambda>(cmp, k, x, xs, i). length xs - i)") auto

declare addidx_scan.simps [simp del]

text \<open>With \<open>order\<close> set the caller promises ascending keys and the index is pushed.\<close>

definition vlnodeaddidx :: "cmpfn \<Rightarrow> bool \<Rightarrow> int \<Rightarrow> bytes \<Rightarrow> vlnode \<Rightarrow> vlnode" where
  "vlnodeaddidx cmp order pid k node =
     (let x = \<lparr>idx_pid = pid, idx_key = k\<rparr>; xs = idxs node
      in node\<lparr>idxs := (if order then xs @ [x]
                       else addidx_scan cmp k x xs
                              (nat (fst (vlbsearch cmp k (idx_keys xs) 0 (int (length xs)))))),
              node_dirty := True\<rparr>)"

section \<open>Routing a key through a node: the loop body of \<open>vlsearchleaf\<close>\<close>

text \<open>The scan from index \<open>i\<close>: at the first separator greater than the key, the child
  left of it (the heir for index 0). Past the end the C takes \<open>idxp->pid\<close>, the last
  index the scan examined, which is the last index of the node because the scan
  starts inside the list (\<open>node_route_start\<close>).\<close>

function route_scan :: "cmpfn \<Rightarrow> bytes \<Rightarrow> int \<Rightarrow> vlidx list \<Rightarrow> nat \<Rightarrow> int" where
  "route_scan cmp k hr xs i =
     (if i < length xs then
        (if cmp k (idx_key (xs ! i)) < 0 then (if i = 0 then hr else idx_pid (xs ! (i - 1)))
         else route_scan cmp k hr xs (Suc i))
      else idx_pid (xs ! (length xs - 1)))"
  by pat_completeness auto
termination
  by (relation "measure (\<lambda>(cmp, k, hr, xs, i). length xs - i)") auto

declare route_scan.simps [simp del]

definition node_route_start :: "cmpfn \<Rightarrow> bytes \<Rightarrow> vlnode \<Rightarrow> int" where
  "node_route_start cmp k node =
     (let i = fst (vlbsearch cmp k (idx_keys (idxs node)) 1 (int (length (idxs node))))
      in if 0 < i then i - 1 else i)"

definition node_route :: "cmpfn \<Rightarrow> bytes \<Rightarrow> vlnode \<Rightarrow> int" where
  "node_route cmp k node = route_scan cmp k (heir node) (idxs node) (nat (node_route_start cmp k node))"

text \<open>The reference: the child of the last separator not greater than the key, or the
  heir when every separator is greater.\<close>

definition route_ref :: "cmpfn \<Rightarrow> bytes \<Rightarrow> vlnode \<Rightarrow> int" where
  "route_ref cmp k node =
     (let n = le_count cmp k (idx_keys (idxs node))
      in if n = 0 then heir node else idx_pid (idxs node ! (n - 1)))"

text \<open>An example node: heir 1, children 2 and 3 for the separators \<open>[3]\<close> and \<open>[5]\<close>.\<close>

definition ex_node :: vlnode where
  "ex_node = \<lparr>node_id = 100000000, node_dirty = False, heir = 1,
              idxs = [\<lparr>idx_pid = 2, idx_key = [3]\<rparr>, \<lparr>idx_pid = 3, idx_key = [5]\<rparr>]\<rparr>"

section \<open>Node page images: \<open>vlnodesave\<close>, \<open>vlnodeload\<close>\<close>

text \<open>The image is the heir, then per index the child id and the separator with its
  size. Node pages are never compressed.\<close>

definition idx_image :: "vlidx \<Rightarrow> bytes" where
  "idx_image x = vlsetvnumbuf (idx_pid x) @ vnum_item (idx_key x)"

definition node_image :: "vlnode \<Rightarrow> bytes" where
  "node_image node = vlsetvnumbuf (heir node) @ concat (map idx_image (idxs node))"

text \<open>The index loop of \<open>vlnodeload\<close>: it stops when no byte is left, when no byte
  follows a child id, or when the separator size exceeds what is left. As in the leaf
  reader, a negative separator size passes the check and moves the pointer back.\<close>

partial_function (option) node_idxs_loop ::
  "bytes \<Rightarrow> int \<Rightarrow> int \<Rightarrow> vlidx list \<Rightarrow> vlidx list option" where
  "node_idxs_loop buf p siz acc =
     (if 1 \<le> siz then
        (case vlreadvnumbuf buf p siz of
           (pid, step) \<Rightarrow>
             (let p1 = p + step; s1 = siz - step in
              if s1 < 1 then Some acc
              else
                (case vlreadvnumbuf buf p1 s1 of
                   (ksiz, step2) \<Rightarrow>
                     (let p2 = p1 + step2; s2 = s1 - step2 in
                      if s2 < ksiz then Some acc
                      else node_idxs_loop buf (p2 + ksiz) (s2 - ksiz)
                             (acc @ [\<lparr>idx_pid = pid, idx_key = c_region buf p2 ksiz\<rparr>])))))
      else Some acc)"

declare node_idxs_loop.simps [code]

text \<open>\<open>vlnodeload\<close> from a page image. The outer option is termination of the index
  loop; the inner \<open>None\<close> is the \<open>NULL\<close> returned for a negative (or missing) heir.\<close>

definition vlnodeload_image :: "int \<Rightarrow> bytes \<Rightarrow> vlnode option option" where
  "vlnodeload_image nid buf =
     (let (hr, p, s) = (if 1 \<le> int (length buf)
                        then (case vlreadvnumbuf buf 0 (int (length buf)) of
                                (h, step) \<Rightarrow> (h, step, int (length buf) - step))
                        else (-1, 0, int (length buf)))
      in if hr < 0 then Some None
         else map_option (\<lambda>xs. Some \<lparr>node_id = nid, node_dirty = False, heir = hr, idxs = xs\<rparr>)
                (node_idxs_loop buf p s []))"

section \<open>Routing and index insertion\<close>

lemma route_scan_ref:
  assumes "cmp_linear cmp" and "sorted_wrt (kle cmp) (idx_keys xs)" and "xs \<noteq> []"
    and "i \<le> le_count cmp k (idx_keys xs)"
  shows "route_scan cmp k hr xs i =
           (if le_count cmp k (idx_keys xs) = 0 then hr else idx_pid (xs ! (le_count cmp k (idx_keys xs) - 1)))"
  using assms
proof (induction cmp k hr xs i rule: route_scan.induct)
  case (1 cmp k hr xs i)
  note lin = "1.prems"(1) and srt = "1.prems"(2) and ib = "1.prems"(4)
  show ?case
  proof (cases "i < length xs")
    case True
    have nth: "cmp (idx_key (xs ! i)) k \<le> 0 \<longleftrightarrow> i < le_count cmp k (idx_keys xs)"
      using le_count_nth [OF lin srt, where j = i and k = k] True by simp
    show ?thesis
    proof (cases "cmp k (idx_key (xs ! i)) < 0")
      case lt: True
      then have "i = le_count cmp k (idx_keys xs)"
        using nth ib cmp_not_lt_iff [OF lin] by fastforce
      then show ?thesis using True lt by (subst route_scan.simps) simp
    next
      case ge: False
      then have "Suc i \<le> le_count cmp k (idx_keys xs)"
        using nth cmp_not_lt_iff [OF lin] by simp
      then show ?thesis using "1.IH" [OF True ge lin srt] "1.prems" True ge by (simp add: route_scan.simps [of _ _ _ _ i])
    qed
  next
    case False
    then have "le_count cmp k (idx_keys xs) = length xs"
      using ib le_count_le_length [of cmp k "idx_keys xs"] by simp
    then show ?thesis using False "1.prems"(3) by (simp add: route_scan.simps [of _ _ _ _ i])
  qed
qed

lemma node_route_start_bound:
  assumes "cmp_linear cmp" and "sorted_wrt (kle cmp) (idx_keys (idxs node))" and "idxs node \<noteq> []"
  shows "0 \<le> node_route_start cmp k node \<and> nat (node_route_start cmp k node) < length (idxs node) \<and>
         nat (node_route_start cmp k node) \<le> le_count cmp k (idx_keys (idxs node))"
proof -
  let ?ks = "idx_keys (idxs node)"
  obtain i f where bs: "vlbsearch cmp k ?ks 1 (int (length ?ks)) = (i, f)"
    by (cases "vlbsearch cmp k ?ks 1 (int (length ?ks))") auto
  have b: "0 \<le> i \<and> i \<le> int (length ?ks) \<and> i \<le> max 1 (int (le_count cmp k ?ks))"
    by (rule vlbsearch_le_count [OF assms(1,2) _ _ bs]) simp_all
  have ne: "0 < length ?ks" using assms(3) by simp
  show ?thesis using b ne bs by (auto simp: node_route_start_def Let_def nat_le_iff)
qed

text \<open>C11. On a node whose separators are sorted and not empty, the narrowing from index 1,
  the step back and the scan of \<open>vlsearchleaf\<close> route a key to the child of the last
  separator not greater than it, or to the heir when every separator is greater.\<close>

theorem node_route_correct:
  assumes "cmp_linear cmp" and "sorted_wrt (kle cmp) (idx_keys (idxs node))" and "idxs node \<noteq> []"
  shows "node_route cmp k node = route_ref cmp k node"
  using route_scan_ref [OF assms, of "nat (node_route_start cmp k node)" k "heir node"]
        node_route_start_bound [OF assms, of k]
  by (simp add: node_route_def route_ref_def Let_def)

lemma addidx_scan_ref:
  assumes "cmp_linear cmp" and "sorted_wrt (kle cmp) (idx_keys xs)"
    and "i \<le> le_count cmp k (idx_keys xs)"
  shows "addidx_scan cmp k x xs i = ins_at (le_count cmp k (idx_keys xs)) x xs"
  using assms
proof (induction cmp k x xs i rule: addidx_scan.induct)
  case (1 cmp k x xs i)
  note lin = "1.prems"(1) and srt = "1.prems"(2) and ib = "1.prems"(3)
  show ?case
  proof (cases "i < length xs")
    case True
    have nth: "cmp (idx_key (xs ! i)) k \<le> 0 \<longleftrightarrow> i < le_count cmp k (idx_keys xs)"
      using le_count_nth [OF lin srt, where j = i and k = k] True by simp
    show ?thesis
    proof (cases "cmp k (idx_key (xs ! i)) < 0")
      case lt: True
      then have "i = le_count cmp k (idx_keys xs)"
        using nth ib cmp_not_lt_iff [OF lin] by fastforce
      then show ?thesis using True lt by (subst addidx_scan.simps) simp
    next
      case ge: False
      then have "Suc i \<le> le_count cmp k (idx_keys xs)"
        using nth cmp_not_lt_iff [OF lin] by simp
      then show ?thesis using "1.IH" [OF True ge lin srt] "1.prems" True ge by (simp add: addidx_scan.simps [of _ _ _ _ i])
    qed
  next
    case False
    then have "le_count cmp k (idx_keys xs) = length xs"
      using ib le_count_le_length [of cmp k "idx_keys xs"] by simp
    then show ?thesis using False by (simp add: addidx_scan.simps [of _ _ _ _ i] ins_at_def)
  qed
qed

text \<open>Adding an index to a sorted node without the \<open>order\<close> promise inserts it
  right after every separator not greater than its key, and marks the node dirty.\<close>

theorem vlnodeaddidx_unordered:
  assumes "cmp_linear cmp" and "sorted_wrt (kle cmp) (idx_keys (idxs node))"
  shows "vlnodeaddidx cmp False pid k node =
           node\<lparr>idxs := ins_at (le_count cmp k (idx_keys (idxs node))) \<lparr>idx_pid = pid, idx_key = k\<rparr> (idxs node),
                node_dirty := True\<rparr>"
proof -
  let ?ks = "idx_keys (idxs node)"
  obtain i f where bs: "vlbsearch cmp k ?ks 0 (int (length ?ks)) = (i, f)"
    by (cases "vlbsearch cmp k ?ks 0 (int (length ?ks))") auto
  have b: "0 \<le> i \<and> i \<le> int (length ?ks) \<and> i \<le> max 0 (int (le_count cmp k ?ks))"
    by (rule vlbsearch_le_count [OF assms(1,2) _ _ bs]) simp_all
  then have "nat i \<le> le_count cmp k ?ks" by (simp add: nat_le_iff)
  then show ?thesis
    using addidx_scan_ref [OF assms(1,2)] bs by (simp add: vlnodeaddidx_def Let_def)
qed

section \<open>Round trip of node images\<close>

lemma idx_image_read:
  assumes "0 \<le> idx_pid x" and "0 \<le> s"
  shows "node_idxs_loop (pre @ idx_image x @ post) (int (length pre)) (int (length (idx_image x)) + s) acc
           = node_idxs_loop (pre @ idx_image x @ post) (int (length (pre @ idx_image x))) s (acc @ [x])"
proof -
  let ?e = "vlsetvnumbuf (idx_pid x)" and ?f = "vlsetvnumbuf (int (length (idx_key x)))"
  let ?B = "pre @ ?e @ vnum_item (idx_key x) @ post"
  have B: "pre @ idx_image x @ post = ?B" by (simp add: idx_image_def)
  have ne: "1 \<le> int (length ?e)"
    using vlsetvnumbuf_nonempty [OF assms(1)] by (cases ?e) auto
  have ki: "1 \<le> int (length (vnum_item (idx_key x)))" by (rule vnum_item_length_pos)
  have rd1: "vlreadvnumbuf ?B (int (length pre)) (int (length (idx_image x)) + s) = (idx_pid x, int (length ?e))"
    using vlreadvnumbuf_enc [OF assms(1), of "int (length (idx_image x)) + s" pre "vnum_item (idx_key x) @ post"]
          ne ki assms(2) by (simp add: idx_image_def)
  have rd2: "vlreadvnumbuf ?B (int (length (pre @ ?e))) (int (length (vnum_item (idx_key x))) + s)
               = (int (length (idx_key x)), int (length ?f))"
    using vnum_item_read [OF assms(2), of "pre @ ?e" "idx_key x" post] by simp
  have key: "c_region ?B (int (length (pre @ ?e)) + int (length ?f)) (int (length (idx_key x))) = idx_key x"
    using c_region_append_mid [of "pre @ ?e @ ?f" "idx_key x" post] by (simp add: vnum_item_def algebra_simps)
  have x: "\<lparr>idx_pid = idx_pid x, idx_key = idx_key x\<rparr> = x" by simp
  have len: "int (length (vnum_item (idx_key x))) = int (length ?f) + int (length (idx_key x))"
    by (simp add: vnum_item_def)
  show ?thesis
    unfolding B
    apply (subst node_idxs_loop.simps)
    using rd1 rd2 key ne ki assms(2) len
    apply (simp add: Let_def idx_image_def x algebra_simps)
    done
qed

lemma node_idxs_loop_image:
  assumes "\<forall>x \<in> set xs. 0 \<le> idx_pid x"
  shows "node_idxs_loop (pre @ concat (map idx_image xs)) (int (length pre))
           (int (length (concat (map idx_image xs)))) acc = Some (acc @ xs)"
  using assms
proof (induction xs arbitrary: pre acc)
  case Nil
  then show ?case by (simp add: node_idxs_loop.simps)
next
  case (Cons x xs)
  let ?R = "concat (map idx_image xs)"
  have "node_idxs_loop (pre @ idx_image x @ ?R) (int (length pre)) (int (length (idx_image x)) + int (length ?R)) acc
          = node_idxs_loop ((pre @ idx_image x) @ ?R) (int (length (pre @ idx_image x))) (int (length ?R)) (acc @ [x])"
    using idx_image_read [of x "int (length ?R)" pre "?R" acc] Cons.prems by simp
  also have "\<dots> = Some ((acc @ [x]) @ xs)" using Cons.IH [of "pre @ idx_image x" "acc @ [x]"] Cons.prems by simp
  finally show ?case by simp
qed

text \<open>C14. Round trip of node pages: loading the image that \<open>vlnodesave\<close> writes gives
  back the node, clean, when its heir and child ids are not negative.\<close>

theorem vlnodeload_vlnodesave:
  assumes "0 \<le> heir node" and "\<forall>x \<in> set (idxs node). 0 \<le> idx_pid x"
  shows "vlnodeload_image (node_id node) (node_image node) = Some (Some (node\<lparr>node_dirty := False\<rparr>))"
proof -
  let ?e = "vlsetvnumbuf (heir node)" and ?R = "concat (map idx_image (idxs node))"
  have ne: "1 \<le> int (length ?e)"
    using vlsetvnumbuf_nonempty [OF assms(1)] by (cases ?e) auto
  have rd: "vlreadvnumbuf ([] @ ?e @ ?R) (int (length ([] :: bytes))) (int (length (?e @ ?R)))
              = (heir node, int (length ?e))"
    by (rule vlreadvnumbuf_enc [OF assms(1)]) simp
  have lp: "node_idxs_loop (?e @ ?R) (int (length ?e)) (int (length ?R)) [] = Some ([] @ idxs node)"
    by (rule node_idxs_loop_image [OF assms(2)])
  show ?thesis
    using rd lp ne assms(1) by (simp add: vlnodeload_image_def node_image_def)
qed

section \<open>A corrupt node page\<close>

lemma corrupt_node_reads:
  "vlreadvnumbuf [1, 0, 254] 0 3 = (1, 1)"
  "vlreadvnumbuf [1, 0, 254] 1 2 = (0, 1)"
  "vlreadvnumbuf [1, 0, 254] 2 1 = (-2, 1)"
  by (simp_all add: vlreadvnumbuf_def vnum_read_loop.simps c_byte_def)

lemma corrupt_node_cycle:
  assumes "node_idxs_loop buf p siz acc = Some y"
  shows "buf = [1, 0, 254] \<longrightarrow> p = 1 \<longrightarrow> siz = 2 \<longrightarrow> False"
  apply (rule node_idxs_loop.raw_induct [OF _ assms])
  subgoal for f b q s a r
    apply (intro impI)
    apply hypsubst
    apply (simp add: corrupt_node_reads Let_def)
    apply blast
    done
  done

text \<open>The node reader has the same flaw as the leaf reader: on the three-byte page
  \<open>[0x01, 0x00, 0xFE]\<close> the separator size is read as \<open>-2\<close> and the loop of
  \<open>vlnodeload\<close> returns to the same position forever.\<close>

theorem vlnodeload_corrupt_diverges: "vlnodeload_image 100000000 [1, 0, 254] = None"
  using corrupt_node_cycle [of "[1, 0, 254]" 1 2 "[]"]
  by (cases "node_idxs_loop [1, 0, 254] 1 2 []") (auto simp: vlnodeload_image_def corrupt_node_reads)
section \<open>Witnesses\<close>

lemma ex_node_sorted: "sorted_wrt (kle vllexcompare) (idx_keys (idxs ex_node))"
  by (simp add: ex_node_def kle_def vllexcompare_suffix)

theorem node_route_correct_witness:
  "cmp_linear vllexcompare \<and> sorted_wrt (kle vllexcompare) (idx_keys (idxs ex_node)) \<and>
   idxs ex_node \<noteq> [] \<and> node_route vllexcompare [4] ex_node = 2"
proof -
  have "node_route vllexcompare [4] ex_node = route_ref vllexcompare [4] ex_node"
    by (rule node_route_correct [OF cmp_linear_vllexcompare ex_node_sorted]) (simp add: ex_node_def)
  then show ?thesis
    using cmp_linear_vllexcompare ex_node_sorted
    by (simp add: route_ref_def le_count_def ex_node_def vllexcompare_suffix)
qed

theorem vlnodeaddidx_unordered_witness:
  "cmp_linear vllexcompare \<and> sorted_wrt (kle vllexcompare) (idx_keys (idxs ex_node)) \<and>
   idxs (vlnodeaddidx vllexcompare False 4 [4] ex_node) =
     [\<lparr>idx_pid = 2, idx_key = [3]\<rparr>, \<lparr>idx_pid = 4, idx_key = [4]\<rparr>, \<lparr>idx_pid = 3, idx_key = [5]\<rparr>]"
  using vlnodeaddidx_unordered [OF cmp_linear_vllexcompare ex_node_sorted, of 4 "[4]"]
        cmp_linear_vllexcompare ex_node_sorted
  by (simp add: le_count_def ex_node_def vllexcompare_suffix ins_at_def)

theorem vlnodeload_vlnodesave_witness:
  "0 \<le> heir ex_node \<and> map idx_pid (idxs ex_node) = [2, 3] \<and>
   vlnodeload_image 100000000 (node_image ex_node) = Some (Some (ex_node\<lparr>node_dirty := False\<rparr>))"
  using vlnodeload_vlnodesave [of ex_node] by (simp add: ex_node_def)

end
