(* ===== verification/Cabin_List.thy ===== *)
theory Cabin_List
  imports Varint
begin

text \<open>
  The array list of cabin.c (\<open>CBLIST\<close>; \<open>cblistopen\<close>, \<open>cblistpush\<close>, \<open>cblistpop\<close>,
  \<open>cblistunshift\<close>, \<open>cblistshift\<close>, \<open>cblistinsert\<close>, \<open>cblistremove\<close>,
  \<open>cblistover\<close>, \<open>cblistval\<close>, \<open>cblistdump\<close>, \<open>cblistload\<close>). A list is an array of
  \<open>anum\<close> cells of which \<open>num\<close> cells from \<open>start\<close> are in use; the array doubles when
  an operation runs out of room, and \<open>cblistunshift\<close> moves the elements to the end of
  the array when no cell is free before them. The array is a HOL list of length
  \<open>anum\<close>; cells that \<open>realloc\<close> adds hold an arbitrary value, \<open>[]\<close> here. The
  operations are collected in the datatype \<open>cblist_op\<close> with a step function, and
  the refinement theorem says that every step keeps the array invariant and acts on
  the elements in use as the corresponding operation on HOL lists. The element
  regions are modelled as byte lists; \<open>CB_LISTVAL\<close> and friends read them.
\<close>

section \<open>State\<close>

record cblist =
  arr :: "bytes list"
  anum :: nat
  lstart :: nat
  num :: nat

definition CB_LISTUNIT :: nat where "CB_LISTUNIT = 64"

text \<open>The elements in use, and the invariant of the array.\<close>

definition cblist_abs :: "cblist \<Rightarrow> bytes list" where
  "cblist_abs l = take (num l) (drop (lstart l) (arr l))"

definition cblist_wf :: "cblist \<Rightarrow> bool" where
  "cblist_wf l \<longleftrightarrow> length (arr l) = anum l \<and> 0 < anum l \<and> lstart l + num l \<le> anum l"

section \<open>Array primitives\<close>

text \<open>\<open>realloc\<close> of the array to \<open>n\<close> cells, and \<open>memmove(a + dst, a + src, n)\<close>.\<close>

definition grow :: "nat \<Rightarrow> cblist \<Rightarrow> cblist" where
  "grow n l = l\<lparr>arr := arr l @ replicate (n - anum l) [], anum := n\<rparr>"

definition memmove :: "'a list \<Rightarrow> nat \<Rightarrow> nat \<Rightarrow> nat \<Rightarrow> 'a list" where
  "memmove a dst src n = take dst a @ take n (drop src a) @ drop (dst + n) a"

section \<open>Operations\<close>

definition cblistopen :: cblist where
  "cblistopen = \<lparr>arr = replicate CB_LISTUNIT [], anum = CB_LISTUNIT, lstart = 0, num = 0\<rparr>"

definition cblistval :: "cblist \<Rightarrow> nat \<Rightarrow> bytes option" where
  "cblistval l index = (if num l \<le> index then None else Some (arr l ! (lstart l + index)))"

definition cblistpush :: "cblist \<Rightarrow> bytes \<Rightarrow> cblist" where
  "cblistpush l v =
     (let index = lstart l + num l;
          l1 = (if anum l \<le> index then grow (anum l * 2) l else l)
      in l1\<lparr>arr := (arr l1)[index := v], num := num l1 + 1\<rparr>)"

definition cblistpop :: "cblist \<Rightarrow> bytes option \<times> cblist" where
  "cblistpop l =
     (if num l < 1 then (None, l)
      else (Some (arr l ! (lstart l + num l - 1)), l\<lparr>num := num l - 1\<rparr>))"

definition cblistunshift :: "cblist \<Rightarrow> bytes \<Rightarrow> cblist" where
  "cblistunshift l v =
     (let l1 = (if lstart l < 1 then
                  (let l0 = (if anum l \<le> lstart l + num l then grow (anum l * 2) l else l);
                       st = anum l0 - num l0
                   in l0\<lparr>lstart := st, arr := memmove (arr l0) st 0 (num l0)\<rparr>)
                else l);
          index = lstart l1 - 1
      in l1\<lparr>arr := (arr l1)[index := v], lstart := index, num := num l1 + 1\<rparr>)"

definition cblistshift :: "cblist \<Rightarrow> bytes option \<times> cblist" where
  "cblistshift l =
     (if num l < 1 then (None, l)
      else (Some (arr l ! lstart l), l\<lparr>lstart := lstart l + 1, num := num l - 1\<rparr>))"

definition cblistinsert :: "cblist \<Rightarrow> nat \<Rightarrow> bytes \<Rightarrow> cblist" where
  "cblistinsert l index v =
     (if num l < index then l
      else
        (let idx = lstart l + index;
             l1 = (if anum l \<le> lstart l + num l then grow (anum l * 2) l else l);
             a = memmove (arr l1) (idx + 1) idx (lstart l1 + num l1 - idx)
         in l1\<lparr>arr := a[idx := v], num := num l1 + 1\<rparr>))"

definition cblistremove :: "cblist \<Rightarrow> nat \<Rightarrow> bytes option \<times> cblist" where
  "cblistremove l index =
     (if num l \<le> index then (None, l)
      else
        (let idx = lstart l + index; n' = num l - 1
         in (Some (arr l ! idx),
             l\<lparr>num := n', arr := memmove (arr l) idx (idx + 1) (lstart l + n' - idx)\<rparr>)))"

definition cblistover :: "cblist \<Rightarrow> nat \<Rightarrow> bytes \<Rightarrow> cblist" where
  "cblistover l index v =
     (if num l \<le> index then l else l\<lparr>arr := (arr l)[lstart l + index := v]\<rparr>)"

section \<open>Operations as data\<close>

datatype cblist_op =
    Push bytes | Pop | Unshift bytes | Shift | Insert nat bytes | Remove nat | Over nat bytes

fun cblist_step :: "cblist_op \<Rightarrow> cblist \<Rightarrow> cblist" where
  "cblist_step (Push v) l = cblistpush l v"
| "cblist_step Pop l = snd (cblistpop l)"
| "cblist_step (Unshift v) l = cblistunshift l v"
| "cblist_step Shift l = snd (cblistshift l)"
| "cblist_step (Insert i v) l = cblistinsert l i v"
| "cblist_step (Remove i) l = snd (cblistremove l i)"
| "cblist_step (Over i v) l = cblistover l i v"

text \<open>The same operations on HOL lists.\<close>

fun list_step :: "cblist_op \<Rightarrow> bytes list \<Rightarrow> bytes list" where
  "list_step (Push v) xs = xs @ [v]"
| "list_step Pop xs = butlast xs"
| "list_step (Unshift v) xs = v # xs"
| "list_step Shift xs = tl xs"
| "list_step (Insert i v) xs = (if length xs < i then xs else ins_at i v xs)"
| "list_step (Remove i) xs = (if length xs \<le> i then xs else take i xs @ drop (Suc i) xs)"
| "list_step (Over i v) xs = xs[i := v]"

section \<open>Serialisation: \<open>cblistdump\<close>, \<open>cblistload\<close>\<close>

text \<open>cabin.c carries its own copy of the number codec, \<open>cbsetvnumbuf\<close> and
  \<open>cbreadvnumbuf\<close>; their bodies are the same lines as villa.c's.\<close>

definition cbsetvnumbuf :: "int \<Rightarrow> bytes" where
  "cbsetvnumbuf n = vlsetvnumbuf n"

definition cbreadvnumbuf :: "bytes \<Rightarrow> int \<Rightarrow> int \<Rightarrow> int \<times> int" where
  "cbreadvnumbuf buf p siz = vlreadvnumbuf buf p siz"

definition cb_item :: "bytes \<Rightarrow> bytes" where
  "cb_item v = cbsetvnumbuf (int (length v)) @ v"

definition cblistdump :: "cblist \<Rightarrow> bytes" where
  "cblistdump l = cbsetvnumbuf (int (num l)) @ concat (map cb_item (cblist_abs l))"

text \<open>The element loop of \<open>cblistload\<close>. After an element it moves the pointer past
  the element but leaves \<open>size\<close> as it was (the C has no \<open>size -= vsiz\<close>).\<close>

function cblistload_loop :: "bytes \<Rightarrow> int \<Rightarrow> int \<Rightarrow> int \<Rightarrow> int \<Rightarrow> cblist \<Rightarrow> cblist" where
  "cblistload_loop buf p siz i ln l =
     (if i < ln then
        (if siz < 1 then l
         else
           (case cbreadvnumbuf buf p siz of
              (vsiz, step) \<Rightarrow>
                (let p1 = p + step; s1 = siz - step in
                 if s1 < vsiz then l
                 else cblistload_loop buf (p1 + vsiz) s1 (i + 1) ln (cblistpush l (c_region buf p1 vsiz)))))
      else l)"
  by pat_completeness auto
termination
  by (relation "measure (\<lambda>(buf, p, siz, i, ln, l). nat (ln - i))") auto

declare cblistload_loop.simps [simp del]

definition cblistload :: "bytes \<Rightarrow> int \<Rightarrow> cblist" where
  "cblistload buf siz =
     (case cbreadvnumbuf buf 0 siz of
        (ln, step) \<Rightarrow> (if siz - step < ln then cblistopen
                       else cblistload_loop buf step (siz - step) 0 ln cblistopen))"

section \<open>Array lemmas\<close>

lemma cblist_abs_length: "cblist_wf l \<Longrightarrow> length (cblist_abs l) = num l"
  unfolding cblist_abs_def cblist_wf_def by auto

lemma cblist_abs_nth: "cblist_wf l \<Longrightarrow> j < num l \<Longrightarrow> cblist_abs l ! j = arr l ! (lstart l + j)"
  by (simp add: cblist_abs_def cblist_wf_def)

lemma cblist_abs_eqI:
  assumes "cblist_wf l" and "num l = length xs" and "\<And>j. j < length xs \<Longrightarrow> arr l ! (lstart l + j) = xs ! j"
  shows "cblist_abs l = xs"
  by (rule nth_equalityI) (use assms in \<open>simp_all add: cblist_abs_length cblist_abs_nth\<close>)

lemma memmove_length:
  "dst + n \<le> length a \<Longrightarrow> src + n \<le> length a \<Longrightarrow> length (memmove a dst src n) = length a"
  by (simp add: memmove_def)

lemma memmove_nth:
  assumes "dst + n \<le> length a" and "src + n \<le> length a" and "j < length a"
  shows "memmove a dst src n ! j = (if j < dst \<or> dst + n \<le> j then a ! j else a ! (src + (j - dst)))"
proof -
  have t: "take n (drop src a) = map (\<lambda>i. a ! (src + i)) [0..<n]"
    using assms(2) by (intro nth_equalityI) auto
  show ?thesis
  proof (cases "j < dst")
    case True
    then show ?thesis using assms(1) by (simp add: memmove_def nth_append)
  next
    case False
    show ?thesis
    proof (cases "j < dst + n")
      case True
      then show ?thesis using False assms(1) by (auto simp: memmove_def nth_append t)
    next
      case False2: False
      then show ?thesis using False assms by (auto simp: memmove_def nth_append t)
    qed
  qed
qed

lemma memmove_nth_block:
  assumes "dst + n \<le> length a" and "src + n \<le> length a" and "j < n"
  shows "memmove a dst src n ! (dst + j) = a ! (src + j)"
  using memmove_nth [OF assms(1,2), of "dst + j"] assms by simp

lemma grow_arr_nth: "cblist_wf l \<Longrightarrow> j < anum l \<Longrightarrow> arr (grow n l) ! j = arr l ! j"
  by (simp add: grow_def cblist_wf_def nth_append)

lemma grow_wf:
  "cblist_wf l \<Longrightarrow> anum l \<le> n \<Longrightarrow> length (arr (grow n l)) = n \<and> anum (grow n l) = n \<and>
     lstart (grow n l) = lstart l \<and> num (grow n l) = num l"
  by (simp add: grow_def cblist_wf_def)

lemma cblistpush_refines:
  assumes "cblist_wf l"
  shows "cblist_wf (cblistpush l v) \<and> cblist_abs (cblistpush l v) = cblist_abs l @ [v]"
proof -
  let ?i = "lstart l + num l"
  define l1 where "l1 = (if anum l \<le> ?i then grow (anum l * 2) l else l)"
  have w: "cblist_wf l" by (rule assms)
  then have l1: "length (arr l1) = anum l1" "lstart l1 = lstart l" "num l1 = num l" "?i < anum l1"
    "\<And>j. j < anum l \<Longrightarrow> arr l1 ! j = arr l ! j"
    using grow_wf [OF w, of "anum l * 2"] grow_arr_nth [OF w]
    by (auto simp: l1_def cblist_wf_def)
  have r: "cblistpush l v = l1\<lparr>arr := (arr l1)[?i := v], num := num l1 + 1\<rparr>"
    by (simp add: cblistpush_def l1_def Let_def)
  have wf': "cblist_wf (cblistpush l v)" using l1 by (simp add: r cblist_wf_def)
  have "cblist_abs (cblistpush l v) = cblist_abs l @ [v]"
  proof (rule cblist_abs_eqI [OF wf'])
    show "num (cblistpush l v) = length (cblist_abs l @ [v])" using l1 w by (simp add: r cblist_abs_length)
  next
    fix j assume j: "j < length (cblist_abs l @ [v])"
    show "arr (cblistpush l v) ! (lstart (cblistpush l v) + j) = (cblist_abs l @ [v]) ! j"
    proof (cases "j < num l")
      case True
      then show ?thesis using l1 w by (simp add: r nth_append cblist_abs_length cblist_abs_nth cblist_wf_def)
    next
      case False
      then have "j = num l" using j w by (simp add: cblist_abs_length)
      then show ?thesis using l1 w by (simp add: r nth_append cblist_abs_length)
    qed
  qed
  with wf' show ?thesis by simp
qed


lemma cblistpop_refines:
  assumes "cblist_wf l"
  shows "cblist_wf (snd (cblistpop l)) \<and> cblist_abs (snd (cblistpop l)) = butlast (cblist_abs l)"
proof (cases "num l < 1")
  case True
  then have "cblist_abs l = []" using assms by (simp add: cblist_abs_def)
  then show ?thesis using True assms by (simp add: cblistpop_def)
next
  case False
  let ?l' = "l\<lparr>num := num l - 1\<rparr>"
  have w: "cblist_wf ?l'" using assms by (auto simp: cblist_wf_def)
  have "cblist_abs ?l' = butlast (cblist_abs l)"
    by (rule cblist_abs_eqI [OF w]) (use assms False in \<open>simp_all add: cblist_abs_length nth_butlast cblist_abs_nth\<close>)
  then show ?thesis using w False by (simp add: cblistpop_def)
qed

lemma cblistshift_refines:
  assumes "cblist_wf l"
  shows "cblist_wf (snd (cblistshift l)) \<and> cblist_abs (snd (cblistshift l)) = tl (cblist_abs l)"
proof (cases "num l < 1")
  case True
  then have "cblist_abs l = []" using assms by (simp add: cblist_abs_def)
  then show ?thesis using True assms by (simp add: cblistshift_def)
next
  case False
  let ?l' = "l\<lparr>lstart := lstart l + 1, num := num l - 1\<rparr>"
  have w: "cblist_wf ?l'" using assms False by (simp add: cblist_wf_def)
  have "cblist_abs ?l' = tl (cblist_abs l)"
    by (rule cblist_abs_eqI [OF w]) (use assms False in \<open>simp_all add: cblist_abs_length nth_tl cblist_abs_nth\<close>)
  then show ?thesis using w False by (simp add: cblistshift_def)
qed

lemma cblistover_refines:
  assumes "cblist_wf l"
  shows "cblist_wf (cblistover l i v) \<and> cblist_abs (cblistover l i v) = (cblist_abs l)[i := v]"
proof (cases "num l \<le> i")
  case True
  then show ?thesis using assms list_update_beyond [of "cblist_abs l" i v]
    by (simp add: cblistover_def cblist_abs_length)
next
  case False
  let ?l' = "l\<lparr>arr := (arr l)[lstart l + i := v]\<rparr>"
  have w: "cblist_wf ?l'" using assms by (simp add: cblist_wf_def)
  have "cblist_abs ?l' = (cblist_abs l)[i := v]"
    by (rule cblist_abs_eqI [OF w]) (use assms False in \<open>auto simp: cblist_abs_length cblist_abs_nth nth_list_update cblist_wf_def\<close>)
  then show ?thesis using w False by (simp add: cblistover_def)
qed

lemma cblistremove_refines:
  assumes "cblist_wf l"
  shows "cblist_wf (snd (cblistremove l i)) \<and>
         cblist_abs (snd (cblistremove l i)) =
           (if length (cblist_abs l) \<le> i then cblist_abs l else take i (cblist_abs l) @ drop (Suc i) (cblist_abs l))"
proof (cases "num l \<le> i")
  case True
  then show ?thesis using assms by (simp add: cblistremove_def cblist_abs_length)
next
  case False
  let ?idx = "lstart l + i" and ?n = "num l - 1"
  let ?l' = "l\<lparr>num := ?n, arr := memmove (arr l) ?idx (?idx + 1) (lstart l + ?n - ?idx)\<rparr>"
  have c: "?idx + (lstart l + ?n - ?idx) \<le> length (arr l)" "?idx + 1 + (lstart l + ?n - ?idx) \<le> length (arr l)"
    using assms False by (auto simp: cblist_wf_def)
  have w: "cblist_wf ?l'" using assms c False by (auto simp: cblist_wf_def memmove_length)
  have "cblist_abs ?l' = take i (cblist_abs l) @ drop (Suc i) (cblist_abs l)"
  proof (rule cblist_abs_eqI [OF w])
    show "num ?l' = length (take i (cblist_abs l) @ drop (Suc i) (cblist_abs l))"
      using assms False by (simp add: cblist_abs_length)
  next
    fix j assume j: "j < length (take i (cblist_abs l) @ drop (Suc i) (cblist_abs l))"
    then have jn: "j < num l - 1" using assms False by (simp add: cblist_abs_length)
    have p: "lstart l + j < length (arr l)" using jn assms by (auto simp: cblist_wf_def)
    show "arr ?l' ! (lstart ?l' + j) = (take i (cblist_abs l) @ drop (Suc i) (cblist_abs l)) ! j"
      using memmove_nth [OF c p] jn assms False
      by (auto simp: nth_append cblist_abs_length cblist_abs_nth min_def)
  qed
  then show ?thesis using w False assms by (simp add: cblistremove_def Let_def cblist_abs_length)
qed

lemma cblistinsert_refines:
  assumes "cblist_wf l"
  shows "cblist_wf (cblistinsert l i v) \<and>
         cblist_abs (cblistinsert l i v) =
           (if length (cblist_abs l) < i then cblist_abs l else ins_at i v (cblist_abs l))"
proof (cases "num l < i")
  case True
  then show ?thesis using assms by (simp add: cblistinsert_def cblist_abs_length)
next
  case False
  let ?idx = "lstart l + i"
  define l1 where "l1 = (if anum l \<le> lstart l + num l then grow (anum l * 2) l else l)"
  have l1: "length (arr l1) = anum l1" "lstart l1 = lstart l" "num l1 = num l"
    "lstart l + num l < anum l1" "\<And>j. j < anum l \<Longrightarrow> arr l1 ! j = arr l ! j"
    using grow_wf [OF assms, of "anum l * 2"] grow_arr_nth [OF assms] assms
    by (auto simp: l1_def cblist_wf_def)
  let ?a = "memmove (arr l1) (?idx + 1) ?idx (lstart l1 + num l1 - ?idx)"
  have c: "?idx + 1 + (lstart l1 + num l1 - ?idx) \<le> length (arr l1)" "?idx + (lstart l1 + num l1 - ?idx) \<le> length (arr l1)"
    using l1 False by simp_all
  have alen: "?idx < length ?a" using memmove_length [OF c(1) c(2)] l1 False by simp
  have r: "cblistinsert l i v = l1\<lparr>arr := ?a[?idx := v], num := num l1 + 1\<rparr>"
    using False by (simp add: cblistinsert_def l1_def Let_def)
  have w: "cblist_wf (cblistinsert l i v)"
    using l1 c by (simp add: r cblist_wf_def memmove_length)
  have "cblist_abs (cblistinsert l i v) = ins_at i v (cblist_abs l)"
  proof (rule cblist_abs_eqI [OF w])
    show "num (cblistinsert l i v) = length (ins_at i v (cblist_abs l))"
      using l1 assms by (simp add: r cblist_abs_length)
  next
    fix j assume j: "j < length (ins_at i v (cblist_abs l))"
    then have jn: "j \<le> num l" using assms by (simp add: cblist_abs_length)
    have p: "lstart l + j < length (arr l1)" using jn l1 by simp
    have ins: "ins_at i v (cblist_abs l) ! j =
                 (if j < i then cblist_abs l ! j else if j = i then v else cblist_abs l ! (j - 1))"
      using nth_ins_at [of i "cblist_abs l" j v] False jn assms by (simp add: cblist_abs_length)
    show "arr (cblistinsert l i v) ! (lstart (cblistinsert l i v) + j) = ins_at i v (cblist_abs l) ! j"
      using memmove_nth [OF c p] jn l1 assms False ins alen
      by (auto simp: r cblist_abs_nth cblist_wf_def nth_list_update)
  qed
  then show ?thesis using w False assms by (simp add: cblist_abs_length)
qed

lemma cblistunshift_refines:
  assumes "cblist_wf l"
  shows "cblist_wf (cblistunshift l v) \<and> cblist_abs (cblistunshift l v) = v # cblist_abs l"
proof -
  define l1 where "l1 = (if lstart l < 1 then
                  (let l0 = (if anum l \<le> lstart l + num l then grow (anum l * 2) l else l);
                       st = anum l0 - num l0
                   in l0\<lparr>lstart := st, arr := memmove (arr l0) st 0 (num l0)\<rparr>)
                else l)"
  have r: "cblistunshift l v = l1\<lparr>arr := (arr l1)[lstart l1 - 1 := v], lstart := lstart l1 - 1, num := num l1 + 1\<rparr>"
    by (simp add: cblistunshift_def l1_def Let_def)
  have l1: "length (arr l1) = anum l1 \<and> 1 \<le> lstart l1 \<and> lstart l1 + num l1 \<le> anum l1 \<and> num l1 = num l \<and>
            (\<forall>j < num l. arr l1 ! (lstart l1 + j) = arr l ! (lstart l + j))"
  proof (cases "lstart l < 1")
    case False
    then show ?thesis using assms by (simp add: l1_def cblist_wf_def)
  next
    case True
    define l0 where "l0 = (if anum l \<le> lstart l + num l then grow (anum l * 2) l else l)"
    have l0: "length (arr l0) = anum l0" "num l0 = num l" "lstart l0 = lstart l" "num l < anum l0"
      "\<And>j. j < anum l \<Longrightarrow> arr l0 ! j = arr l ! j"
      using grow_wf [OF assms, of "anum l * 2"] grow_arr_nth [OF assms] assms True
      by (auto simp: l0_def cblist_wf_def)
    let ?st = "anum l0 - num l0"
    have e: "l1 = l0\<lparr>lstart := ?st, arr := memmove (arr l0) ?st 0 (num l0)\<rparr>"
      using True by (simp add: l1_def l0_def Let_def)
    have c: "?st + num l0 \<le> length (arr l0)" "0 + num l0 \<le> length (arr l0)" using l0 by simp_all
    have mv: "arr l1 ! (lstart l1 + j) = arr l ! (lstart l + j)" if j: "j < num l" for j
    proof -
      have "j < anum l" using j assms by (simp add: cblist_wf_def)
      then show ?thesis using memmove_nth_block [OF c, of j] j l0 True by (simp add: e)
    qed
    have ml: "length (memmove (arr l0) ?st 0 (num l0)) = anum l0" using memmove_length [OF c] l0 by simp
    show ?thesis using l0 mv ml by (auto simp: e)
  qed
  have w: "cblist_wf (cblistunshift l v)" using l1 by (auto simp: r cblist_wf_def)
  have "cblist_abs (cblistunshift l v) = v # cblist_abs l"
  proof (rule cblist_abs_eqI [OF w])
    show "num (cblistunshift l v) = length (v # cblist_abs l)" using l1 assms by (simp add: r cblist_abs_length)
  next
    fix j assume j: "j < length (v # cblist_abs l)"
    show "arr (cblistunshift l v) ! (lstart (cblistunshift l v) + j) = (v # cblist_abs l) ! j"
    proof (cases j)
      case 0
      then show ?thesis using l1 by (auto simp: r)
    next
      case (Suc j')
      then have "j' < num l" using j assms by (simp add: cblist_abs_length)
      then show ?thesis using l1 Suc assms by (auto simp: r cblist_abs_nth nth_list_update)
    qed
  qed
  then show ?thesis using w by simp
qed

lemma cblistopen_wf: "cblist_wf cblistopen \<and> cblist_abs cblistopen = []"
  by (simp add: cblistopen_def cblist_wf_def cblist_abs_def CB_LISTUNIT_def)

lemma cblist_step_refines:
  assumes "cblist_wf l"
  shows "cblist_wf (cblist_step op l) \<and> cblist_abs (cblist_step op l) = list_step op (cblist_abs l)"
  using assms cblistpush_refines cblistpop_refines cblistunshift_refines cblistshift_refines
        cblistinsert_refines cblistremove_refines cblistover_refines
  by (cases op) simp_all

text \<open>C16. Refinement of the array list: after any sequence of list operations from
  \<open>cblistopen\<close>, the array invariant holds and the elements in use are those the same
  operations give on a HOL list. Each operation's case is a lemma above.\<close>

theorem cblist_ops_refine:
  "cblist_wf (fold cblist_step ops cblistopen) \<and> cblist_abs (fold cblist_step ops cblistopen) = fold list_step ops []"
proof -
  have "cblist_wf l \<Longrightarrow> cblist_wf (fold cblist_step ops l) \<and> cblist_abs (fold cblist_step ops l) = fold list_step ops (cblist_abs l)" for l
  proof (induction ops arbitrary: l)
    case (Cons op ops)
    then show ?case using cblist_step_refines [OF Cons.prems, of op] by simp
  qed simp
  then show ?thesis using cblistopen_wf by simp
qed

section \<open>Round trip of the dump\<close>

lemma cb_item_read:
  "0 \<le> s \<Longrightarrow> cbreadvnumbuf (pre @ cb_item v @ post) (int (length pre)) (int (length (cb_item v)) + s)
     = (int (length v), int (length (cbsetvnumbuf (int (length v)))))"
  using vlreadvnumbuf_enc [of "int (length v)" "int (length (cb_item v)) + s" pre "v @ post"]
  by (simp add: cb_item_def cbreadvnumbuf_def cbsetvnumbuf_def)

lemma cb_item_length_pos: "1 \<le> int (length (cb_item v))"
  using vlsetvnumbuf_nonempty [of "int (length v)"]
  by (cases "vlsetvnumbuf (int (length v))") (auto simp: cb_item_def cbsetvnumbuf_def)

lemma cblistload_loop_items:
  assumes "int (length (concat (map cb_item vs))) \<le> siz"
  shows "cblistload_loop (pre @ concat (map cb_item vs) @ post) (int (length pre)) siz i (i + int (length vs)) l
           = fold (\<lambda>v l. cblistpush l v) vs l"
  using assms
proof (induction vs arbitrary: pre siz i l)
  case Nil
  then show ?case by (simp add: cblistload_loop.simps)
next
  case (Cons v vs)
  let ?e = "cbsetvnumbuf (int (length v))" and ?R = "concat (map cb_item vs)"
  let ?B = "pre @ cb_item v @ ?R @ post"
  have len: "int (length (cb_item v)) = int (length ?e) + int (length v)" by (simp add: cb_item_def)
  have s0: "0 \<le> siz - int (length (cb_item v))" using Cons.prems by simp
  have rd: "cbreadvnumbuf ?B (int (length pre)) siz = (int (length v), int (length ?e))"
    using cb_item_read [OF s0, of pre v "?R @ post"] by simp
  have reg: "c_region ?B (int (length pre) + int (length ?e)) (int (length v)) = v"
    using c_region_append_mid [of "pre @ ?e" v "?R @ post"] by (simp add: cb_item_def)
  have pos: "1 \<le> siz" using cb_item_length_pos [of v] Cons.prems by simp
  have ih: "cblistload_loop ((pre @ cb_item v) @ ?R @ post) (int (length (pre @ cb_item v))) (siz - int (length ?e))
              (i + 1) (i + 1 + int (length vs)) (cblistpush l v) = fold (\<lambda>v l. cblistpush l v) vs (cblistpush l v)"
    by (rule Cons.IH) (use Cons.prems len in simp)
  show ?case
    apply (subst cblistload_loop.simps)
    using rd reg pos ih len Cons.prems
    apply (simp add: Let_def algebra_simps)
    done
qed

lemma fold_cblistpush:
  "cblist_wf l \<Longrightarrow> cblist_wf (fold (\<lambda>v l. cblistpush l v) vs l) \<and>
     cblist_abs (fold (\<lambda>v l. cblistpush l v) vs l) = cblist_abs l @ vs"
proof (induction vs arbitrary: l)
  case (Cons v vs)
  then show ?case using cblistpush_refines [OF Cons.prems, of v] by simp
qed simp

text \<open>C17. Round trip of list serialisation: loading a dump gives back the elements.\<close>

theorem cblistload_cblistdump:
  assumes "cblist_wf l"
  shows "cblist_abs (cblistload (cblistdump l) (int (length (cblistdump l)))) = cblist_abs l"
proof -
  let ?xs = "cblist_abs l" and ?e = "cbsetvnumbuf (int (num l))"
  let ?R = "concat (map cb_item ?xs)"
  have n: "num l = length ?xs" using assms by (simp add: cblist_abs_length)
  have rd: "cbreadvnumbuf ([] @ ?e @ ?R) (int (length ([] :: bytes))) (int (length (?e @ ?R))) = (int (num l), int (length ?e))"
    unfolding cbreadvnumbuf_def cbsetvnumbuf_def by (rule vlreadvnumbuf_enc) simp_all
  have cnt: "int (length ?xs) \<le> int (length ?R)"
  proof -
    have "length ?R = sum_list (map (\<lambda>v. length (cb_item v)) ?xs)" by (simp add: length_concat comp_def)
    also have "\<dots> \<ge> sum_list (map (\<lambda>v. 1) ?xs)"
      using cb_item_length_pos by (intro sum_list_mono) fastforce
    finally show ?thesis by (simp add: sum_list_triv)
  qed
  have lp: "cblistload_loop (?e @ ?R @ []) (int (length ?e)) (int (length ?R)) 0 (0 + int (length ?xs)) cblistopen
              = fold (\<lambda>v l. cblistpush l v) ?xs cblistopen"
    by (rule cblistload_loop_items) simp
  show ?thesis
    using rd cnt lp fold_cblistpush [of cblistopen ?xs] cblistopen_wf n
    by (simp add: cblistload_def cblistdump_def)
qed

section \<open>Reading past the region\<close>

lemma overread_reads:
  "cbreadvnumbuf [2, 1, 97, 0] 0 3 = (2, 1)" "cbreadvnumbuf [2, 1, 97, 0] 1 2 = (1, 1)"
  "cbreadvnumbuf [2, 1, 97, 0] 3 1 = (0, 1)"
  by (simp_all add: cbreadvnumbuf_def vlreadvnumbuf_def vnum_read_loop.simps c_byte_def)

text \<open>\<open>cblistload\<close> never subtracts an element's size from \<open>size\<close>, so it reads
  past the region it is given: the three bytes \<open>[2, 1, 97]\<close> announce two elements
  but hold one, and the loader takes a second, empty element from the byte after
  the region.\<close>

theorem cblistload_overread:
  "cblist_abs (cblistload [2, 1, 97, 0] 3) = [[97], []]"
proof -
  have "cblistload [2, 1, 97, 0] 3 = cblistpush (cblistpush cblistopen [97]) []"
    by (simp add: cblistload_def overread_reads cblistload_loop.simps c_region_def c_bytes_def c_byte_def)
  then show ?thesis using fold_cblistpush [of cblistopen "[[97], []]"] cblistopen_wf by simp
qed
section \<open>Witnesses\<close>

theorem cblistload_cblistdump_witness:
  "cblist_wf (cblistpush cblistopen [7]) \<and>
   cblist_abs (cblistload (cblistdump (cblistpush cblistopen [7])) (int (length (cblistdump (cblistpush cblistopen [7])))))
     = [[7]]"
  using cblistload_cblistdump [of "cblistpush cblistopen [7]"] cblistpush_refines [of cblistopen "[7]"] cblistopen_wf
  by simp

end
