(* ===== verification/Cabin_Map.thy ===== *)
theory Cabin_Map
  imports Cabin_List
begin

text \<open>
  The hash map of cabin.c (\<open>CBMAP\<close>; \<open>cbmapput\<close>, \<open>cbmapputcat\<close>, \<open>cbmapout\<close>,
  \<open>cbmapget\<close>, \<open>cbmapmove\<close>, \<open>cbmapiterinit\<close>/\<open>cbmapiternext\<close>, \<open>cbmaprnum\<close>,
  \<open>cbmapkeys\<close>, \<open>cbmapvals\<close>, \<open>cbmapdump\<close>, \<open>cbmapload\<close>). Its records sit in hash
  buckets, each a binary search tree ordered by the second hash and \<open>cbkeycmp\<close>, and
  on a doubly linked list in insertion order, which the iterator follows. The model
  keeps the linked list: a map is the list of its records in iteration order. A
  lookup through buckets and trees finds the record whose key equals the key byte
  for byte (\<open>cbkeycmp\<close> is zero exactly on equal keys), which on the list is
  \<open>map_of\<close>; the bucket and tree layout itself is not modelled. The villa page caches
  are maps from page ids to pages, so the operations are stated for any key and
  value types.
\<close>

type_synonym ('k, 'v) cbmap = "('k \<times> 'v) list"

section \<open>Operations\<close>

definition cbmapopen :: "('k, 'v) cbmap" where
  "cbmapopen = []"

definition cbmapget :: "('k, 'v) cbmap \<Rightarrow> 'k \<Rightarrow> 'v option" where
  "cbmapget m k = map_of m k"

text \<open>An existing record keeps its place in the order and gets the new value when
  \<open>over\<close> is set; a new record goes to the end.\<close>

definition cbmapput :: "('k, 'v) cbmap \<Rightarrow> 'k \<Rightarrow> 'v \<Rightarrow> bool \<Rightarrow> bool \<times> ('k, 'v) cbmap" where
  "cbmapput m k v over =
     (if k \<in> set (map fst m) then
        (if over then (True, map (\<lambda>(k', v'). if k' = k then (k', v) else (k', v')) m) else (False, m))
      else (True, m @ [(k, v)]))"

definition cbmapputcat :: "('k, bytes) cbmap \<Rightarrow> 'k \<Rightarrow> bytes \<Rightarrow> ('k, bytes) cbmap" where
  "cbmapputcat m k v =
     (if k \<in> set (map fst m) then map (\<lambda>(k', v'). if k' = k then (k', v' @ v) else (k', v')) m
      else m @ [(k, v)])"

definition cbmapout :: "('k, 'v) cbmap \<Rightarrow> 'k \<Rightarrow> bool \<times> ('k, 'v) cbmap" where
  "cbmapout m k =
     (if k \<in> set (map fst m) then (True, filter (\<lambda>(k', v'). k' \<noteq> k) m) else (False, m))"

text \<open>Move a record to the head or to the tail of the order.\<close>

definition cbmapmove :: "('k, 'v) cbmap \<Rightarrow> 'k \<Rightarrow> bool \<Rightarrow> bool \<times> ('k, 'v) cbmap" where
  "cbmapmove m k head =
     (case map_of m k of
        None \<Rightarrow> (False, m)
      | Some v \<Rightarrow>
          (True, if head then (k, v) # filter (\<lambda>(k', v'). k' \<noteq> k) m
                 else filter (\<lambda>(k', v'). k' \<noteq> k) m @ [(k, v)]))"

definition cbmaprnum :: "('k, 'v) cbmap \<Rightarrow> nat" where
  "cbmaprnum m = length m"

definition cbmapkeys :: "('k, 'v) cbmap \<Rightarrow> 'k list" where
  "cbmapkeys m = map fst m"

definition cbmapvals :: "('k, 'v) cbmap \<Rightarrow> 'v list" where
  "cbmapvals m = map snd m"

text \<open>The iterator \<open>cur\<close> points at a record, or is \<open>NULL\<close>: here the list of records
  from the current one on. \<open>cbmapiternext\<close> returns the current key and steps on.\<close>

definition cbmapiterinit :: "('k, 'v) cbmap \<Rightarrow> ('k, 'v) cbmap" where
  "cbmapiterinit m = m"

fun cbmapiternext :: "('k, 'v) cbmap \<Rightarrow> 'k option \<times> ('k, 'v) cbmap" where
  "cbmapiternext [] = (None, [])"
| "cbmapiternext ((k, v) # rest) = (Some k, rest)"

section \<open>Serialisation: \<open>cbmapdump\<close>, \<open>cbmapload\<close>\<close>

definition cbmapdump :: "(bytes, bytes) cbmap \<Rightarrow> bytes" where
  "cbmapdump m = cbsetvnumbuf (int (length m)) @ concat (map (\<lambda>(k, v). cb_item k @ cb_item v) m)"

text \<open>The record loop of \<open>cbmapload\<close>. As in \<open>cblistload\<close>, the pointer moves past
  each key and value but \<open>size\<close> is only reduced by the size fields.\<close>

function cbmapload_loop ::
  "bytes \<Rightarrow> int \<Rightarrow> int \<Rightarrow> int \<Rightarrow> int \<Rightarrow> (bytes, bytes) cbmap \<Rightarrow> (bytes, bytes) cbmap" where
  "cbmapload_loop buf p siz i rn m =
     (if i < rn then
        (if siz < 1 then m
         else
           (case cbreadvnumbuf buf p siz of
              (ksiz, step) \<Rightarrow>
                (let p1 = p + step; s1 = siz - step in
                 if s1 < ksiz then m
                 else
                   (let kp = p1; p2 = p1 + ksiz in
                    if s1 < 1 then m
                    else
                      (case cbreadvnumbuf buf p2 s1 of
                         (vsiz, step2) \<Rightarrow>
                           (let p3 = p2 + step2; s3 = s1 - step2 in
                            if s3 < vsiz then m
                            else cbmapload_loop buf (p3 + vsiz) s3 (i + 1) rn
                                   (snd (cbmapput m (c_region buf kp ksiz) (c_region buf p3 vsiz) True))))))))
      else m)"
  by pat_completeness auto
termination
  by (relation "measure (\<lambda>(buf, p, siz, i, rn, m). nat (rn - i))") auto

declare cbmapload_loop.simps [simp del]

definition cbmapload :: "bytes \<Rightarrow> int \<Rightarrow> (bytes, bytes) cbmap" where
  "cbmapload buf siz =
     (case cbreadvnumbuf buf 0 siz of
        (rn, step) \<Rightarrow> (if siz - step < rn then cbmapopen
                       else cbmapload_loop buf step (siz - step) 0 rn cbmapopen))"

section \<open>Operations as data\<close>

datatype ('k, 'v) cbmap_op = MPut 'k 'v bool | MOut 'k | MMove 'k bool

fun cbmap_step :: "('k, 'v) cbmap_op \<Rightarrow> ('k, 'v) cbmap \<Rightarrow> ('k, 'v) cbmap" where
  "cbmap_step (MPut k v over) m = snd (cbmapput m k v over)"
| "cbmap_step (MOut k) m = snd (cbmapout m k)"
| "cbmap_step (MMove k head) m = snd (cbmapmove m k head)"

text \<open>The same operations on a partial function: a put without \<open>over\<close> keeps an
  existing value, a move changes nothing.\<close>

fun map_step :: "('k, 'v) cbmap_op \<Rightarrow> ('k \<rightharpoonup> 'v) \<Rightarrow> ('k \<rightharpoonup> 'v)" where
  "map_step (MPut k v over) f = (if over \<or> f k = None then f(k \<mapsto> v) else f)"
| "map_step (MOut k) f = f(k := None)"
| "map_step (MMove k head) f = f"

section \<open>Refinement\<close>

lemma map_of_update_val:
  "map_of (map (\<lambda>(k', v'). if k' = k then (k', f v') else (k', v')) m) = (\<lambda>x. if x = k then map_option f (map_of m k) else map_of m x)"
  by (induction m) (auto simp: fun_eq_iff)

lemma map_fst_update_val:
  "map fst (map (\<lambda>(k', v'). if k' = k then (k', f v') else (k', v')) m) = map fst m"
  by (induction m) auto

lemma map_of_filter_key:
  "map_of (filter (\<lambda>(k', v'). k' \<noteq> k) m) = (map_of m)(k := None)"
  by (induction m) (auto simp: fun_eq_iff)

lemma distinct_filter_key: "distinct (map fst m) \<Longrightarrow> distinct (map fst (filter (\<lambda>(k', v'). k' \<noteq> k) m))"
  by (induction m) (auto simp: filter_map [symmetric] comp_def)

lemma fst_in_filter_key: "k \<notin> set (map fst (filter (\<lambda>(k', v'). k' \<noteq> k) m))"
  by (induction m) auto

lemma map_of_snoc_fresh: "k \<notin> fst ` set xs \<Longrightarrow> map_of (xs @ [(k, v)]) = (map_of xs)(k \<mapsto> v)"
  by (induction xs) (auto simp: fun_eq_iff)

lemma cbmap_step_refines:
  assumes "distinct (map fst m)"
  shows "distinct (map fst (cbmap_step op m)) \<and> map_of (cbmap_step op m) = map_step op (map_of m)"
proof (cases op)
  case (MPut k v over)
  have upd: "map_of (map (\<lambda>(k', v'). if k' = k then (k', v) else (k', v')) m) = (map_of m)(k \<mapsto> v)"
    if "k \<in> set (map fst m)"
  proof -
    have "map_of m k \<noteq> None" using that by (simp add: map_of_eq_None_iff)
    then show ?thesis by (auto simp: map_of_update_val [of k "\<lambda>_. v" m] fun_eq_iff)
  qed
  show ?thesis
  proof (cases "k \<in> set (map fst m)")
    case True
    have nn: "map_of m k \<noteq> None" using True by (simp add: map_of_eq_None_iff)
    have d: "distinct (map fst (map (\<lambda>(k', v'). if k' = k then (k', v) else (k', v')) m))"
      using assms by (simp only: map_fst_update_val [of k "\<lambda>_. v" m])
    show ?thesis
      using upd [OF True] d True assms by (simp add: MPut cbmapput_def map_of_eq_None_iff)
  next
    case False
    then have "map_of m k = None" by (simp add: map_of_eq_None_iff)
    then show ?thesis using assms False
      by (auto simp: MPut cbmapput_def map_add_def fun_eq_iff split: option.split)
  qed
next
  case (MOut k)
  then show ?thesis using assms distinct_filter_key [OF assms]
    by (auto simp: cbmapout_def map_of_filter_key map_of_eq_None_iff fun_eq_iff)
next
  case (MMove k head)
  show ?thesis
  proof (cases "map_of m k")
    case None
    then show ?thesis using assms by (simp add: MMove cbmapmove_def)
  next
    case (Some v)
    have restore: "((map_of m)(k := None))(k \<mapsto> v) = map_of m" using Some by (auto simp: fun_eq_iff)
    have fr: "k \<notin> fst ` set (filter (\<lambda>(k', v'). k' \<noteq> k) m)" using fst_in_filter_key [of k m] by simp
    show ?thesis
      using assms distinct_filter_key [OF assms, of k] fr restore Some
      by (simp add: MMove cbmapmove_def map_of_filter_key map_of_snoc_fresh [OF fr] del: map_of_append)
  qed
qed


section \<open>Round trip of the dump\<close>

lemma cbmapload_loop_items:
  assumes "int (length (concat (map (\<lambda>(k, v). cb_item k @ cb_item v) kvs))) \<le> siz"
  shows "cbmapload_loop (pre @ concat (map (\<lambda>(k, v). cb_item k @ cb_item v) kvs) @ post) (int (length pre))
           siz i (i + int (length kvs)) m
         = fold (\<lambda>(k, v) m. snd (cbmapput m k v True)) kvs m"
  using assms
proof (induction kvs arbitrary: pre siz i m)
  case Nil
  then show ?case by (simp add: cbmapload_loop.simps)
next
  case (Cons kv kvs)
  obtain k v where kv: "kv = (k, v)" by (cases kv)
  let ?ek = "cbsetvnumbuf (int (length k))" and ?ev = "cbsetvnumbuf (int (length v))"
  let ?R = "concat (map (\<lambda>(k, v). cb_item k @ cb_item v) kvs)"
  let ?B = "pre @ cb_item k @ cb_item v @ ?R @ post"
  have lk: "int (length (cb_item k)) = int (length ?ek) + int (length k)" by (simp add: cb_item_def)
  have lv: "int (length (cb_item v)) = int (length ?ev) + int (length v)" by (simp add: cb_item_def)
  have pk: "1 \<le> int (length (cb_item k))" and pv: "1 \<le> int (length (cb_item v))" by (rule cb_item_length_pos)+
  have sz: "int (length (cb_item k)) + int (length (cb_item v)) + int (length ?R) \<le> siz"
    using Cons.prems kv by simp
  have rk: "cbreadvnumbuf ?B (int (length pre)) siz = (int (length k), int (length ?ek))"
    using cb_item_read [of "siz - int (length (cb_item k))" pre k "cb_item v @ ?R @ post"] sz pv by simp
  have rv: "cbreadvnumbuf ?B (int (length (pre @ cb_item k))) (siz - int (length ?ek))
              = (int (length v), int (length ?ev))"
    using cb_item_read [of "siz - int (length ?ek) - int (length (cb_item v))" "pre @ cb_item k" v "?R @ post"] sz lk
    by simp
  have ck: "c_region ?B (int (length pre) + int (length ?ek)) (int (length k)) = k"
    using c_region_append_mid [of "pre @ ?ek" k "cb_item v @ ?R @ post"] by (simp add: cb_item_def)
  have cv: "c_region ?B (int (length (pre @ cb_item k)) + int (length ?ev)) (int (length v)) = v"
    using c_region_append_mid [of "pre @ cb_item k @ ?ev" v "?R @ post"] by (simp add: cb_item_def algebra_simps)
  have ih: "cbmapload_loop ((pre @ cb_item k @ cb_item v) @ ?R @ post) (int (length (pre @ cb_item k @ cb_item v)))
              (siz - int (length ?ek) - int (length ?ev)) (i + 1) (i + 1 + int (length kvs)) (snd (cbmapput m k v True))
            = fold (\<lambda>(k, v) m. snd (cbmapput m k v True)) kvs (snd (cbmapput m k v True))"
    by (rule Cons.IH) (use sz lk lv in simp)
  show ?case
    unfolding kv
    apply (subst cbmapload_loop.simps)
    using rk rv ck cv ih sz lk lv pk pv
    apply (simp add: Let_def algebra_simps)
    done
qed

lemma fold_cbmapput_fresh:
  "distinct (map fst (m @ kvs)) \<Longrightarrow> fold (\<lambda>(k, v) m. snd (cbmapput m k v True)) kvs m = m @ kvs"
proof (induction kvs arbitrary: m)
  case (Cons kv kvs)
  obtain k v where kv: "kv = (k, v)" by (cases kv)
  have "k \<notin> set (map fst m)" using Cons.prems kv by auto
  then have "snd (cbmapput m k v True) = m @ [(k, v)]" by (simp add: cbmapput_def)
  then show ?case using Cons.IH [of "m @ [(k, v)]"] Cons.prems kv by simp
qed simp

text \<open>C19. Round trip of map serialisation: loading a dump gives back the records in
  their order.\<close>

theorem cbmapload_cbmapdump:
  assumes "distinct (cbmapkeys m)"
  shows "cbmapload (cbmapdump m) (int (length (cbmapdump m))) = m"
proof -
  let ?e = "cbsetvnumbuf (int (length m))" and ?R = "concat (map (\<lambda>(k, v). cb_item k @ cb_item v) m)"
  have rd: "cbreadvnumbuf ([] @ ?e @ ?R) (int (length ([] :: bytes))) (int (length (?e @ ?R))) = (int (length m), int (length ?e))"
    unfolding cbreadvnumbuf_def cbsetvnumbuf_def by (rule vlreadvnumbuf_enc) simp_all
  have cnt: "int (length m) \<le> int (length ?R)"
  proof -
    have "length ?R = sum_list (map (\<lambda>(k, v). length (cb_item k) + length (cb_item v)) m)"
      by (simp add: length_concat comp_def case_prod_unfold)
    also have "\<dots> \<ge> sum_list (map (\<lambda>kv. 1) m)"
    proof (intro sum_list_mono)
      fix kv :: "bytes \<times> bytes"
      show "1 \<le> (case kv of (k, v) \<Rightarrow> length (cb_item k) + length (cb_item v))"
        using cb_item_length_pos [of "fst kv"] by (cases kv) auto
    qed
    finally show ?thesis by (simp add: sum_list_triv)
  qed
  have lp: "cbmapload_loop (?e @ ?R @ []) (int (length ?e)) (int (length ?R)) 0 (0 + int (length m)) cbmapopen
              = fold (\<lambda>(k, v) m. snd (cbmapput m k v True)) m cbmapopen"
    by (rule cbmapload_loop_items) simp
  show ?thesis
    using rd cnt lp fold_cbmapput_fresh [of "[]" m] assms
    by (simp add: cbmapload_def cbmapdump_def cbmapopen_def cbmapkeys_def)
qed
section \<open>Witnesses\<close>

theorem cbmapload_cbmapdump_witness:
  "distinct (cbmapkeys ([([1], [2]), ([3], [])] :: (bytes, bytes) cbmap)) \<and>
   cbmapload (cbmapdump [([1], [2]), ([3], [])]) (int (length (cbmapdump [([1], [2]), ([3], [])])))
     = [([1], [2]), ([3], [])]"
  using cbmapload_cbmapdump [of "[([1], [2]), ([3], [])]"] by (simp add: cbmapkeys_def)

end
