(* ===== verification/Villa_Pages.thy ===== *)
theory Villa_Pages
  imports Node_Page Cabin_Map "HOL-Library.AList" "HOL-Library.Monad_Syntax"
begin

text \<open>
  The database handle of villa.c (\<open>VILLA\<close>) and its page layer: the backing store,
  the leaf and node caches, and the functions that create, load, save, evict and
  divide pages (\<open>vlleafnew\<close>, \<open>vlleafload\<close>, \<open>vlleafsave\<close>, \<open>vlleafcacheout\<close>,
  \<open>vlleafdivide\<close>, \<open>vlnodenew\<close>, \<open>vlnodeload\<close>, \<open>vlnodesave\<close>, \<open>vlnodecacheout\<close>,
  \<open>vlcacheadjust\<close>, \<open>vlsearchleaf\<close>).

  The backing store is Depot (depot.c), which is not among the sources: it is
  modelled from the spec as a record store keyed by the page id (the C key is the
  four bytes of the \<open>int\<close>), with \<open>dpput\<close> (overwrite), \<open>dpget\<close> and the record
  count, and it never fails; \<open>dpsetalign\<close>, \<open>dpsync\<close> and \<open>dpmemsync\<close> only tune
  or flush the file and leave the records as they are. \<open>dpecode\<close>, the last error
  code, is a field of the state. Compression needs the zlib hooks of QDBM's
  configuration, which are not part of the sources; pages are written in the
  plain format.

  A cached page is a record of the cache map, and the C functions mutate it through
  a pointer into the map. The model writes the new value of the page back into the
  map at the same position (\<open>leaf_set\<close>, \<open>node_set\<close>), which is what the mutation
  does: pointers into the map stay valid because no function here evicts a page
  while another holds a pointer to it. Functions that may meet a corrupt page run
  in the option monad, \<open>None\<close> being a load that never returns.
\<close>

section \<open>The backing store (from the spec)\<close>

datatype dpecode = DP_ENOERR | DP_EMODE | DP_EBROKEN | DP_EKEEP | DP_ENOITEM | DP_EMISC

record depot =
  dp_recs :: "(int \<times> bytes) list"
  dp_flags :: int

definition dpget :: "depot \<Rightarrow> int \<Rightarrow> bytes option" where
  "dpget dp k = map_of (dp_recs dp) k"

definition dpput :: "depot \<Rightarrow> int \<Rightarrow> bytes \<Rightarrow> depot" where
  "dpput dp k v = dp\<lparr>dp_recs := AList.update k v (dp_recs dp)\<rparr>"

definition dprnum :: "depot \<Rightarrow> nat" where
  "dprnum dp = length (dp_recs dp)"

section \<open>The handle\<close>

record villa =
  depot :: depot
  vcmp :: cmpfn
  wmode :: bool
  zmode :: bool
  root :: int
  vlast :: int
  lnum :: int
  nnum :: int
  rnum :: int
  leafc :: "(int, vlleaf) cbmap"
  nodec :: "(int, vlnode) cbmap"
  curleaf :: int
  curknum :: int
  curvnum :: int
  leafrecmax :: int
  nodeidxmax :: int
  leafcnum :: int
  nodecnum :: int
  avglsiz :: int
  avgnsiz :: int
  tran :: bool
  rbroot :: int
  rblast :: int
  rblnum :: int
  rbnnum :: int
  rbrnum :: int
  ecode :: dpecode

definition VL_CACHEOUT :: nat where "VL_CACHEOUT = 8"

text \<open>Writing a mutated page back into its cache record, in place.\<close>

definition cache_set :: "('k, 'v) cbmap \<Rightarrow> 'k \<Rightarrow> 'v \<Rightarrow> ('k, 'v) cbmap" where
  "cache_set m k v = map (\<lambda>(k', v'). if k' = k then (k', v) else (k', v')) m"

definition leaf_set :: "villa \<Rightarrow> vlleaf \<Rightarrow> villa" where
  "leaf_set st leaf = st\<lparr>leafc := cache_set (leafc st) (leaf_id leaf) leaf\<rparr>"

definition node_set :: "villa \<Rightarrow> vlnode \<Rightarrow> villa" where
  "node_set st node = st\<lparr>nodec := cache_set (nodec st) (node_id node) node\<rparr>"

section \<open>Leaves\<close>

definition vlleafnew :: "villa \<Rightarrow> int \<Rightarrow> int \<Rightarrow> villa \<times> vlleaf" where
  "vlleafnew st prev nxt =
     (let lf = \<lparr>leaf_id = lnum st + VL_LEAFIDMIN, leaf_dirty = True, recs = [],
                leaf_prev = prev, leaf_next = nxt\<rparr>
      in (st\<lparr>lnum := lnum st + 1, leafc := snd (cbmapput (leafc st) (leaf_id lf) lf True)\<rparr>, lf))"

text \<open>\<open>vlleafsave\<close> on the plain branch: write the image, update the running average
  of the page size, and mark the cached leaf clean.\<close>

definition vlleafsave :: "villa \<Rightarrow> vlleaf \<Rightarrow> villa" where
  "vlleafsave st leaf =
     (let buf = leaf_image leaf;
          st1 = st\<lparr>avglsiz := (avglsiz st * 9 + int (length buf)) div 10,
                   depot := dpput (depot st) (leaf_id leaf) buf\<rparr>
      in leaf_set st1 (leaf\<lparr>leaf_dirty := False\<rparr>))"

definition vlleafcacheout :: "villa \<Rightarrow> int \<Rightarrow> villa \<times> bool" where
  "vlleafcacheout st lid =
     (case cbmapget (leafc st) lid of
        None \<Rightarrow> (st, False)
      | Some leaf \<Rightarrow>
          (let st1 = (if leaf_dirty leaf then vlleafsave st leaf else st)
           in (st1\<lparr>leafc := snd (cbmapout (leafc st1) lid)\<rparr>, True)))"

definition vlleafload :: "villa \<Rightarrow> int \<Rightarrow> (villa \<times> vlleaf option) option" where
  "vlleafload st lid =
     (case cbmapget (leafc st) lid of
        Some leaf \<Rightarrow> Some (st\<lparr>leafc := snd (cbmapmove (leafc st) lid False)\<rparr>, Some leaf)
      | None \<Rightarrow>
          (case dpget (depot st) lid of
             None \<Rightarrow> Some (st\<lparr>ecode := DP_EBROKEN\<rparr>, None)
           | Some buf \<Rightarrow>
               map_option (\<lambda>leaf. (st\<lparr>leafc := snd (cbmapput (leafc st) lid leaf True)\<rparr>, Some leaf))
                 (vlleafload_image lid buf)))"

text \<open>\<open>vlleafdivide\<close>: a new leaf after \<open>leaf\<close> takes the records from the middle on;
  the old successor, if any, is loaded and linked back to the new leaf. The result
  is the two leaves as they are now, or \<open>None\<close> when the successor cannot be loaded.\<close>

definition vlleafdivide :: "villa \<Rightarrow> vlleaf \<Rightarrow> (villa \<times> (vlleaf \<times> vlleaf) option) option" where
  "vlleafdivide st leaf =
     (let mid = length (recs leaf) div 2;
          (st1, nl) = vlleafnew st (leaf_id leaf) (leaf_next leaf)
      in do {
           (st2, ok) \<leftarrow>
             (if leaf_next nl \<noteq> -1 then
                do {
                  (s, r) \<leftarrow> vlleafload st1 (leaf_next nl);
                  (case r of
                     None \<Rightarrow> Some (s, False)
                   | Some nx \<Rightarrow> Some (leaf_set s (nx\<lparr>leaf_prev := leaf_id nl, leaf_dirty := True\<rparr>), True))
                }
              else Some (st1, True));
           (if \<not> ok then Some (st2, None)
            else
              (let leaf' = leaf\<lparr>leaf_next := leaf_id nl, leaf_dirty := True, recs := take mid (recs leaf)\<rparr>;
                   nl' = nl\<lparr>recs := drop mid (recs leaf)\<rparr>
               in Some (leaf_set (leaf_set st2 leaf') nl', Some (leaf', nl'))))
         })"

section \<open>Nodes\<close>

definition vlnodenew :: "villa \<Rightarrow> int \<Rightarrow> villa \<times> vlnode" where
  "vlnodenew st hr =
     (let nd = \<lparr>node_id = nnum st + VL_NODEIDMIN, node_dirty = True, heir = hr, idxs = []\<rparr>
      in (st\<lparr>nnum := nnum st + 1, nodec := snd (cbmapput (nodec st) (node_id nd) nd True)\<rparr>, nd))"

definition vlnodesave :: "villa \<Rightarrow> vlnode \<Rightarrow> villa" where
  "vlnodesave st node =
     (let buf = node_image node;
          st1 = st\<lparr>avgnsiz := (avgnsiz st * 9 + int (length buf)) div 10,
                   depot := dpput (depot st) (node_id node) buf\<rparr>
      in node_set st1 (node\<lparr>node_dirty := False\<rparr>))"

definition vlnodecacheout :: "villa \<Rightarrow> int \<Rightarrow> villa \<times> bool" where
  "vlnodecacheout st nid =
     (case cbmapget (nodec st) nid of
        None \<Rightarrow> (st, False)
      | Some node \<Rightarrow>
          (let st1 = (if node_dirty node then vlnodesave st node else st)
           in (st1\<lparr>nodec := snd (cbmapout (nodec st1) nid)\<rparr>, True)))"

text \<open>A missing record makes \<open>dpget\<close> set \<open>DP_ENOITEM\<close>; a negative heir gives
  \<open>NULL\<close> without an error code of its own.\<close>

definition vlnodeload :: "villa \<Rightarrow> int \<Rightarrow> (villa \<times> vlnode option) option" where
  "vlnodeload st nid =
     (case cbmapget (nodec st) nid of
        Some node \<Rightarrow> Some (st\<lparr>nodec := snd (cbmapmove (nodec st) nid False)\<rparr>, Some node)
      | None \<Rightarrow>
          (case dpget (depot st) nid of
             None \<Rightarrow> Some (st\<lparr>ecode := DP_ENOITEM\<rparr>, None)
           | Some buf \<Rightarrow>
               (case vlnodeload_image nid buf of
                  None \<Rightarrow> None
                | Some None \<Rightarrow> Some (st, None)
                | Some (Some node) \<Rightarrow>
                    Some (st\<lparr>nodec := snd (cbmapput (nodec st) nid node True)\<rparr>, Some node))))"

section \<open>The cache policy: \<open>vlcacheadjust\<close>\<close>

text \<open>When a cache holds more pages than its limit, the first \<open>VL_CACHEOUT\<close> pages of
  its order (the least recently loaded) are evicted. The iteration removes only the
  page it has just returned, so it visits the keys as they were at its start.\<close>

definition evict_leaves :: "villa \<Rightarrow> int list \<Rightarrow> villa \<times> bool" where
  "evict_leaves st ids =
     fold (\<lambda>pid (s, err). (case vlleafcacheout s pid of (s', ok) \<Rightarrow> (s', err \<or> \<not> ok))) ids (st, False)"

definition evict_nodes :: "villa \<Rightarrow> int list \<Rightarrow> villa \<times> bool" where
  "evict_nodes st ids =
     fold (\<lambda>pid (s, err). (case vlnodecacheout s pid of (s', ok) \<Rightarrow> (s', err \<or> \<not> ok))) ids (st, False)"

definition vlcacheadjust :: "villa \<Rightarrow> villa \<times> bool" where
  "vlcacheadjust st =
     (let (st1, e1) = (if leafcnum st < int (cbmaprnum (leafc st))
                       then evict_leaves st (take VL_CACHEOUT (cbmapkeys (leafc st))) else (st, False));
          (st2, e2) = (if nodecnum st1 < int (cbmaprnum (nodec st1))
                       then evict_nodes st1 (take VL_CACHEOUT (cbmapkeys (nodec st1))) else (st1, False))
      in (st2, \<not> (e1 \<or> e2)))"

section \<open>Descent: \<open>vlsearchleaf\<close>\<close>

text \<open>From a page id, while it is a node id: load the node, record it in the path
  \<open>hist\<close>, and route the key through it. A node that cannot be loaded or has no
  index is a broken database (\<open>-1\<close>). A cycle of nodes makes the loop run forever,
  hence the option monad.\<close>

partial_function (option) searchleaf_loop ::
  "villa \<Rightarrow> bytes \<Rightarrow> int \<Rightarrow> int list \<Rightarrow> (villa \<times> int \<times> int list) option" where
  "searchleaf_loop st k pid hist =
     (if VL_NODEIDMIN \<le> pid then
        do {
          (st1, r) \<leftarrow> vlnodeload st pid;
          (case r of
             None \<Rightarrow> Some (st1\<lparr>ecode := DP_EBROKEN\<rparr>, -1, hist)
           | Some node \<Rightarrow>
               (if idxs node = [] then Some (st1\<lparr>ecode := DP_EBROKEN\<rparr>, -1, hist)
                else searchleaf_loop st1 k (node_route (vcmp st1) k node) (hist @ [node_id node])))
        }
      else Some (st, pid, hist))"

declare searchleaf_loop.simps [code]

definition vlsearchleaf :: "villa \<Rightarrow> bytes \<Rightarrow> (villa \<times> int \<times> int list) option" where
  "vlsearchleaf st k = searchleaf_loop st k (root st) []"

end
