(* ===== verification/Villa_Ops.thy ===== *)
theory Villa_Ops
  imports Villa_Pages
begin

text \<open>
  The record operations of villa.c: \<open>vlput\<close> with the split propagation, \<open>vlout\<close>,
  \<open>vlget\<close>, \<open>vlvnum\<close>, \<open>vlputlist\<close>, \<open>vloutlist\<close>, \<open>vlgetlist\<close> and \<open>vlgetcat\<close>. Each
  takes the handle and returns the new handle and the C result (\<open>TRUE\<close>/\<open>FALSE\<close>, a
  value or \<open>NULL\<close>); the option around it is termination of the page loads. Keys
  and values are byte lists; the C convention that a negative size means
  \<open>strlen\<close> is the caller's and is not modelled here.
\<close>

section \<open>Splitting upwards\<close>

text \<open>The \<open>while(TRUE)\<close> loop of \<open>vlput\<close> after a leaf split. \<open>hr\<close> and \<open>pid\<close> are the
  page that was split and its new right sibling, \<open>key\<close> the separator to insert,
  and the path is the recorded \<open>hist\<close>, deepest node first. With the path exhausted
  a new root is made. A node is split when it has more than \<open>nodeidxmax\<close> indexes
  and their number is odd: the middle index's child becomes the heir of the new
  node, the indexes after it move there, and the middle key goes up.\<close>

fun split_up :: "villa \<Rightarrow> int \<Rightarrow> int \<Rightarrow> bytes \<Rightarrow> int list \<Rightarrow> (villa \<times> bool) option" where
  "split_up st hr pid key [] =
     (case vlnodenew st hr of
        (st1, nd) \<Rightarrow>
          (let nd' = vlnodeaddidx (vcmp st1) True pid key nd
           in Some ((node_set st1 nd')\<lparr>root := node_id nd'\<rparr>, True)))"
| "split_up st hr pid key (parent # path) =
     do {
       (st1, r) \<leftarrow> vlnodeload st parent;
       (case r of
          None \<Rightarrow> Some (st1, False)
        | Some node \<Rightarrow>
            (let node1 = vlnodeaddidx (vcmp st1) False pid key node;
                 st2 = node_set st1 node1;
                 ln = length (idxs node1)
             in if int ln \<le> nodeidxmax st2 \<or> even ln then Some (st2, True)
                else
                  (let mid = ln div 2; ix = idxs node1 ! mid
                   in (case vlnodenew st2 (idx_pid ix) of
                         (st3, nn) \<Rightarrow>
                           (let nn' = fold (\<lambda>x n. vlnodeaddidx (vcmp st3) True (idx_pid x) (idx_key x) n)
                                        (drop (mid + 1) (idxs node1)) nn;
                                node2 = node1\<lparr>idxs := take (ln - (mid + 1)) (idxs node1), node_dirty := True\<rparr>
                            in split_up (node_set (node_set st3 nn') node2) (node_id node1) (node_id nn)
                                 (idx_key ix) path)))))
     }"

section \<open>Storing and deleting\<close>

definition cursor_reset :: "villa \<Rightarrow> villa" where
  "cursor_reset st = st\<lparr>curleaf := -1, curknum := -1, curvnum := -1\<rparr>"

text \<open>The cache adjustment that ends every operation outside a transaction.\<close>

definition adjust_if_idle :: "villa \<Rightarrow> villa \<times> bool" where
  "adjust_if_idle st = (if \<not> tran st then vlcacheadjust st else (st, True))"

text \<open>The split after an insertion: the leaf is divided when it holds more than
  \<open>leafrecmax\<close> records and their number is even, and the new leaf's first key is
  propagated up the recorded path.\<close>

definition put_split :: "villa \<Rightarrow> vlleaf \<Rightarrow> int list \<Rightarrow> (villa \<times> bool) option" where
  "put_split st leaf hist =
     (let n = length (recs leaf) in
      if leafrecmax st < int n \<and> even n then
        do {
          (st1, d) \<leftarrow> vlleafdivide st leaf;
          (case d of
             None \<Rightarrow> Some (st1, False)
           | Some (leaf2, nl) \<Rightarrow>
               (let st2 = (if leaf_id leaf2 = vlast st1 then st1\<lparr>vlast := leaf_id nl\<rparr> else st1)
                in split_up st2 (leaf_id leaf2) (leaf_id nl) (rec_key (hd (recs nl))) (rev hist)))
        }
      else Some (st, True))"

definition vlput :: "villa \<Rightarrow> bytes \<Rightarrow> bytes \<Rightarrow> dmode \<Rightarrow> (villa \<times> bool) option" where
  "vlput st0 k v dm =
     (let st = cursor_reset st0 in
      if \<not> wmode st then Some (st\<lparr>ecode := DP_EMODE\<rparr>, False)
      else do {
        (st1, pid, hist) \<leftarrow> vlsearchleaf st k;
        (if pid = -1 then Some (st1, False)
         else do {
           (st2, r) \<leftarrow> vlleafload st1 pid;
           (case r of
              None \<Rightarrow> Some (st2, False)
            | Some leaf \<Rightarrow>
                (case vlleafaddrec (vcmp st2) dm k v (rnum st2) leaf of
                   None \<Rightarrow> Some (st2\<lparr>ecode := DP_EKEEP\<rparr>, False)
                 | Some (rn, leaf1) \<Rightarrow>
                     do {
                       (st4, ok) \<leftarrow> put_split (leaf_set (st2\<lparr>rnum := rn\<rparr>) leaf1) leaf1 hist;
                       (if \<not> ok then Some (st4, False) else Some (adjust_if_idle st4))
                     }))
         })
      })"

text \<open>\<open>vlout\<close> removes the first value of the key: the next duplicate takes its place,
  or the record goes when it has no other value.\<close>

definition out_rec :: "vlrec list \<Rightarrow> nat \<Rightarrow> vlrec list" where
  "out_rec rs i =
     (let rc = rs ! i
      in if rec_rest rc \<noteq> [] then rs[i := rc\<lparr>rec_first := hd (rec_rest rc), rec_rest := tl (rec_rest rc)\<rparr>]
         else take i rs @ drop (Suc i) rs)"

definition vlout :: "villa \<Rightarrow> bytes \<Rightarrow> (villa \<times> bool) option" where
  "vlout st0 k =
     (let st = cursor_reset st0 in
      if \<not> wmode st then Some (st\<lparr>ecode := DP_EMODE\<rparr>, False)
      else do {
        (st1, pid, hist) \<leftarrow> vlsearchleaf st k;
        (if pid = -1 then Some (st1, False)
         else do {
           (st2, r) \<leftarrow> vlleafload st1 pid;
           (case r of
              None \<Rightarrow> Some (st2, False)
            | Some leaf \<Rightarrow>
                (case vlrecsearch (vcmp st2) leaf k of
                   (None, ri) \<Rightarrow> Some (st2\<lparr>ecode := DP_ENOITEM\<rparr>, False)
                 | (Some rc, ri) \<Rightarrow>
                     Some (adjust_if_idle
                       (leaf_set (st2\<lparr>rnum := rnum st2 - 1\<rparr>)
                          (leaf\<lparr>recs := out_rec (recs leaf) (nat ri), leaf_dirty := True\<rparr>)))))
         })
      })"

section \<open>Reading\<close>

text \<open>The record of a key, found through the tree, or \<open>NULL\<close> with the error code set;
  the shared front part of \<open>vlget\<close>, \<open>vlvnum\<close>, \<open>vlgetlist\<close> and \<open>vlgetcat\<close>.\<close>

definition find_rec :: "villa \<Rightarrow> bytes \<Rightarrow> (villa \<times> vlrec option) option" where
  "find_rec st k =
     do {
       (st1, pid, hist) \<leftarrow> vlsearchleaf st k;
       (if pid = -1 then Some (st1, None)
        else do {
          (st2, r) \<leftarrow> vlleafload st1 pid;
          (case r of
             None \<Rightarrow> Some (st2, None)
           | Some leaf \<Rightarrow>
               (case fst (vlrecsearch (vcmp st2) leaf k) of
                  None \<Rightarrow> Some (st2\<lparr>ecode := DP_ENOITEM\<rparr>, None)
                | Some rc \<Rightarrow> Some (st2, Some rc)))
        })
     }"

text \<open>The record's values, first value first, and a result that needs the cache
  adjustment to succeed.\<close>

definition rec_vals :: "vlrec \<Rightarrow> bytes list" where
  "rec_vals rc = rec_first rc # rec_rest rc"

definition read_result :: "villa \<Rightarrow> 'a \<Rightarrow> villa \<times> 'a option" where
  "read_result st x = (case adjust_if_idle st of (st', ok) \<Rightarrow> (st', if ok then Some x else None))"

definition vlget :: "villa \<Rightarrow> bytes \<Rightarrow> (villa \<times> bytes option) option" where
  "vlget st k =
     do {
       (st1, r) \<leftarrow> find_rec st k;
       (case r of None \<Rightarrow> Some (st1, None) | Some rc \<Rightarrow> Some (read_result st1 (rec_first rc)))
     }"

definition vlvnum :: "villa \<Rightarrow> bytes \<Rightarrow> (villa \<times> int) option" where
  "vlvnum st k =
     do {
       (st1, r) \<leftarrow> find_rec st k;
       (case r of
          None \<Rightarrow> Some (st1, 0)
        | Some rc \<Rightarrow>
            (case adjust_if_idle st1 of
               (st2, ok) \<Rightarrow> Some (st2, if ok then 1 + int (length (rec_rest rc)) else 0)))
     }"

definition vlgetlist :: "villa \<Rightarrow> bytes \<Rightarrow> (villa \<times> bytes list option) option" where
  "vlgetlist st k =
     do {
       (st1, r) \<leftarrow> find_rec st k;
       (case r of None \<Rightarrow> Some (st1, None) | Some rc \<Rightarrow> Some (read_result st1 (rec_vals rc)))
     }"

definition vlgetcat :: "villa \<Rightarrow> bytes \<Rightarrow> (villa \<times> bytes option) option" where
  "vlgetcat st k =
     do {
       (st1, r) \<leftarrow> find_rec st k;
       (case r of None \<Rightarrow> Some (st1, None) | Some rc \<Rightarrow> Some (read_result st1 (concat (rec_vals rc))))
     }"

section \<open>Lists of values\<close>

fun putlist_loop :: "villa \<Rightarrow> bytes \<Rightarrow> bytes list \<Rightarrow> (villa \<times> bool) option" where
  "putlist_loop st k [] = Some (st, True)"
| "putlist_loop st k (v # vs) =
     do { (st1, ok) \<leftarrow> vlput st k v VL_DDUP; if ok then putlist_loop st1 k vs else Some (st1, False) }"

definition vlputlist :: "villa \<Rightarrow> bytes \<Rightarrow> bytes list \<Rightarrow> (villa \<times> bool) option" where
  "vlputlist st k vals =
     (if \<not> wmode st then Some (st\<lparr>ecode := DP_EMODE\<rparr>, False)
      else if vals = [] then Some (st\<lparr>ecode := DP_EMISC\<rparr>, False)
      else putlist_loop st k vals)"

fun outlist_loop :: "villa \<Rightarrow> bytes \<Rightarrow> nat \<Rightarrow> (villa \<times> bool) option" where
  "outlist_loop st k 0 = Some (st, True)"
| "outlist_loop st k (Suc n) =
     do { (st1, ok) \<leftarrow> vlout st k; if ok then outlist_loop st1 k n else Some (st1, False) }"

text \<open>On a reader handle \<open>vloutlist\<close> reports \<open>DP_EMISC\<close>, where the other writing
  functions report \<open>DP_EMODE\<close>.\<close>

definition vloutlist :: "villa \<Rightarrow> bytes \<Rightarrow> (villa \<times> bool) option" where
  "vloutlist st k =
     (if \<not> wmode st then Some (st\<lparr>ecode := DP_EMISC\<rparr>, False)
      else do {
        (st1, n) \<leftarrow> vlvnum st k;
        (if n < 1 then Some (st1, False) else outlist_loop st1 k (nat n))
      })"

end
