(* ===== verification/Villa_Cursor.thy ===== *)
theory Villa_Cursor
  imports Villa_Ops
begin

text \<open>
  The cursor of villa.c (\<open>vlcurfirst\<close>, \<open>vlcurlast\<close>, \<open>vlcurprev\<close>, \<open>vlcurnext\<close>,
  \<open>vlcurjump\<close>, \<open>vlcurkey\<close>, \<open>vlcurval\<close>). The position is the leaf id \<open>curleaf\<close>
  (\<open>-1\<close> when the cursor is off), the record index \<open>curknum\<close> and the value index
  \<open>curvnum\<close> (0 for the first value, \<open>i\<close> for the \<open>i\<close>-th further value). Steps across
  leaves follow the leaf links and skip empty leaves; a cycle of empty leaves would
  make that loop run forever, so it is a partial function.
\<close>

datatype jmode = VL_JFORWARD | VL_JBACKWARD

section \<open>Skipping empty leaves\<close>

text \<open>The \<open>while(CB_LISTNUM(leaf->recs) < 1)\<close> loops: move to the next (\<open>fwd\<close>) or
  previous leaf, resetting the indexes to 0 when \<open>reset\<close> is set, until a leaf with a
  record is loaded. The result is the loaded leaf, or \<open>None\<close> when the links end
  (\<open>DP_ENOITEM\<close>) or a leaf cannot be loaded (the cursor goes off).\<close>

partial_function (option) skip_empty ::
  "bool \<Rightarrow> bool \<Rightarrow> villa \<Rightarrow> vlleaf \<Rightarrow> (villa \<times> vlleaf option) option" where
  "skip_empty fwd reset st leaf =
     (if recs leaf = [] then
        (let st1 = st\<lparr>curleaf := (if fwd then leaf_next leaf else leaf_prev leaf)\<rparr>;
             st2 = (if reset then st1\<lparr>curknum := 0, curvnum := 0\<rparr> else st1)
         in if curleaf st2 = -1 then Some (st2\<lparr>ecode := DP_ENOITEM\<rparr>, None)
            else do {
              (st3, r) \<leftarrow> vlleafload st2 (curleaf st2);
              (case r of
                 None \<Rightarrow> Some (st3\<lparr>curleaf := -1\<rparr>, None)
               | Some lf \<Rightarrow> skip_empty fwd reset st3 lf)
            })
      else Some (st, Some leaf))"

declare skip_empty.simps [code]

text \<open>Load the leaf under the cursor; on failure the cursor goes off.\<close>

definition cur_load :: "villa \<Rightarrow> (villa \<times> vlleaf option) option" where
  "cur_load st =
     do {
       (st1, r) \<leftarrow> vlleafload st (curleaf st);
       (case r of None \<Rightarrow> Some (st1\<lparr>curleaf := -1\<rparr>, None) | Some lf \<Rightarrow> Some (st1, Some lf))
     }"

definition last_pos :: "villa \<Rightarrow> vlleaf \<Rightarrow> villa" where
  "last_pos st leaf =
     (let kn = length (recs leaf) - 1
      in st\<lparr>curknum := int kn, curvnum := int (length (rec_rest (recs leaf ! kn)))\<rparr>)"

section \<open>Positioning\<close>

definition vlcurfirst :: "villa \<Rightarrow> (villa \<times> bool) option" where
  "vlcurfirst st0 =
     (let st = st0\<lparr>curleaf := VL_LEAFIDMIN, curknum := 0, curvnum := 0\<rparr> in
      do {
        (st1, r) \<leftarrow> cur_load st;
        (case r of
           None \<Rightarrow> Some (st1, False)
         | Some leaf \<Rightarrow> do { (st2, r2) \<leftarrow> skip_empty True True st1 leaf; Some (st2, r2 \<noteq> None) })
      })"

definition vlcurlast :: "villa \<Rightarrow> (villa \<times> bool) option" where
  "vlcurlast st0 =
     (let st = st0\<lparr>curleaf := vlast st0\<rparr> in
      do {
        (st1, r) \<leftarrow> cur_load st;
        (case r of
           None \<Rightarrow> Some (st1, False)
         | Some leaf \<Rightarrow>
             do {
               (st2, r2) \<leftarrow> skip_empty False False st1 leaf;
               (case r2 of None \<Rightarrow> Some (st2, False) | Some lf \<Rightarrow> Some (last_pos st2 lf, True))
             })
      })"

section \<open>Stepping\<close>

definition vlcurprev :: "villa \<Rightarrow> (villa \<times> bool) option" where
  "vlcurprev st =
     (if curleaf st = -1 then Some (st\<lparr>ecode := DP_ENOITEM\<rparr>, False)
      else do {
        (st1, r) \<leftarrow> cur_load st;
        (case r of
           None \<Rightarrow> Some (st1, False)
         | Some leaf \<Rightarrow>
             (if recs leaf = [] then Some (st1\<lparr>curleaf := -1\<rparr>, False)
              else
                (let st2 = st1\<lparr>curvnum := curvnum st1 - 1\<rparr> in
                 if 0 \<le> curvnum st2 then Some (adjust_if_idle st2)
                 else
                   (let st3 = st2\<lparr>curknum := curknum st2 - 1\<rparr> in
                    if 0 \<le> curknum st3 then
                      Some (adjust_if_idle
                        (st3\<lparr>curvnum := int (length (rec_rest (recs leaf ! nat (curknum st3))))\<rparr>))
                    else
                      (let st4 = st3\<lparr>curleaf := leaf_prev leaf\<rparr> in
                       if curleaf st4 = -1 then Some (st4\<lparr>ecode := DP_ENOITEM\<rparr>, False)
                       else do {
                         (st5, r5) \<leftarrow> cur_load st4;
                         (case r5 of
                            None \<Rightarrow> Some (st5, False)
                          | Some lf \<Rightarrow>
                              do {
                                (st6, r6) \<leftarrow> skip_empty False False st5 lf;
                                (case r6 of
                                   None \<Rightarrow> Some (st6, False)
                                 | Some lf' \<Rightarrow> Some (adjust_if_idle (last_pos st6 lf')))
                              })
                       })))))
      })"

definition vlcurnext :: "villa \<Rightarrow> (villa \<times> bool) option" where
  "vlcurnext st =
     (if curleaf st = -1 then Some (st\<lparr>ecode := DP_ENOITEM\<rparr>, False)
      else do {
        (st1, r) \<leftarrow> cur_load st;
        (case r of
           None \<Rightarrow> Some (st1, False)
         | Some leaf \<Rightarrow>
             (if recs leaf = [] then Some (st1\<lparr>curleaf := -1\<rparr>, False)
              else
                (let rc = recs leaf ! nat (curknum st1);
                     st2 = st1\<lparr>curvnum := curvnum st1 + 1\<rparr>;
                     st3 = (if int (length (rec_rest rc)) < curvnum st2
                            then st2\<lparr>curknum := curknum st2 + 1, curvnum := 0\<rparr> else st2)
                 in if int (length (recs leaf)) \<le> curknum st3 then
                      (let st4 = st3\<lparr>curleaf := leaf_next leaf, curknum := 0, curvnum := 0\<rparr> in
                       if curleaf st4 = -1 then Some (st4\<lparr>ecode := DP_ENOITEM\<rparr>, False)
                       else do {
                         (st5, r5) \<leftarrow> cur_load st4;
                         (case r5 of
                            None \<Rightarrow> Some (st5, False)
                          | Some lf \<Rightarrow>
                              do {
                                (st6, r6) \<leftarrow> skip_empty True True st5 lf;
                                (case r6 of None \<Rightarrow> Some (st6, False) | Some lf' \<Rightarrow> Some (adjust_if_idle st6))
                              })
                       })
                    else Some (adjust_if_idle st3))))
      })"

section \<open>Jumping to a key\<close>

definition vlcurjump :: "villa \<Rightarrow> bytes \<Rightarrow> jmode \<Rightarrow> (villa \<times> bool) option" where
  "vlcurjump st k jm =
     do {
       (st1, pid, hist) \<leftarrow> vlsearchleaf st k;
       (if pid = -1 then Some (st1\<lparr>curleaf := -1\<rparr>, False)
        else do {
          (st2, r) \<leftarrow> vlleafload st1 pid;
          (case r of
             None \<Rightarrow> Some (st2\<lparr>curleaf := -1\<rparr>, False)
           | Some leaf0 \<Rightarrow>
               do {
                 (st3, r3) \<leftarrow> skip_empty (jm = VL_JFORWARD) False st2 leaf0;
                 (case r3 of
                    None \<Rightarrow> Some (st3, False)
                  | Some leaf \<Rightarrow>
                      (case vlrecsearch (vcmp st3) leaf k of
                         (None, ix) \<Rightarrow>
                           (let index = (if int (length (recs leaf)) \<le> ix then ix - 1 else ix);
                                rc = recs leaf ! nat index
                            in if jm = VL_JFORWARD then
                                 (let st4 = st3\<lparr>curleaf := leaf_id leaf, curknum := index, curvnum := 0\<rparr>
                                  in if vcmp st4 k (rec_key rc) < 0 then Some (st4, True)
                                     else vlcurnext (st4\<lparr>curvnum := int (length (rec_rest rc))\<rparr>))
                               else
                                 (let st4 = st3\<lparr>curleaf := leaf_id leaf, curknum := index,
                                                curvnum := int (length (rec_rest rc))\<rparr>
                                  in if 0 < vcmp st4 k (rec_key rc) then Some (st4, True)
                                     else vlcurprev (st4\<lparr>curvnum := 0\<rparr>)))
                       | (Some rc, ix) \<Rightarrow>
                           Some (st3\<lparr>curleaf := pid, curknum := ix,
                                     curvnum := (if jm = VL_JFORWARD then 0 else int (length (rec_rest rc)))\<rparr>, True)))
               })
        })
     }"

section \<open>Reading at the cursor\<close>

definition vlcurkey :: "villa \<Rightarrow> (villa \<times> bytes option) option" where
  "vlcurkey st =
     (if curleaf st = -1 then Some (st\<lparr>ecode := DP_ENOITEM\<rparr>, None)
      else do {
        (st1, r) \<leftarrow> cur_load st;
        (case r of
           None \<Rightarrow> Some (st1, None)
         | Some leaf \<Rightarrow> Some (st1, Some (rec_key (recs leaf ! nat (curknum st1)))))
      })"

definition vlcurval :: "villa \<Rightarrow> (villa \<times> bytes option) option" where
  "vlcurval st =
     (if curleaf st = -1 then Some (st\<lparr>ecode := DP_ENOITEM\<rparr>, None)
      else do {
        (st1, r) \<leftarrow> cur_load st;
        (case r of
           None \<Rightarrow> Some (st1, None)
         | Some leaf \<Rightarrow>
             (let rc = recs leaf ! nat (curknum st1)
              in Some (st1, Some (if curvnum st1 < 1 then rec_first rc
                                  else rec_rest rc ! nat (curvnum st1 - 1)))))
      })"

end
