(* ===== verification/Villa_Tran.thy ===== *)
theory Villa_Tran
  imports Villa_Cursor
begin

text \<open>
  The handle's life cycle in villa.c: the metadata records (\<open>vldpputnum\<close>,
  \<open>vldpgetnum\<close>), \<open>vlsettuning\<close>, \<open>vlsync\<close>, the transaction (\<open>vltranbegin\<close>,
  \<open>vltrancommit\<close>, \<open>vltranabort\<close>), \<open>vlclose\<close> and \<open>vlopen\<close>. The file is the
  Depot record store of the handle; \<open>vlopen\<close> takes it as it is after \<open>dpopen\<close> and
  \<open>vlclose\<close> returns it as \<open>dpclose\<close> leaves it. The build modelled has no zlib
  (\<open>_qdbm_deflate\<close> is \<open>NULL\<close>), so the compression flag is never set.
\<close>

unbundle bit_operations_syntax

section \<open>Constants\<close>

definition VL_ROOTKEY :: int where "VL_ROOTKEY = -1"
definition VL_LASTKEY :: int where "VL_LASTKEY = -2"
definition VL_LNUMKEY :: int where "VL_LNUMKEY = -3"
definition VL_NNUMKEY :: int where "VL_NNUMKEY = -4"
definition VL_RNUMKEY :: int where "VL_RNUMKEY = -5"

definition VL_DEFLRECMAX :: int where "VL_DEFLRECMAX = 49"
definition VL_DEFNIDXMAX :: int where "VL_DEFNIDXMAX = 192"
definition VL_DEFLCNUM :: int where "VL_DEFLCNUM = 1024"
definition VL_DEFNCNUM :: int where "VL_DEFNCNUM = 512"
definition VL_INITALIGN :: int where "VL_INITALIGN = 448"

definition VL_OWRITER :: int where "VL_OWRITER = 2"
definition VL_OZCOMP :: int where "VL_OZCOMP = 64"
definition VL_FLISVILLA :: int where "VL_FLISVILLA = 1"
definition VL_FLISZLIB :: int where "VL_FLISZLIB = 2"

section \<open>Metadata records\<close>

text \<open>A number is stored as the four bytes of a C \<open>int\<close>, little-endian, under the
  key of one of the negative sentinels.\<close>

definition int_enc :: "int \<Rightarrow> bytes" where
  "int_enc n = (let w = (word_of_int n :: 32 word) in map (\<lambda>i. ucast (drop_bit (8 * i) w)) [0, 1, 2, 3])"

definition vldpputnum :: "depot \<Rightarrow> int \<Rightarrow> int \<Rightarrow> depot" where
  "vldpputnum dp knum vnum = dpput dp knum (int_enc vnum)"

definition vldpgetnum :: "depot \<Rightarrow> int \<Rightarrow> int option" where
  "vldpgetnum dp knum =
     (case dpget dp knum of
        None \<Rightarrow> None
      | Some buf \<Rightarrow> (if length buf \<noteq> 4 then None else Some (sint (le32 buf))))"

definition put_meta :: "villa \<Rightarrow> villa" where
  "put_meta st =
     st\<lparr>depot := vldpputnum (vldpputnum (vldpputnum (vldpputnum (vldpputnum (depot st)
                   VL_ROOTKEY (root st)) VL_LASTKEY (vlast st)) VL_LNUMKEY (lnum st))
                   VL_NNUMKEY (nnum st)) VL_RNUMKEY (rnum st)\<rparr>"

section \<open>Tuning\<close>

definition vlsettuning :: "villa \<Rightarrow> int \<Rightarrow> int \<Rightarrow> int \<Rightarrow> int \<Rightarrow> villa" where
  "vlsettuning st lrecmax nidxmax lcnum ncnum =
     (let lr0 = (if lrecmax < 1 then VL_DEFLRECMAX else lrecmax);
          lr = (if lr0 < 3 then 3 else lr0);
          ni0 = (if nidxmax < 1 then VL_DEFNIDXMAX else nidxmax);
          ni = (if ni0 < 4 then 4 else ni0);
          lc0 = (if lcnum < 1 then VL_DEFLCNUM else lcnum);
          lc = (if lc0 < int VL_CACHEOUT * 2 then int VL_CACHEOUT * 2 else lc0);
          nc0 = (if ncnum < 1 then VL_DEFNCNUM else ncnum);
          nc = (if nc0 < int VL_CACHEOUT * 2 then int VL_CACHEOUT * 2 else nc0)
      in st\<lparr>leafrecmax := lr, nodeidxmax := ni, leafcnum := lc, nodecnum := nc\<rparr>)"

section \<open>Flushing\<close>

text \<open>The loops of \<open>vltranbegin\<close> and \<open>vltrancommit\<close> that save every dirty cached
  page and leave it in the cache.\<close>

definition save_dirty_leaves :: "villa \<Rightarrow> villa" where
  "save_dirty_leaves st =
     fold (\<lambda>pid s. (case cbmapget (leafc s) pid of
                      None \<Rightarrow> s
                    | Some leaf \<Rightarrow> (if leaf_dirty leaf then vlleafsave s leaf else s)))
       (cbmapkeys (leafc st)) st"

definition save_dirty_nodes :: "villa \<Rightarrow> villa" where
  "save_dirty_nodes st =
     fold (\<lambda>pid s. (case cbmapget (nodec s) pid of
                      None \<Rightarrow> s
                    | Some node \<Rightarrow> (if node_dirty node then vlnodesave s node else s)))
       (cbmapkeys (nodec st)) st"

definition vlsync :: "villa \<Rightarrow> villa \<times> bool" where
  "vlsync st =
     (if \<not> wmode st then (st\<lparr>ecode := DP_EMODE\<rparr>, False)
      else if tran st then (st\<lparr>ecode := DP_EMISC\<rparr>, False)
      else
        (let (st1, e1) = evict_leaves st (cbmapkeys (leafc st));
             (st2, e2) = evict_nodes st1 (cbmapkeys (nodec st1))
         in (put_meta st2, \<not> (e1 \<or> e2))))"

section \<open>Transactions\<close>

definition vltranbegin :: "villa \<Rightarrow> villa \<times> bool" where
  "vltranbegin st =
     (if \<not> wmode st then (st\<lparr>ecode := DP_EMODE\<rparr>, False)
      else if tran st then (st\<lparr>ecode := DP_EMISC\<rparr>, False)
      else
        (let st1 = put_meta (save_dirty_nodes (save_dirty_leaves st))
         in (st1\<lparr>tran := True, rbroot := root st1, rblast := vlast st1, rblnum := lnum st1,
                 rbnnum := nnum st1, rbrnum := rnum st1\<rparr>, True)))"

text \<open>The deferred eviction at the end of a transaction: \<open>vlcacheadjust\<close> while a
  cache is over its limit, stopping at the first failure. With a negative limit and an
  empty cache it would run forever, hence the option monad.\<close>

partial_function (option) adjust_loop :: "villa \<Rightarrow> (villa \<times> bool) option" where
  "adjust_loop st =
     (if leafcnum st < int (cbmaprnum (leafc st)) \<or> nodecnum st < int (cbmaprnum (nodec st)) then
        (case vlcacheadjust st of (st1, ok) \<Rightarrow> if ok then adjust_loop st1 else Some (st1, False))
      else Some (st, True))"

declare adjust_loop.simps [code]

definition vltrancommit :: "villa \<Rightarrow> (villa \<times> bool) option" where
  "vltrancommit st =
     (if \<not> wmode st then Some (st\<lparr>ecode := DP_EMODE\<rparr>, False)
      else if \<not> tran st then Some (st\<lparr>ecode := DP_EMISC\<rparr>, False)
      else
        (let st1 = put_meta (save_dirty_nodes (save_dirty_leaves st))
         in adjust_loop (st1\<lparr>tran := False, rbroot := -1, rblast := -1, rblnum := -1,
                              rbnnum := -1, rbrnum := -1\<rparr>)))"

text \<open>The loops of \<open>vltranabort\<close>: a dirty page is marked clean in place and then
  evicted, so that it is dropped without being written.\<close>

definition discard_leaf :: "int \<Rightarrow> villa \<times> bool \<Rightarrow> villa \<times> bool" where
  "discard_leaf pid se =
     (case se of
        (s, err) \<Rightarrow>
          (case cbmapget (leafc s) pid of
             None \<Rightarrow> (s, True)
           | Some leaf \<Rightarrow>
               (if leaf_dirty leaf then
                  (case vlleafcacheout (s\<lparr>leafc := cache_set (leafc s) pid (leaf\<lparr>leaf_dirty := False\<rparr>)\<rparr>) pid of
                     (s', ok) \<Rightarrow> (s', err \<or> \<not> ok))
                else (s, err))))"

definition discard_leaves :: "villa \<Rightarrow> villa \<times> bool" where
  "discard_leaves st = fold discard_leaf (cbmapkeys (leafc st)) (st, False)"

definition discard_node :: "int \<Rightarrow> villa \<times> bool \<Rightarrow> villa \<times> bool" where
  "discard_node pid se =
     (case se of
        (s, err) \<Rightarrow>
          (case cbmapget (nodec s) pid of
             None \<Rightarrow> (s, True)
           | Some node \<Rightarrow>
               (if node_dirty node then
                  (case vlnodecacheout (s\<lparr>nodec := cache_set (nodec s) pid (node\<lparr>node_dirty := False\<rparr>)\<rparr>) pid of
                     (s', ok) \<Rightarrow> (s', err \<or> \<not> ok))
                else (s, err))))"

definition discard_nodes :: "villa \<Rightarrow> villa \<times> bool" where
  "discard_nodes st = fold discard_node (cbmapkeys (nodec st)) (st, False)"

definition vltranabort :: "villa \<Rightarrow> (villa \<times> bool) option" where
  "vltranabort st =
     (if \<not> wmode st then Some (st\<lparr>ecode := DP_EMODE\<rparr>, False)
      else if \<not> tran st then Some (st\<lparr>ecode := DP_EMISC\<rparr>, False)
      else
        (let (st1, e1) = discard_leaves st;
             (st2, e2) = discard_nodes st1;
             st3 = st2\<lparr>tran := False, root := rbroot st2, vlast := rblast st2, lnum := rblnum st2,
                       nnum := rbnnum st2, rnum := rbrnum st2\<rparr>
         in do {
              (st4, ok) \<leftarrow> adjust_loop st3;
              Some (st4, \<not> (e1 \<or> e2) \<and> ok)
            }))"

section \<open>The operations of an open handle, as data\<close>

text \<open>The calls a client makes on an open handle between \<open>vlopen\<close> and \<open>vlclose\<close>,
  each with its arguments; \<open>vl_step\<close> runs one and keeps the new handle, whatever the
  call returned, as a client that goes on after a failed call does.\<close>

datatype vlop =
    VPut bytes bytes dmode | VOut bytes | VGet bytes | VVnum bytes | VGetlist bytes
  | VGetcat bytes | VPutlist bytes "bytes list" | VOutlist bytes
  | VCurFirst | VCurLast | VCurPrev | VCurNext | VCurJump bytes jmode | VCurKey | VCurVal

fun vl_step :: "villa \<Rightarrow> vlop \<Rightarrow> villa option" where
  "vl_step st (VPut k v dm) = map_option fst (vlput st k v dm)"
| "vl_step st (VOut k) = map_option fst (vlout st k)"
| "vl_step st (VGet k) = map_option fst (vlget st k)"
| "vl_step st (VVnum k) = map_option fst (vlvnum st k)"
| "vl_step st (VGetlist k) = map_option fst (vlgetlist st k)"
| "vl_step st (VGetcat k) = map_option fst (vlgetcat st k)"
| "vl_step st (VPutlist k vs) = map_option fst (vlputlist st k vs)"
| "vl_step st (VOutlist k) = map_option fst (vloutlist st k)"
| "vl_step st VCurFirst = map_option fst (vlcurfirst st)"
| "vl_step st VCurLast = map_option fst (vlcurlast st)"
| "vl_step st VCurPrev = map_option fst (vlcurprev st)"
| "vl_step st VCurNext = map_option fst (vlcurnext st)"
| "vl_step st (VCurJump k jm) = map_option fst (vlcurjump st k jm)"
| "vl_step st VCurKey = map_option fst (vlcurkey st)"
| "vl_step st VCurVal = map_option fst (vlcurval st)"

fun run_ops :: "villa \<Rightarrow> vlop list \<Rightarrow> villa option" where
  "run_ops st [] = Some st"
| "run_ops st (op # ops) = do { st1 \<leftarrow> vl_step st op; run_ops st1 ops }"

section \<open>Closing and opening\<close>

definition vlclose :: "villa \<Rightarrow> (depot \<times> bool) option" where
  "vlclose st0 =
     do {
       (st, ok) \<leftarrow> (if tran st0 then vltranabort st0 else Some (st0, True));
       (case evict_leaves st (cbmapkeys (leafc st)) of
          (st1, e1) \<Rightarrow>
            (case evict_nodes st1 (cbmapkeys (nodec st1)) of
               (st2, e2) \<Rightarrow>
                 (let st3 = (if wmode st2 then put_meta st2 else st2)
                  in Some (depot st3, ok \<and> \<not> (e1 \<or> e2)))))
     }"

text \<open>The metadata of a non-empty file, or \<open>None\<close> when it is not a Villa file or a
  record is missing or out of range (\<open>DP_EBROKEN\<close>).\<close>

definition read_meta :: "depot \<Rightarrow> (int \<times> int \<times> int \<times> int \<times> int) option" where
  "read_meta dp =
     (case (vldpgetnum dp VL_ROOTKEY, vldpgetnum dp VL_LASTKEY, vldpgetnum dp VL_LNUMKEY,
            vldpgetnum dp VL_NNUMKEY, vldpgetnum dp VL_RNUMKEY) of
        (Some r, Some l, Some ln, Some nn, Some rn) \<Rightarrow>
          (if dp_flags dp AND VL_FLISVILLA = 0 \<or> r < VL_LEAFIDMIN \<or> l < VL_LEAFIDMIN \<or>
              ln < 0 \<or> nn < 0 \<or> rn < 0 then None
           else Some (r, l, ln, nn, rn))
      | _ \<Rightarrow> None)"

definition villa_init :: "depot \<Rightarrow> cmpfn \<Rightarrow> bool \<Rightarrow> bool \<Rightarrow> int \<times> int \<times> int \<times> int \<times> int \<Rightarrow> villa" where
  "villa_init dp cmp wm zm meta =
     (case meta of
        (r, l, ln, nn, rn) \<Rightarrow>
          \<lparr>depot = dp, vcmp = cmp, wmode = wm, zmode = zm, root = r, vlast = l, lnum = ln,
           nnum = nn, rnum = rn, leafc = cbmapopen, nodec = cbmapopen,
           curleaf = -1, curknum = -1, curvnum = -1,
           leafrecmax = VL_DEFLRECMAX, nodeidxmax = VL_DEFNIDXMAX,
           leafcnum = VL_DEFLCNUM, nodecnum = VL_DEFNCNUM,
           avglsiz = VL_INITALIGN, avgnsiz = VL_INITALIGN, tran = False,
           rbroot = -1, rblast = -1, rblnum = -1, rbnnum = -1, rbrnum = -1,
           ecode = DP_ENOERR\<rparr>)"

text \<open>\<open>vlopen\<close> on the store \<open>dp\<close> that \<open>dpopen\<close> returned: either the handle, or
  the store as it is left and the error code. A new file gets its first leaf, which
  a transaction begun and aborted at once writes out.\<close>

definition vlopen :: "depot \<Rightarrow> int \<Rightarrow> cmpfn \<Rightarrow> (depot \<times> dpecode + villa) option" where
  "vlopen dp omode cmp =
     (let writer = (omode AND VL_OWRITER \<noteq> 0);
          meta = (if 0 < dprnum dp
                  then map_option (\<lambda>m. (m, dp_flags dp AND VL_FLISZLIB \<noteq> 0)) (read_meta dp)
                  else Some ((-1, -1, 0, 0, 0), writer \<and> omode AND VL_OZCOMP \<noteq> 0))
      in case meta of
           None \<Rightarrow> Some (Inl (dp, DP_EBROKEN))
         | Some (m, zm) \<Rightarrow>
             (let dp1 = (if writer then dp\<lparr>dp_flags := dp_flags dp OR VL_FLISVILLA\<rparr> else dp);
                  st = villa_init dp1 cmp writer zm m
              in if root st \<noteq> -1 then Some (Inr st)
                 else
                   (case vlleafnew st (-1) (-1) of
                      (st1, leaf) \<Rightarrow>
                        (case vltranbegin (st1\<lparr>root := leaf_id leaf, vlast := leaf_id leaf\<rparr>) of
                           (st2, ok2) \<Rightarrow>
                             if \<not> ok2 then
                               do { (dp', _) \<leftarrow> vlclose st2; Some (Inl (dp', ecode st2)) }
                             else do {
                               (st3, ok3) \<leftarrow> vltranabort st2;
                               (if \<not> ok3 then do { (dp', _) \<leftarrow> vlclose st3; Some (Inl (dp', ecode st3)) }
                                else Some (Inr st3))
                             }))))"

section \<open>Range of the stored numbers\<close>

text \<open>The numbers \<open>vldpputnum\<close> stores are C \<open>int\<close>s; the metadata \<open>vlclose\<close> writes
  are read back by \<open>vlopen\<close> when they are in range and pass its checks.\<close>

definition int32 :: "int \<Rightarrow> bool" where
  "int32 n \<longleftrightarrow> - (2 ^ 31) \<le> n \<and> n < 2 ^ 31"

definition meta_ok :: "villa \<Rightarrow> bool" where
  "meta_ok st \<longleftrightarrow>
     int32 (root st) \<and> int32 (vlast st) \<and> int32 (lnum st) \<and> int32 (nnum st) \<and> int32 (rnum st) \<and>
     VL_LEAFIDMIN \<le> root st \<and> VL_LEAFIDMIN \<le> vlast st \<and> 0 \<le> lnum st \<and> 0 \<le> nnum st \<and> 0 \<le> rnum st"

section \<open>Encoding of numbers\<close>

lemma mod_256_split: "(x::int) mod (256 * 2 ^ k) = x mod 256 + 256 * ((x div 256) mod 2 ^ k)"
  by (simp add: zmod_zmult2_eq)

lemma uint_ucast_drop: "uint (ucast (drop_bit n (w :: 32 word)) :: 8 word) = (uint w div 2 ^ n) mod 256"
proof -
  have "uint w mod 4294967296 = uint w"
    using uint_lt2p [of w] by (simp add: mod_pos_pos_trivial)
  then show ?thesis
    by (simp add: unsigned_ucast_eq unsigned_drop_bit_eq) (simp add: take_bit_eq_mod drop_bit_eq_div)
qed

lemma uint_drop_bit_32: "uint (drop_bit k (w :: 32 word)) = uint w div 2 ^ k"
proof -
  have "uint w mod 4294967296 = uint w"
    using uint_lt2p [of w] by (simp add: mod_pos_pos_trivial)
  then show ?thesis
    by (simp add: unsigned_drop_bit_eq) (simp add: take_bit_eq_mod drop_bit_eq_div)
qed

lemma uint_ucast_byte: "uint (ucast (w :: 32 word) :: 8 word) = uint w mod 256"
  using uint_ucast_drop [of 0 w] by simp

lemma bytes4_sum:
  fixes x :: int
  shows "x mod 256 + 256 * (x div 256 mod 256) + 65536 * (x div 65536 mod 256) + 16777216 * (x div 16777216 mod 256) = x mod 2 ^ 32"
proof -
  have d1: "x div 65536 = x div 256 div 256" and d2: "x div 16777216 = x div 256 div 256 div 256"
    by (simp_all add: zdiv_zmult2_eq [symmetric])
  have a: "x mod 2 ^ 32 = x mod 256 + 256 * ((x div 256) mod 2 ^ 24)"
    using mod_256_split [of x 24] by simp
  have b: "(x div 256) mod 2 ^ 24 = x div 256 mod 256 + 256 * ((x div 256 div 256) mod 2 ^ 16)"
    using mod_256_split [of "x div 256" 16] by simp
  have c: "(x div 256 div 256) mod 2 ^ 16 = x div 256 div 256 mod 256 + 256 * ((x div 256 div 256 div 256) mod 2 ^ 8)"
    using mod_256_split [of "x div 256 div 256" 8] by simp
  show ?thesis unfolding a b c d1 d2 by simp
qed

lemma le32_int_enc: "le32 (int_enc n) = word_of_int n"
proof -
  define x where "x = uint (word_of_int n :: 32 word)"
  have m: "x mod 2 ^ 32 = x"
    unfolding x_def using uint_lt2p [of "word_of_int n :: 32 word"] by (simp add: mod_pos_pos_trivial)
  have b0: "uint (int_enc n ! 0) = x mod 256" and b1: "uint (int_enc n ! 1) = x div 256 mod 256"
    and b2: "uint (int_enc n ! 2) = x div 65536 mod 256" and b3: "uint (int_enc n ! 3) = x div 16777216 mod 256"
    by (simp_all add: int_enc_def Let_def uint_drop_bit_32 uint_ucast_byte x_def)
  have "le32 (int_enc n) = word_of_int x"
    unfolding le32_def b0 b1 b2 b3 bytes4_sum m ..
  then show ?thesis
    by (simp add: x_def)
qed

lemma sint_le32_int_enc: "- (2 ^ 31) \<le> n \<Longrightarrow> n < 2 ^ 31 \<Longrightarrow> sint (le32 (int_enc n)) = n"
  by (simp add: le32_int_enc sint_word_of_int_32)

lemma dpget_dpput: "dpget (dpput dp k v) k' = (if k' = k then Some v else dpget dp k')"
  by (simp add: dpget_def dpput_def update_conv')

lemma dp_flags_dpput [simp]: "dp_flags (dpput dp k v) = dp_flags dp"
  by (simp add: dpput_def)

lemma length_int_enc [simp]: "length (int_enc n) = 4"
  by (simp add: int_enc_def Let_def)

lemma dp_flags_vldpputnum [simp]: "dp_flags (vldpputnum dp k v) = dp_flags dp"
  by (simp add: vldpputnum_def)

lemma vldpgetnum_vldpputnum:
  "int32 v \<Longrightarrow> vldpgetnum (vldpputnum dp k v) k' = (if k' = k then Some v else vldpgetnum dp k')"
  by (simp add: vldpgetnum_def vldpputnum_def dpget_dpput int32_def sint_le32_int_enc)

text \<open>C8. The metadata records written at close (\<open>put_meta\<close>) are read back by open
  (\<open>read_meta\<close>): root, last leaf and the three counters come back unchanged, when
  they are C \<open>int\<close>s that pass the checks of \<open>vlopen\<close> and the file carries the Villa
  flag.\<close>

theorem read_meta_put_meta:
  assumes "dp_flags (depot st) AND VL_FLISVILLA \<noteq> 0" and "meta_ok st"
  shows "read_meta (depot (put_meta st)) = Some (root st, vlast st, lnum st, nnum st, rnum st)"
  using assms unfolding meta_ok_def
  by (simp add: read_meta_def put_meta_def vldpgetnum_vldpputnum VL_ROOTKEY_def VL_LASTKEY_def
                VL_LNUMKEY_def VL_NNUMKEY_def VL_RNUMKEY_def)

theorem read_meta_put_meta_witness:
  "dp_flags (depot (villa_init \<lparr>dp_recs = [], dp_flags = 1\<rparr> vllexcompare True False (1, 1, 1, 0, 0))) AND VL_FLISVILLA \<noteq> 0 \<and>
   meta_ok (villa_init \<lparr>dp_recs = [], dp_flags = 1\<rparr> vllexcompare True False (1, 1, 1, 0, 0)) \<and>
   read_meta (depot (put_meta (villa_init \<lparr>dp_recs = [], dp_flags = 1\<rparr> vllexcompare True False (1, 1, 1, 0, 0)))) =
     Some (1, 1, 1, 0, 0)"
proof -
  let ?st = "villa_init \<lparr>dp_recs = [], dp_flags = 1\<rparr> vllexcompare True False (1, 1, 1, 0, 0)"
  have f: "dp_flags (depot ?st) AND VL_FLISVILLA \<noteq> 0"
    by (simp add: villa_init_def VL_FLISVILLA_def)
  have m: "meta_ok ?st"
    by (simp add: villa_init_def meta_ok_def int32_def VL_LEAFIDMIN_def)
  show ?thesis
    using read_meta_put_meta [OF f m] f m by (simp add: villa_init_def)
qed

end
