(* ===== verification/Villa_Examples.thy ===== *)
theory Villa_Examples
  imports Villa_Tran
begin

text \<open>
  Concrete handles and client programs over the villa API, used to run the model on
  the scenarios of the spec and to instantiate the theorems at concrete inputs: an
  empty store, a writer opened on it with the lexical comparator, a client loop that
  stores a list of records, and a cursor scan from the first record.
\<close>

definition empty_depot :: depot where
  "empty_depot = \<lparr>dp_recs = [], dp_flags = 0\<rparr>"

definition open_new :: "villa option" where
  "open_new = (case vlopen empty_depot VL_OWRITER vllexcompare of Some (Inr st) \<Rightarrow> Some st | _ \<Rightarrow> None)"

text \<open>A client that stores the records one after the other and stops at the first
  failed call.\<close>

fun put_all :: "dmode \<Rightarrow> villa \<Rightarrow> (bytes \<times> bytes) list \<Rightarrow> villa option" where
  "put_all dm st [] = Some st"
| "put_all dm st ((k, v) # kvs) =
     do { (st', ok) \<leftarrow> vlput st k v dm; if ok then put_all dm st' kvs else None }"

text \<open>\<open>vlcurkey\<close> and \<open>vlcurnext\<close> in a loop of at most \<open>n\<close> rounds, collecting the
  keys, and the scan that starts with \<open>vlcurfirst\<close> and runs for as many rounds as
  the handle counts records.\<close>

fun cur_walk :: "nat \<Rightarrow> villa \<Rightarrow> bytes list option" where
  "cur_walk 0 st = Some []"
| "cur_walk (Suc n) st =
     do {
       (st1, k) \<leftarrow> vlcurkey st;
       (case k of
          None \<Rightarrow> Some []
        | Some kk \<Rightarrow>
            do {
              (st2, ok) \<leftarrow> vlcurnext st1;
              ks \<leftarrow> (if ok then cur_walk n st2 else Some []);
              Some (kk # ks)
            })
     }"

definition scan_keys :: "villa \<Rightarrow> bytes list option" where
  "scan_keys st = do { (st1, ok) \<leftarrow> vlcurfirst st; if ok then cur_walk (nat (rnum st1)) st1 else Some [] }"

text \<open>The keys \<open>a\<close> to \<open>e\<close> with the values \<open>1\<close> to \<open>5\<close>, as ASCII bytes.\<close>

definition abcde :: "(bytes \<times> bytes) list" where
  "abcde = [([97], [49]), ([98], [50]), ([99], [51]), ([100], [52]), ([101], [53])]"

text \<open>A writer with \<open>leafrecmax\<close> 3 inside a transaction, the calls made in it, and
  the handle after them.\<close>

definition ex_open :: villa where
  "ex_open = vlsettuning (the open_new) 3 0 0 0"

definition ex_begin :: villa where
  "ex_begin = fst (vltranbegin ex_open)"

definition ex_ops :: "vlop list" where
  "ex_ops = map (\<lambda>(k, v). VPut k v VL_DOVER) abcde @ [VGet [99], VCurFirst, VCurNext, VOut [97]]"

definition ex_run :: villa where
  "ex_run = the (run_ops ex_begin ex_ops)"

end
