(* ===== verification/Villa_Atomic.thy ===== *)
theory Villa_Atomic
  imports Villa_Examples
begin

text \<open>
  What the transaction of villa.c promises. Inside a transaction no function writes
  the backing store (every eviction is deferred by the \<open>villa->tran\<close> tests), so the
  file stays as \<open>vltranbegin\<close> left it; \<open>vltranabort\<close> drops every dirty page
  without writing it and restores the counters saved at the start. The caches are
  maps without repeated keys (\<open>cache_ok\<close>), which every operation preserves.
\<close>

section \<open>Invariant and frame\<close>

definition cache_ok :: "villa \<Rightarrow> bool" where
  "cache_ok st \<longleftrightarrow> distinct (cbmapkeys (leafc st)) \<and> distinct (cbmapkeys (nodec st))"

text \<open>The part of the handle that no page-level function changes: the store, the
  modes, the rollback snapshot and the cache limits; and the invariant is kept.\<close>

definition frame :: "villa \<Rightarrow> villa \<Rightarrow> bool" where
  "frame st st' \<longleftrightarrow>
     depot st' = depot st \<and> wmode st' = wmode st \<and> tran st' = tran st \<and>
     rbroot st' = rbroot st \<and> rblast st' = rblast st \<and> rblnum st' = rblnum st \<and>
     rbnnum st' = rbnnum st \<and> rbrnum st' = rbrnum st \<and>
     leafcnum st' = leafcnum st \<and> nodecnum st' = nodecnum st \<and> vcmp st' = vcmp st \<and>
     (cache_ok st \<longrightarrow> cache_ok st')"

definition all_clean :: "villa \<Rightarrow> bool" where
  "all_clean st \<longleftrightarrow>
     list_all (\<lambda>(_, l). \<not> leaf_dirty l) (leafc st) \<and> list_all (\<lambda>(_, n). \<not> node_dirty n) (nodec st)"

text \<open>What eviction of clean pages does to the handle: only the caches change, and
  they lose records.\<close>

definition shrinks :: "villa \<Rightarrow> villa \<Rightarrow> bool" where
  "shrinks st st' \<longleftrightarrow>
     st' = st\<lparr>leafc := leafc st', nodec := nodec st'\<rparr> \<and>
     set (leafc st') \<subseteq> set (leafc st) \<and> set (nodec st') \<subseteq> set (nodec st) \<and>
     (cache_ok st \<longrightarrow> cache_ok st')"

text \<open>The counters and cache keys of the handle, which writing pages back keeps.\<close>

definition same_core :: "villa \<Rightarrow> villa \<Rightarrow> bool" where
  "same_core s s' \<longleftrightarrow>
     root s' = root s \<and> vlast s' = vlast s \<and> lnum s' = lnum s \<and> nnum s' = nnum s \<and>
     rnum s' = rnum s \<and> wmode s' = wmode s \<and> tran s' = tran s \<and>
     cbmapkeys (leafc s') = cbmapkeys (leafc s) \<and> cbmapkeys (nodec s') = cbmapkeys (nodec s)"

named_theorems frame_intros
named_theorems frame_elims

section \<open>Maps without repeated keys\<close>

lemma fst_comp_put_val [simp]: "fst \<circ> (\<lambda>(k', v'). if k' = k then (k', v) else (k', v')) = fst"
  by (auto simp: fun_eq_iff)

lemma distinct_cbmapput [simp]:
  "distinct (cbmapkeys m) \<Longrightarrow> distinct (cbmapkeys (snd (cbmapput m k v over)))"
  by (auto simp: cbmapput_def cbmapkeys_def)

lemma distinct_cbmapout [simp]:
  "distinct (cbmapkeys m) \<Longrightarrow> distinct (cbmapkeys (snd (cbmapout m k)))"
  by (auto simp: cbmapout_def cbmapkeys_def distinct_map_filter)

lemma distinct_cbmapmove [simp]:
  "distinct (cbmapkeys m) \<Longrightarrow> distinct (cbmapkeys (snd (cbmapmove m k h)))"
  by (auto simp: cbmapmove_def cbmapkeys_def distinct_map_filter split: option.splits)

lemma cbmapkeys_cache_set [simp]: "cbmapkeys (cache_set m k v) = cbmapkeys m"
  by (simp add: cache_set_def cbmapkeys_def)

section \<open>Frame lemmas of the page layer\<close>

lemma frame_refl [simp, intro]: "frame st st"
  by (simp add: frame_def)

lemma frame_trans [trans]: "frame a b \<Longrightarrow> frame b c \<Longrightarrow> frame a c"
  by (simp add: frame_def)

lemma frame_leafc [frame_intros]:
  "(distinct (cbmapkeys (leafc st)) \<Longrightarrow> distinct (cbmapkeys m)) \<Longrightarrow> frame st (st\<lparr>leafc := m\<rparr>)"
  by (auto simp: frame_def cache_ok_def)

lemma frame_nodec [frame_intros]:
  "(distinct (cbmapkeys (nodec st)) \<Longrightarrow> distinct (cbmapkeys m)) \<Longrightarrow> frame st (st\<lparr>nodec := m\<rparr>)"
  by (auto simp: frame_def cache_ok_def)

lemma frame_leaf_set [frame_intros]: "frame a st \<Longrightarrow> frame a (leaf_set st l)"
  by (auto simp: leaf_set_def frame_def cache_ok_def)

lemma frame_node_set [frame_intros]: "frame a st \<Longrightarrow> frame a (node_set st n)"
  by (auto simp: node_set_def frame_def cache_ok_def)

lemma frame_vlleafnew [frame_elims]: "vlleafnew st p n = (st', l) \<Longrightarrow> frame a st \<Longrightarrow> frame a st'"
  by (auto simp: vlleafnew_def frame_def cache_ok_def Let_def)

lemma frame_vlnodenew [frame_elims]: "vlnodenew st h = (st', n) \<Longrightarrow> frame a st \<Longrightarrow> frame a st'"
  by (auto simp: vlnodenew_def frame_def cache_ok_def Let_def)

lemma frame_vlleafload [frame_elims]:
  "vlleafload st p = Some (st', r) \<Longrightarrow> frame a st \<Longrightarrow> frame a st'"
  by (auto simp: vlleafload_def frame_def cache_ok_def split: option.splits)

lemma frame_vlnodeload [frame_elims]:
  "vlnodeload st p = Some (st', r) \<Longrightarrow> frame a st \<Longrightarrow> frame a st'"
  by (auto simp: vlnodeload_def frame_def cache_ok_def split: option.splits)

text \<open>The fields outside the frame.\<close>

lemma frame_upd [simp]:
  "frame a (st\<lparr>ecode := e\<rparr>) = frame a st"
  "frame a (st\<lparr>curleaf := c\<rparr>) = frame a st"
  "frame a (st\<lparr>curknum := c\<rparr>) = frame a st"
  "frame a (st\<lparr>curvnum := c\<rparr>) = frame a st"
  "frame a (st\<lparr>root := x\<rparr>) = frame a st"
  "frame a (st\<lparr>vlast := x\<rparr>) = frame a st"
  "frame a (st\<lparr>lnum := x\<rparr>) = frame a st"
  "frame a (st\<lparr>nnum := x\<rparr>) = frame a st"
  "frame a (st\<lparr>rnum := x\<rparr>) = frame a st"
  by (simp_all add: frame_def cache_ok_def)

lemma frame_vlleafdivide [frame_elims]:
  "vlleafdivide st l = Some (st', r) \<Longrightarrow> frame a st \<Longrightarrow> frame a st'"
  by (auto simp: vlleafdivide_def Let_def bind_eq_Some_conv split: if_splits option.splits prod.splits
           intro!: frame_intros elim!: frame_vlleafload frame_vlleafnew)

lemma frame_searchleaf_loop:
  assumes "searchleaf_loop st k pid hist = Some y"
  shows "frame a st \<longrightarrow> frame a (fst y)"
  apply (rule searchleaf_loop.raw_induct [OF _ assms])
  subgoal for f s q p h r
    apply (clarsimp simp: bind_eq_Some_conv split: if_split_asm)
    apply (auto split: option.split_asm if_split_asm elim!: frame_vlnodeload)
    apply (metis frame_vlnodeload prod.exhaust_sel)
    done
  done

lemma frame_vlsearchleaf [frame_elims]:
  "vlsearchleaf st k = Some (st', p, h) \<Longrightarrow> frame a st \<Longrightarrow> frame a st'"
  using frame_searchleaf_loop [of st k "root st" "[]" "(st', p, h)" a] by (simp add: vlsearchleaf_def)

lemma frame_split_up [frame_elims]:
  "split_up st hr pid key path = Some (st', ok) \<Longrightarrow> frame a st \<Longrightarrow> frame a st'"
proof (induction path arbitrary: st hr pid key st' ok)
  case Nil
  then show ?case
    by (auto simp: Let_def split: prod.splits intro!: frame_intros elim!: frame_vlnodenew)
next
  case (Cons parent path)
  show ?case
  proof (cases "vlnodeload st parent")
    case None
    with Cons.prems show ?thesis by simp
  next
    case (Some x)
    note ld = this
    obtain s1 r where x: "x = (s1, r)" by (cases x)
    have f1: "frame a s1" using frame_vlnodeload [of st parent s1 r a] ld x Cons.prems(2) by simp
    show ?thesis
    proof (cases r)
      case None
      with Cons.prems ld x f1 show ?thesis by simp
    next
      case (Some node)
      define node1 where "node1 = vlnodeaddidx (vcmp s1) False pid key node"
      define ix where "ix = idxs node1 ! (length (idxs node1) div 2)"
      obtain st3 nn where nn: "vlnodenew (node_set s1 node1) (idx_pid ix) = (st3, nn)"
        by fastforce
      have f3: "frame a st3" using frame_vlnodenew [OF nn] frame_node_set [OF f1] by blast
      from Cons.prems(1) ld x Some nn f1 f3 show ?thesis
        by (auto simp: Let_def node1_def [symmetric] ix_def [symmetric] split: if_split_asm
                 intro!: frame_intros elim!: Cons.IH)
    qed
  qed
qed

lemma adjust_if_idle_tran [simp]: "tran st \<Longrightarrow> adjust_if_idle st = (st, True)"
  by (simp add: adjust_if_idle_def)

lemma frame_cursor_reset [simp]: "frame a (cursor_reset st) = frame a st"
  by (simp add: cursor_reset_def)

lemma frame_put_split [frame_elims]:
  assumes ps: "put_split st l h = Some (st', ok)" and fa: "frame a st"
  shows "frame a st'"
proof (cases "leafrecmax st < int (length (recs l)) \<and> even (length (recs l))")
  case False
  with ps fa show ?thesis by (simp add: put_split_def)
next
  case True
  with ps obtain st1 d where dv: "vlleafdivide st l = Some (st1, d)"
    and rest: "(case d of None \<Rightarrow> Some (st1, False)
               | Some (leaf2, nl) \<Rightarrow>
                   split_up (if leaf_id leaf2 = vlast st1 then st1\<lparr>vlast := leaf_id nl\<rparr> else st1)
                     (leaf_id leaf2) (leaf_id nl) (rec_key (hd (recs nl))) (rev h)) = Some (st', ok)"
    by (simp add: put_split_def bind_eq_Some_conv Let_def) blast
  have f1: "frame a st1" using frame_vlleafdivide [OF dv fa] .
  show ?thesis
  proof (cases d)
    case None
    with rest f1 show ?thesis by simp
  next
    case (Some p)
    with rest f1 show ?thesis
      by (cases p) (auto elim!: frame_split_up split: if_split_asm)
  qed
qed

lemma frame_adjust_if_idle [frame_elims]:
  "adjust_if_idle s = (s', ok) \<Longrightarrow> frame st s \<Longrightarrow> tran st \<Longrightarrow> frame st s'"
  by (auto simp: adjust_if_idle_def frame_def)

lemma frame_vlput:
  "vlput st k v dm = Some (st', ok) \<Longrightarrow> tran st \<Longrightarrow> frame st st'"
  by (auto simp: vlput_def Let_def split: if_split_asm
           elim!: option_elims frame_elims intro!: frame_intros)

lemma frame_read_result [frame_elims]:
  "read_result s x = (s', r) \<Longrightarrow> frame st s \<Longrightarrow> tran st \<Longrightarrow> frame st s'"
  by (auto simp: read_result_def adjust_if_idle_def frame_def)

lemma frame_vlout [frame_elims]:
  "vlout st k = Some (st', ok) \<Longrightarrow> tran st \<Longrightarrow> frame st st'"
  by (auto simp: vlout_def Let_def split: if_split_asm
           elim!: option_elims frame_elims intro!: frame_intros)

lemma frame_find_rec [frame_elims]:
  "find_rec s k = Some (s', r) \<Longrightarrow> frame st s \<Longrightarrow> frame st s'"
  by (auto simp: find_rec_def split: if_split_asm elim!: option_elims frame_elims)

lemma frame_vlget: "vlget st k = Some (st', r) \<Longrightarrow> tran st \<Longrightarrow> frame st st'"
  by (auto simp: vlget_def elim!: option_elims frame_elims)

lemma frame_vlvnum [frame_elims]: "vlvnum st k = Some (st', r) \<Longrightarrow> tran st \<Longrightarrow> frame st st'"
  by (auto simp: vlvnum_def elim!: option_elims frame_elims)

lemma frame_vlgetlist: "vlgetlist st k = Some (st', r) \<Longrightarrow> tran st \<Longrightarrow> frame st st'"
  by (auto simp: vlgetlist_def elim!: option_elims frame_elims)

lemma frame_vlgetcat: "vlgetcat st k = Some (st', r) \<Longrightarrow> tran st \<Longrightarrow> frame st st'"
  by (auto simp: vlgetcat_def elim!: option_elims frame_elims)

lemma frame_tran: "frame st s \<Longrightarrow> tran s = tran st"
  by (simp add: frame_def)

lemma frame_putlist_loop:
  "putlist_loop st k vs = Some (st', ok) \<Longrightarrow> tran st \<Longrightarrow> frame st st'"
proof (induction vs arbitrary: st)
  case Nil
  then show ?case by simp
next
  case (Cons v vs)
  from Cons.prems(1) obtain s1 b where p: "vlput st k v VL_DDUP = Some (s1, b)"
    and r: "(if b then putlist_loop s1 k vs else Some (s1, False)) = Some (st', ok)"
    by (auto elim!: option_elims)
  have f1: "frame st s1" using frame_vlput [OF p Cons.prems(2)] .
  with Cons.prems(2) have "tran s1" by (simp add: frame_tran)
  with r f1 Cons.IH [of s1] show ?case by (auto split: if_split_asm intro: frame_trans)
qed

lemma frame_outlist_loop:
  "outlist_loop st k n = Some (st', ok) \<Longrightarrow> tran st \<Longrightarrow> frame st st'"
proof (induction n arbitrary: st)
  case 0
  then show ?case by simp
next
  case (Suc n)
  from Suc.prems(1) obtain s1 b where p: "vlout st k = Some (s1, b)"
    and r: "(if b then outlist_loop s1 k n else Some (s1, False)) = Some (st', ok)"
    by (auto elim!: option_elims)
  have f1: "frame st s1" using frame_vlout [OF p Suc.prems(2)] .
  with Suc.prems(2) have "tran s1" by (simp add: frame_tran)
  with r f1 Suc.IH [of s1] show ?case by (auto split: if_split_asm intro: frame_trans)
qed

lemma frame_vlputlist: "vlputlist st k vs = Some (st', ok) \<Longrightarrow> tran st \<Longrightarrow> frame st st'"
  by (auto simp: vlputlist_def split: if_split_asm dest: frame_putlist_loop)

lemma frame_vloutlist: "vloutlist st k = Some (st', ok) \<Longrightarrow> tran st \<Longrightarrow> frame st st'"
proof (cases "wmode st")
  case True
  assume o: "vloutlist st k = Some (st', ok)" and t: "tran st"
  with True obtain s1 n where vn: "vlvnum st k = Some (s1, n)"
    and r: "(if n < 1 then Some (s1, False) else outlist_loop s1 k (nat n)) = Some (st', ok)"
    by (auto simp: vloutlist_def elim!: option_elims)
  have f1: "frame st s1" using frame_vlvnum [OF vn t] .
  with t have "tran s1" by (simp add: frame_tran)
  with r f1 show ?thesis by (auto split: if_split_asm dest!: frame_outlist_loop intro: frame_trans)
qed (auto simp: vloutlist_def)

section \<open>Frame of the cursor\<close>

lemma frame_skip_empty_raw:
  assumes "skip_empty fwd reset s l = Some y"
  shows "frame st s \<longrightarrow> frame st (fst y)"
  apply (rule skip_empty.raw_induct [OF _ assms])
  subgoal for f fw rs s' l' r
    apply (clarsimp simp: Let_def split: if_split_asm elim!: option_elims)
    apply (auto split: option.split_asm elim!: frame_vlleafload)
    apply (metis frame_upd(2) frame_upd(3) frame_upd(4) frame_vlleafload prod.exhaust_sel)+
    done
  done

lemma frame_skip_empty [frame_elims]:
  "skip_empty fwd reset s l = Some (s', r) \<Longrightarrow> frame st s \<Longrightarrow> frame st s'"
  using frame_skip_empty_raw [of fwd reset s l "(s', r)" st] by simp

lemma frame_cur_load [frame_elims]:
  "cur_load s = Some (s', r) \<Longrightarrow> frame st s \<Longrightarrow> frame st s'"
  by (auto simp: cur_load_def elim!: option_elims frame_elims)

lemma frame_last_pos [simp]: "frame st (last_pos s l) = frame st s"
  by (simp add: last_pos_def Let_def)

lemma frame_vlcurfirst: "vlcurfirst st = Some (st', ok) \<Longrightarrow> frame st st'"
  by (auto simp: vlcurfirst_def Let_def elim!: option_elims frame_elims)

lemma frame_vlcurlast: "vlcurlast st = Some (st', ok) \<Longrightarrow> frame st st'"
  by (auto simp: vlcurlast_def Let_def elim!: option_elims frame_elims)

lemma frame_vlcurprev [frame_elims]:
  "vlcurprev s = Some (s', ok) \<Longrightarrow> frame st s \<Longrightarrow> tran st \<Longrightarrow> frame st s'"
  by (auto simp: vlcurprev_def Let_def split: if_split_asm elim!: option_elims frame_elims)

lemma frame_vlcurnext [frame_elims]:
  "vlcurnext s = Some (s', ok) \<Longrightarrow> frame st s \<Longrightarrow> tran st \<Longrightarrow> frame st s'"
  by (auto simp: vlcurnext_def Let_def split: if_split_asm elim!: option_elims frame_elims)

lemma frame_vlcurjump:
  "vlcurjump st k jm = Some (st', ok) \<Longrightarrow> tran st \<Longrightarrow> frame st st'"
  by (auto simp: vlcurjump_def Let_def split: if_split_asm prod.split_asm option.split_asm
           elim!: option_elims frame_elims)

lemma frame_vlcurkey: "vlcurkey st = Some (st', r) \<Longrightarrow> frame st st'"
  by (auto simp: vlcurkey_def split: if_split_asm elim!: option_elims frame_elims)

lemma frame_vlcurval: "vlcurval st = Some (st', r) \<Longrightarrow> frame st st'"
  by (auto simp: vlcurval_def Let_def split: if_split_asm elim!: option_elims frame_elims)

section \<open>Operations inside a transaction\<close>

lemma frame_vl_step:
  "vl_step st op = Some st' \<Longrightarrow> tran st \<Longrightarrow> frame st st'"
  by (cases op)
     (auto elim!: frame_vlput frame_vlout frame_vlget frame_vlvnum frame_vlgetlist frame_vlgetcat
                  frame_vlputlist frame_vloutlist frame_vlcurfirst frame_vlcurlast frame_vlcurjump
                  frame_vlcurkey frame_vlcurval frame_vlcurprev [OF _ frame_refl]
                  frame_vlcurnext [OF _ frame_refl])

lemma frame_run_ops:
  "run_ops st ops = Some st' \<Longrightarrow> tran st \<Longrightarrow> frame st st'"
proof (induction ops arbitrary: st)
  case Nil
  then show ?case by simp
next
  case (Cons op ops)
  from Cons.prems(1) obtain s1 where s1: "vl_step st op = Some s1" and r: "run_ops s1 ops = Some st'"
    by (auto elim!: option_elims)
  have f1: "frame st s1" using frame_vl_step [OF s1 Cons.prems(2)] .
  with Cons.prems(2) have "tran s1" by (simp add: frame_tran)
  with r f1 Cons.IH [of s1] show ?case by (auto intro: frame_trans)
qed

section \<open>Aborting a transaction\<close>

lemma set_cache_set_other: "(k', x) \<in> set (cache_set m k v) \<Longrightarrow> k' \<noteq> k \<Longrightarrow> (k', x) \<in> set m"
  by (induction m) (auto simp: cache_set_def split: if_split_asm)

lemma map_of_cache_set: "k \<in> fst ` set m \<Longrightarrow> map_of (cache_set m k v) k = Some v"
  by (induction m) (auto simp: cache_set_def)

lemma cbmapget_key: "cbmapget m k = Some v \<Longrightarrow> k \<in> fst ` set m"
  by (auto simp: cbmapget_def dest: map_of_SomeD intro: rev_image_eqI)

lemma vlleafcacheout_clean:
  "cbmapget (leafc s) p = Some l \<Longrightarrow> \<not> leaf_dirty l \<Longrightarrow>
   vlleafcacheout s p = (s\<lparr>leafc := filter (\<lambda>(k', v'). k' \<noteq> p) (leafc s)\<rparr>, True)"
  by (simp add: vlleafcacheout_def cbmapout_def cbmapget_key)

lemma vlnodecacheout_clean:
  "cbmapget (nodec s) p = Some n \<Longrightarrow> \<not> node_dirty n \<Longrightarrow>
   vlnodecacheout s p = (s\<lparr>nodec := filter (\<lambda>(k', v'). k' \<noteq> p) (nodec s)\<rparr>, True)"
  by (simp add: vlnodecacheout_def cbmapout_def cbmapget_key)

lemma distinct_cbmapkeys_filter [simp]:
  "distinct (cbmapkeys m) \<Longrightarrow> distinct (cbmapkeys (filter (\<lambda>(k', v'). k' \<noteq> p) m))"
  by (simp add: cbmapkeys_def distinct_filter_key)

lemma discard_leaf_step:
  assumes d: "distinct (cbmapkeys (leafc s))" and st: "discard_leaf pid (s, e0) = (s1, e1)"
  shows "s1 = s\<lparr>leafc := leafc s1\<rparr> \<and> distinct (cbmapkeys (leafc s1)) \<and>
         (\<forall>(k, l) \<in> set (leafc s1). (k, l) \<in> set (leafc s) \<and> k \<noteq> pid \<or> \<not> leaf_dirty l)"
proof (cases "cbmapget (leafc s) pid")
  case None
  then have "\<forall>(k, l) \<in> set (leafc s). k \<noteq> pid"
    by (auto simp: cbmapget_def dest: weak_map_of_SomeI)
  with None st d show ?thesis by (auto simp: discard_leaf_def)
next
  case (Some leaf)
  have key: "pid \<in> fst ` set (leafc s)" using cbmapget_key [OF Some] .
  show ?thesis
  proof (cases "leaf_dirty leaf")
    case True
    let ?m = "cache_set (leafc s) pid (leaf\<lparr>leaf_dirty := False\<rparr>)"
    have "cbmapget ?m pid = Some (leaf\<lparr>leaf_dirty := False\<rparr>)"
      by (simp add: cbmapget_def map_of_cache_set key)
    then have "vlleafcacheout (s\<lparr>leafc := ?m\<rparr>) pid = (s\<lparr>leafc := filter (\<lambda>(k', v'). k' \<noteq> pid) ?m\<rparr>, True)"
      using vlleafcacheout_clean [of "s\<lparr>leafc := ?m\<rparr>"] by simp
    with Some True st d show ?thesis
      by (auto simp: discard_leaf_def dest: set_cache_set_other)
  next
    case False
    have "\<forall>(k, l) \<in> set (leafc s). k = pid \<longrightarrow> l = leaf"
      using Some d by (auto simp: cbmapget_def cbmapkeys_def dest: eq_key_imp_eq_value)
    with Some False st d show ?thesis by (auto simp: discard_leaf_def)
  qed
qed

lemma discard_node_step:
  assumes d: "distinct (cbmapkeys (nodec s))" and st: "discard_node pid (s, e0) = (s1, e1)"
  shows "s1 = s\<lparr>nodec := nodec s1\<rparr> \<and> distinct (cbmapkeys (nodec s1)) \<and>
         (\<forall>(k, l) \<in> set (nodec s1). (k, l) \<in> set (nodec s) \<and> k \<noteq> pid \<or> \<not> node_dirty l)"
proof (cases "cbmapget (nodec s) pid")
  case None
  then have "\<forall>(k, l) \<in> set (nodec s). k \<noteq> pid"
    by (auto simp: cbmapget_def dest: weak_map_of_SomeI)
  with None st d show ?thesis by (auto simp: discard_node_def)
next
  case (Some node)
  have key: "pid \<in> fst ` set (nodec s)" using cbmapget_key [OF Some] .
  show ?thesis
  proof (cases "node_dirty node")
    case True
    let ?m = "cache_set (nodec s) pid (node\<lparr>node_dirty := False\<rparr>)"
    have "cbmapget ?m pid = Some (node\<lparr>node_dirty := False\<rparr>)"
      by (simp add: cbmapget_def map_of_cache_set key)
    then have "vlnodecacheout (s\<lparr>nodec := ?m\<rparr>) pid = (s\<lparr>nodec := filter (\<lambda>(k', v'). k' \<noteq> pid) ?m\<rparr>, True)"
      using vlnodecacheout_clean [of "s\<lparr>nodec := ?m\<rparr>"] by simp
    with Some True st d show ?thesis
      by (auto simp: discard_node_def dest: set_cache_set_other)
  next
    case False
    have "\<forall>(k, l) \<in> set (nodec s). k = pid \<longrightarrow> l = node"
      using Some d by (auto simp: cbmapget_def cbmapkeys_def dest: eq_key_imp_eq_value)
    with Some False st d show ?thesis by (auto simp: discard_node_def)
  qed
qed


lemma discard_leaf_fold:
  "distinct (cbmapkeys (leafc s)) \<Longrightarrow> (\<forall>(k, l) \<in> set (leafc s). leaf_dirty l \<longrightarrow> k \<in> set ks) \<Longrightarrow>
   fold discard_leaf ks (s, e0) = (s', e) \<Longrightarrow>
   s' = s\<lparr>leafc := leafc s'\<rparr> \<and> distinct (cbmapkeys (leafc s')) \<and> list_all (\<lambda>(_, l). \<not> leaf_dirty l) (leafc s')"
proof (induction ks arbitrary: s e0)
  case Nil
  then show ?case by (auto simp: list_all_iff)
next
  case (Cons pid ks)
  obtain s1 e1 where st: "discard_leaf pid (s, e0) = (s1, e1)" by fastforce
  note step = discard_leaf_step [OF Cons.prems(1) st]
  have "\<forall>(k, l) \<in> set (leafc s1). leaf_dirty l \<longrightarrow> k \<in> set ks"
    using step Cons.prems(2) by fastforce
  moreover have "fold discard_leaf ks (s1, e1) = (s', e)" using Cons.prems(3) st by simp
  ultimately have ih: "s' = s1\<lparr>leafc := leafc s'\<rparr> \<and> distinct (cbmapkeys (leafc s')) \<and>
                       list_all (\<lambda>(_, l). \<not> leaf_dirty l) (leafc s')"
    using Cons.IH [of s1 e1] step by blast
  obtain x where "s1 = s\<lparr>leafc := x\<rparr>" using step by blast
  with ih show ?case by simp
qed

lemma discard_node_fold:
  "distinct (cbmapkeys (nodec s)) \<Longrightarrow> (\<forall>(k, l) \<in> set (nodec s). node_dirty l \<longrightarrow> k \<in> set ks) \<Longrightarrow>
   fold discard_node ks (s, e0) = (s', e) \<Longrightarrow>
   s' = s\<lparr>nodec := nodec s'\<rparr> \<and> distinct (cbmapkeys (nodec s')) \<and> list_all (\<lambda>(_, l). \<not> node_dirty l) (nodec s')"
proof (induction ks arbitrary: s e0)
  case Nil
  then show ?case by (auto simp: list_all_iff)
next
  case (Cons pid ks)
  obtain s1 e1 where st: "discard_node pid (s, e0) = (s1, e1)" by fastforce
  note step = discard_node_step [OF Cons.prems(1) st]
  have "\<forall>(k, l) \<in> set (nodec s1). node_dirty l \<longrightarrow> k \<in> set ks"
    using step Cons.prems(2) by fastforce
  moreover have "fold discard_node ks (s1, e1) = (s', e)" using Cons.prems(3) st by simp
  ultimately have ih: "s' = s1\<lparr>nodec := nodec s'\<rparr> \<and> distinct (cbmapkeys (nodec s')) \<and>
                       list_all (\<lambda>(_, l). \<not> node_dirty l) (nodec s')"
    using Cons.IH [of s1 e1] step by blast
  obtain x where "s1 = s\<lparr>nodec := x\<rparr>" using step by blast
  with ih show ?case by simp
qed


lemma shrinks_refl [simp]: "shrinks st st"
  by (simp add: shrinks_def)

lemma shrinks_trans:
  assumes ab: "shrinks a b" and bc: "shrinks b c"
  shows "shrinks a c"
proof -
  obtain x y where b: "b = a\<lparr>leafc := x, nodec := y\<rparr>" using ab unfolding shrinks_def by blast
  obtain u w where c: "c = b\<lparr>leafc := u, nodec := w\<rparr>" using bc unfolding shrinks_def by blast
  show ?thesis using ab bc unfolding shrinks_def cache_ok_def b c by auto
qed

lemma shrinks_leaves_clean:
  "shrinks s s' \<Longrightarrow> list_all (\<lambda>(_, l). \<not> leaf_dirty l) (leafc s) \<Longrightarrow>
   list_all (\<lambda>(_, l). \<not> leaf_dirty l) (leafc s')"
  by (auto simp: shrinks_def list_all_iff)

lemma shrinks_nodes_clean:
  "shrinks s s' \<Longrightarrow> list_all (\<lambda>(_, n). \<not> node_dirty n) (nodec s) \<Longrightarrow>
   list_all (\<lambda>(_, n). \<not> node_dirty n) (nodec s')"
  by (auto simp: shrinks_def list_all_iff)

lemma shrinks_all_clean: "shrinks s s' \<Longrightarrow> all_clean s \<Longrightarrow> all_clean s'"
  by (simp add: all_clean_def shrinks_leaves_clean shrinks_nodes_clean)

lemma vlleafcacheout_shrinks:
  assumes c: "list_all (\<lambda>(_, l). \<not> leaf_dirty l) (leafc s)" and o: "vlleafcacheout s p = (s', ok)"
  shows "shrinks s s'"
proof (cases "cbmapget (leafc s) p")
  case None
  with o show ?thesis by (simp add: vlleafcacheout_def)
next
  case (Some l)
  then have "\<not> leaf_dirty l" using c by (auto simp: cbmapget_def list_all_iff dest: map_of_SomeD)
  with Some o show ?thesis by (auto simp: vlleafcacheout_clean shrinks_def cache_ok_def)
qed

lemma vlnodecacheout_shrinks:
  assumes c: "list_all (\<lambda>(_, n). \<not> node_dirty n) (nodec s)" and o: "vlnodecacheout s p = (s', ok)"
  shows "shrinks s s'"
proof (cases "cbmapget (nodec s) p")
  case None
  with o show ?thesis by (simp add: vlnodecacheout_def)
next
  case (Some n)
  then have "\<not> node_dirty n" using c by (auto simp: cbmapget_def list_all_iff dest: map_of_SomeD)
  with Some o show ?thesis by (auto simp: vlnodecacheout_clean shrinks_def cache_ok_def)
qed

lemma evict_leaves_fold_shrinks:
  "list_all (\<lambda>(_, l). \<not> leaf_dirty l) (leafc s) \<Longrightarrow>
   fold (\<lambda>pid (s, err). (case vlleafcacheout s pid of (s', ok) \<Rightarrow> (s', err \<or> \<not> ok))) ks (s, e0) = (s', e) \<Longrightarrow>
   shrinks s s'"
proof (induction ks arbitrary: s e0)
  case Nil
  then show ?case by simp
next
  case (Cons pid ks)
  obtain s1 ok where o: "vlleafcacheout s pid = (s1, ok)" by fastforce
  have sh: "shrinks s s1" using vlleafcacheout_shrinks [OF Cons.prems(1) o] .
  have "shrinks s1 s'"
    using Cons.IH [OF shrinks_leaves_clean [OF sh Cons.prems(1)], of "e0 \<or> \<not> ok"] Cons.prems(2) o by simp
  with sh show ?case by (rule shrinks_trans)
qed

lemma evict_nodes_fold_shrinks:
  "list_all (\<lambda>(_, n). \<not> node_dirty n) (nodec s) \<Longrightarrow>
   fold (\<lambda>pid (s, err). (case vlnodecacheout s pid of (s', ok) \<Rightarrow> (s', err \<or> \<not> ok))) ks (s, e0) = (s', e) \<Longrightarrow>
   shrinks s s'"
proof (induction ks arbitrary: s e0)
  case Nil
  then show ?case by simp
next
  case (Cons pid ks)
  obtain s1 ok where o: "vlnodecacheout s pid = (s1, ok)" by fastforce
  have sh: "shrinks s s1" using vlnodecacheout_shrinks [OF Cons.prems(1) o] .
  have "shrinks s1 s'"
    using Cons.IH [OF shrinks_nodes_clean [OF sh Cons.prems(1)], of "e0 \<or> \<not> ok"] Cons.prems(2) o by simp
  with sh show ?case by (rule shrinks_trans)
qed

lemma vlcacheadjust_shrinks:
  assumes c: "all_clean st" and a: "vlcacheadjust st = (st', ok)"
  shows "shrinks st st'"
proof -
  obtain s1 e1 where l: "(if leafcnum st < int (cbmaprnum (leafc st))
                          then evict_leaves st (take VL_CACHEOUT (cbmapkeys (leafc st))) else (st, False)) = (s1, e1)"
    by fastforce
  have sh1: "shrinks st s1"
    using l c evict_leaves_fold_shrinks [of st] by (auto simp: evict_leaves_def all_clean_def split: if_split_asm)
  have c1: "all_clean s1" using shrinks_all_clean [OF sh1 c] .
  obtain s2 e2 where n: "(if nodecnum s1 < int (cbmaprnum (nodec s1))
                          then evict_nodes s1 (take VL_CACHEOUT (cbmapkeys (nodec s1))) else (s1, False)) = (s2, e2)"
    by fastforce
  have sh2: "shrinks s1 s2"
    using n c1 evict_nodes_fold_shrinks [of s1] by (auto simp: evict_nodes_def all_clean_def split: if_split_asm)
  have "st' = s2" using a l n by (simp add: vlcacheadjust_def)
  with sh1 sh2 show ?thesis by (blast intro: shrinks_trans)
qed

lemma adjust_loop_shrinks_raw:
  assumes "adjust_loop st = Some y"
  shows "all_clean st \<longrightarrow> shrinks st (fst y)"
  apply (rule adjust_loop.raw_induct [OF _ assms])
  subgoal premises p for f s r
  proof
    assume c: "all_clean s"
    obtain s1 ok where a: "vlcacheadjust s = (s1, ok)" by fastforce
    have sh: "shrinks s s1" using vlcacheadjust_shrinks [OF c a] .
    have c1: "all_clean s1" using shrinks_all_clean [OF sh c] .
    obtain t b where r: "r = (t, b)" by fastforce
    have "shrinks s1 t" if "f s1 = Some (t, b)" using p(1) [OF that] c1 by simp
    with p(2) a r sh show "shrinks s (fst r)" by (auto split: if_split_asm intro: shrinks_trans)
  qed
  done

lemma adjust_loop_shrinks:
  "adjust_loop st = Some (st', ok) \<Longrightarrow> all_clean st \<Longrightarrow> shrinks st st'"
  using adjust_loop_shrinks_raw [of st "(st', ok)"] by simp

lemma discard_leaves_clean:
  assumes d: "distinct (cbmapkeys (leafc st))" and r: "discard_leaves st = (s1, e1)"
  shows "s1 = st\<lparr>leafc := leafc s1\<rparr> \<and> distinct (cbmapkeys (leafc s1)) \<and>
         list_all (\<lambda>(_, l). \<not> leaf_dirty l) (leafc s1)"
  using discard_leaf_fold [OF d _ r [unfolded discard_leaves_def]]
  by (force simp: cbmapkeys_def)

lemma discard_nodes_clean:
  assumes d: "distinct (cbmapkeys (nodec st))" and r: "discard_nodes st = (s1, e1)"
  shows "s1 = st\<lparr>nodec := nodec s1\<rparr> \<and> distinct (cbmapkeys (nodec s1)) \<and>
         list_all (\<lambda>(_, n). \<not> node_dirty n) (nodec s1)"
  using discard_node_fold [OF d _ r [unfolded discard_nodes_def]]
  by (force simp: cbmapkeys_def)

lemma vltranabort_restores:
  assumes w: "wmode st" and t: "tran st" and c: "cache_ok st"
    and a: "vltranabort st = Some (st', ok)"
  shows "depot st' = depot st \<and> \<not> tran st' \<and> root st' = rbroot st \<and> vlast st' = rblast st \<and>
         lnum st' = rblnum st \<and> nnum st' = rbnnum st \<and> rnum st' = rbrnum st \<and>
         all_clean st' \<and> cache_ok st'"
proof -
  define strip :: "villa \<Rightarrow> villa" where "strip x = x\<lparr>leafc := [], nodec := []\<rparr>" for x
  obtain s1 e1 where d1: "discard_leaves st = (s1, e1)" by fastforce
  obtain s2 e2 where d2: "discard_nodes s1 = (s2, e2)" by fastforce
  have l1: "s1 = st\<lparr>leafc := leafc s1\<rparr>" and k1: "distinct (cbmapkeys (leafc s1))"
    and c1: "list_all (\<lambda>(_, l). \<not> leaf_dirty l) (leafc s1)"
    using discard_leaves_clean [OF _ d1] c by (auto simp: cache_ok_def)
  have n1: "nodec s1 = nodec st" by (subst l1) simp
  have p1: "strip s1 = strip st" unfolding strip_def by (subst l1) simp
  have "distinct (cbmapkeys (nodec s1))" using c n1 by (simp add: cache_ok_def)
  then have l2: "s2 = s1\<lparr>nodec := nodec s2\<rparr>" and k2: "distinct (cbmapkeys (nodec s2))"
    and c2: "list_all (\<lambda>(_, n). \<not> node_dirty n) (nodec s2)"
    using discard_nodes_clean [OF _ d2] by auto
  have ls2: "leafc s2 = leafc s1" by (subst l2) simp
  have p2: "strip s2 = strip s1" unfolding strip_def by (subst l2) simp
  define s3 where "s3 = s2\<lparr>tran := False, root := rbroot s2, vlast := rblast s2, lnum := rblnum s2,
                           nnum := rbnnum s2, rnum := rbrnum s2\<rparr>"
  obtain ok3 where al: "adjust_loop s3 = Some (st', ok3)"
    using a w t d1 d2 by (auto simp: vltranabort_def s3_def elim!: option_elims)
  have cl3: "all_clean s3" and ck3: "cache_ok s3"
    using c1 c2 k1 k2 ls2 by (simp_all add: s3_def all_clean_def cache_ok_def)
  have sh: "shrinks s3 st'" using adjust_loop_shrinks [OF al cl3] .
  then have e3: "st' = s3\<lparr>leafc := leafc st', nodec := nodec st'\<rparr>" by (simp add: shrinks_def)
  have p3: "strip st' = strip s3" unfolding strip_def by (subst e3) simp
  have E: "strip st' = (strip st)\<lparr>tran := False, root := rbroot st, vlast := rblast st,
                     lnum := rblnum st, nnum := rbnnum st, rnum := rbrnum st\<rparr>"
  proof -
    have "strip s3 = (strip s2)\<lparr>tran := False, root := rbroot s2, vlast := rblast s2, lnum := rblnum s2,
                       nnum := rbnnum s2, rnum := rbrnum s2\<rparr>"
      by (simp add: s3_def strip_def)
    moreover have "rbroot s2 = rbroot st \<and> rblast s2 = rblast st \<and> rblnum s2 = rblnum st \<and>
                   rbnnum s2 = rbnnum st \<and> rbrnum s2 = rbrnum st"
      using arg_cong [OF p2, of rbroot] arg_cong [OF p1, of rbroot] arg_cong [OF p2, of rblast]
        arg_cong [OF p1, of rblast] arg_cong [OF p2, of rblnum] arg_cong [OF p1, of rblnum]
        arg_cong [OF p2, of rbnnum] arg_cong [OF p1, of rbnnum] arg_cong [OF p2, of rbrnum]
        arg_cong [OF p1, of rbrnum]
      by (simp add: strip_def)
    ultimately show ?thesis using p1 p2 p3 by simp
  qed
  have "depot st' = depot st \<and> \<not> tran st' \<and> root st' = rbroot st \<and> vlast st' = rblast st \<and>
        lnum st' = rblnum st \<and> nnum st' = rbnnum st \<and> rnum st' = rbrnum st"
    using arg_cong [OF E, of depot] arg_cong [OF E, of tran] arg_cong [OF E, of root]
      arg_cong [OF E, of vlast] arg_cong [OF E, of lnum] arg_cong [OF E, of nnum] arg_cong [OF E, of rnum]
    by (simp add: strip_def)
  moreover have "all_clean st'" using shrinks_all_clean [OF sh cl3] .
  moreover have "cache_ok st'" using sh ck3 by (simp add: shrinks_def)
  ultimately show ?thesis by blast
qed

lemma length_cache_set [simp]: "length (cache_set m k v) = length m"
  by (simp add: cache_set_def)

lemma length_filter_key_less:
  "k \<in> fst ` set m \<Longrightarrow> length (filter (\<lambda>(k', v'). k' \<noteq> k) m) < length m"
  by (induction m) (auto simp: le_imp_less_Suc)

lemma keys_cache_set [simp]: "fst ` set (cache_set m k v) = fst ` set m"
  using cbmapkeys_cache_set [of m k v] by (metis cbmapkeys_def set_map)

lemma cbmapget_None_key: "cbmapget m k = None \<Longrightarrow> k \<notin> fst ` set m"
  by (simp add: cbmapget_def map_of_eq_None_iff)

lemma vlleafcacheout_length:
  assumes o: "vlleafcacheout s p = (s', ok)"
  shows "length (leafc s') \<le> length (leafc s) \<and> nodec s' = nodec s \<and> leafcnum s' = leafcnum s \<and>
         nodecnum s' = nodecnum s \<and> (p \<in> fst ` set (leafc s) \<longrightarrow> length (leafc s') < length (leafc s))"
proof (cases "cbmapget (leafc s) p")
  case None
  with o show ?thesis by (simp add: vlleafcacheout_def cbmapget_None_key)
next
  case (Some l)
  define s1 where "s1 = (if leaf_dirty l then vlleafsave s l else s)"
  have k1: "fst ` set (leafc s1) = fst ` set (leafc s)" and n1: "length (leafc s1) = length (leafc s)"
    and f1: "nodec s1 = nodec s \<and> leafcnum s1 = leafcnum s \<and> nodecnum s1 = nodecnum s"
    by (simp_all add: s1_def vlleafsave_def leaf_set_def Let_def)
  have p: "p \<in> fst ` set (leafc s)" using cbmapget_key [OF Some] .
  have "s' = s1\<lparr>leafc := filter (\<lambda>(k', v'). k' \<noteq> p) (leafc s1)\<rparr>"
    using o Some p k1 by (simp add: vlleafcacheout_def s1_def [symmetric] cbmapout_def)
  with k1 n1 f1 p length_filter_key_less [of p "leafc s1"] show ?thesis by simp
qed

lemma vlnodecacheout_length:
  assumes o: "vlnodecacheout s p = (s', ok)"
  shows "length (nodec s') \<le> length (nodec s) \<and> leafc s' = leafc s \<and> leafcnum s' = leafcnum s \<and>
         nodecnum s' = nodecnum s \<and> (p \<in> fst ` set (nodec s) \<longrightarrow> length (nodec s') < length (nodec s))"
proof (cases "cbmapget (nodec s) p")
  case None
  with o show ?thesis by (simp add: vlnodecacheout_def cbmapget_None_key)
next
  case (Some n)
  define s1 where "s1 = (if node_dirty n then vlnodesave s n else s)"
  have k1: "fst ` set (nodec s1) = fst ` set (nodec s)" and n1: "length (nodec s1) = length (nodec s)"
    and f1: "leafc s1 = leafc s \<and> leafcnum s1 = leafcnum s \<and> nodecnum s1 = nodecnum s"
    by (simp_all add: s1_def vlnodesave_def node_set_def Let_def)
  have p: "p \<in> fst ` set (nodec s)" using cbmapget_key [OF Some] .
  have "s' = s1\<lparr>nodec := filter (\<lambda>(k', v'). k' \<noteq> p) (nodec s1)\<rparr>"
    using o Some p k1 by (simp add: vlnodecacheout_def s1_def [symmetric] cbmapout_def)
  with k1 n1 f1 p length_filter_key_less [of p "nodec s1"] show ?thesis by simp
qed

lemma evict_leaves_fold_length:
  "fold (\<lambda>pid (s, err). (case vlleafcacheout s pid of (s', ok) \<Rightarrow> (s', err \<or> \<not> ok))) ks (s, e0) = (s', e) \<Longrightarrow>
   length (leafc s') \<le> length (leafc s) \<and> nodec s' = nodec s \<and> leafcnum s' = leafcnum s \<and>
   nodecnum s' = nodecnum s \<and> (ks \<noteq> [] \<and> hd ks \<in> fst ` set (leafc s) \<longrightarrow> length (leafc s') < length (leafc s))"
proof (induction ks arbitrary: s e0)
  case Nil
  then show ?case by simp
next
  case (Cons pid ks)
  obtain s1 ok where o: "vlleafcacheout s pid = (s1, ok)" by fastforce
  note a = vlleafcacheout_length [OF o]
  have "length (leafc s') \<le> length (leafc s1) \<and> nodec s' = nodec s1 \<and> leafcnum s' = leafcnum s1 \<and>
        nodecnum s' = nodecnum s1"
    using Cons.IH [of s1 "e0 \<or> \<not> ok"] Cons.prems o by simp
  with a show ?case by auto
qed

lemma evict_nodes_fold_length:
  "fold (\<lambda>pid (s, err). (case vlnodecacheout s pid of (s', ok) \<Rightarrow> (s', err \<or> \<not> ok))) ks (s, e0) = (s', e) \<Longrightarrow>
   length (nodec s') \<le> length (nodec s) \<and> leafc s' = leafc s \<and> leafcnum s' = leafcnum s \<and>
   nodecnum s' = nodecnum s \<and> (ks \<noteq> [] \<and> hd ks \<in> fst ` set (nodec s) \<longrightarrow> length (nodec s') < length (nodec s))"
proof (induction ks arbitrary: s e0)
  case Nil
  then show ?case by simp
next
  case (Cons pid ks)
  obtain s1 ok where o: "vlnodecacheout s pid = (s1, ok)" by fastforce
  note a = vlnodecacheout_length [OF o]
  have "length (nodec s') \<le> length (nodec s1) \<and> leafc s' = leafc s1 \<and> leafcnum s' = leafcnum s1 \<and>
        nodecnum s' = nodecnum s1"
    using Cons.IH [of s1 "e0 \<or> \<not> ok"] Cons.prems o by simp
  with a show ?case by auto
qed

lemma hd_take_keys:
  "m \<noteq> [] \<Longrightarrow> take VL_CACHEOUT (cbmapkeys m) \<noteq> [] \<and> hd (take VL_CACHEOUT (cbmapkeys m)) \<in> fst ` set m"
  by (cases m) (auto simp: cbmapkeys_def VL_CACHEOUT_def)

lemma vlcacheadjust_decreases:
  assumes l: "0 \<le> leafcnum st" and n: "0 \<le> nodecnum st"
    and over: "leafcnum st < int (cbmaprnum (leafc st)) \<or> nodecnum st < int (cbmaprnum (nodec st))"
    and a: "vlcacheadjust st = (st', ok)"
  shows "length (leafc st') + length (nodec st') < length (leafc st) + length (nodec st) \<and>
         leafcnum st' = leafcnum st \<and> nodecnum st' = nodecnum st"
proof -
  obtain s1 e1 where l1: "(if leafcnum st < int (cbmaprnum (leafc st))
                          then evict_leaves st (take VL_CACHEOUT (cbmapkeys (leafc st))) else (st, False)) = (s1, e1)"
    by fastforce
  obtain s2 e2 where n2: "(if nodecnum s1 < int (cbmaprnum (nodec s1))
                          then evict_nodes s1 (take VL_CACHEOUT (cbmapkeys (nodec s1))) else (s1, False)) = (s2, e2)"
    by fastforce
  have eq: "st' = s2" using a l1 n2 by (simp add: vlcacheadjust_def)
  have ne1: "leafc st \<noteq> []" if "leafcnum st < int (cbmaprnum (leafc st))"
    using that l by (auto simp: cbmaprnum_def)
  have ne2: "nodec s1 \<noteq> []" if "nodecnum s1 < int (cbmaprnum (nodec s1))" "0 \<le> nodecnum s1"
    using that by (auto simp: cbmaprnum_def)
  have h1: "length (leafc s1) \<le> length (leafc st) \<and> nodec s1 = nodec st \<and> leafcnum s1 = leafcnum st \<and>
            nodecnum s1 = nodecnum st \<and>
            (leafcnum st < int (cbmaprnum (leafc st)) \<longrightarrow> length (leafc s1) < length (leafc st))"
    using l1 evict_leaves_fold_length [of "take VL_CACHEOUT (cbmapkeys (leafc st))" st False s1 e1]
      hd_take_keys [of "leafc st"] ne1
    by (auto simp: evict_leaves_def cbmaprnum_def simp del: take_eq_Nil split: if_split_asm)
  have h2: "length (nodec s2) \<le> length (nodec s1) \<and> leafc s2 = leafc s1 \<and> leafcnum s2 = leafcnum s1 \<and>
            nodecnum s2 = nodecnum s1 \<and>
            (nodecnum s1 < int (cbmaprnum (nodec s1)) \<longrightarrow> length (nodec s2) < length (nodec s1))"
    using n2 h1 evict_nodes_fold_length [of "take VL_CACHEOUT (cbmapkeys (nodec s1))" s1 False s2 e2]
      hd_take_keys [of "nodec s1"] ne2 n
    by (auto simp: evict_nodes_def cbmaprnum_def simp del: take_eq_Nil split: if_split_asm)
  show ?thesis using h1 h2 over eq by (auto simp: cbmaprnum_def)
qed

text \<open>C9. The deferred eviction loop of \<open>vltrancommit\<close> and \<open>vltranabort\<close> terminates
  whenever the cache limits are not negative (\<open>vlsettuning\<close> keeps them at 16 or more):
  every round that does not stop evicts at least one page.\<close>

theorem adjust_loop_terminates:
  "0 \<le> leafcnum st \<Longrightarrow> 0 \<le> nodecnum st \<Longrightarrow> \<exists>r. adjust_loop st = Some r"
proof (induction "length (leafc st) + length (nodec st)" arbitrary: st rule: less_induct)
  case less
  show ?case
  proof (cases "leafcnum st < int (cbmaprnum (leafc st)) \<or> nodecnum st < int (cbmaprnum (nodec st))")
    case True
    obtain st1 ok where a: "vlcacheadjust st = (st1, ok)" by fastforce
    note d = vlcacheadjust_decreases [OF less.prems True a]
    have "\<exists>r. adjust_loop st1 = Some r" using less.hyps [OF conjunct1 [OF d]] less.prems d by simp
    with True a show ?thesis by (subst adjust_loop.simps) auto
  next
    case False
    then show ?thesis by (subst adjust_loop.simps) auto
  qed
qed

section \<open>Beginning a transaction\<close>

text \<open>\<open>vltranbegin\<close> writes the dirty pages and the metadata, and keeps the tree
  counters and the cache keys; the counters are what the snapshot records.\<close>

lemma same_core_reflp: "reflp same_core"
  by (simp add: reflp_def same_core_def)

lemma same_core_transp: "transp same_core"
  by (simp add: transp_def same_core_def)

lemma same_core_save_leaves: "same_core st (save_dirty_leaves st)"
  unfolding save_dirty_leaves_def
  by (rule fold_rel [OF same_core_reflp same_core_transp])
     (auto simp: same_core_def vlleafsave_def leaf_set_def Let_def split: option.split)

lemma same_core_save_nodes: "same_core st (save_dirty_nodes st)"
  unfolding save_dirty_nodes_def
  by (rule fold_rel [OF same_core_reflp same_core_transp])
     (auto simp: same_core_def vlnodesave_def node_set_def Let_def split: option.split)

lemma vltranbegin_snapshot:
  assumes b: "vltranbegin st = (st1, True)" and c: "cache_ok st"
  shows "wmode st1 \<and> tran st1 \<and> cache_ok st1 \<and> rbroot st1 = root st \<and> rblast st1 = vlast st \<and>
         rblnum st1 = lnum st \<and> rbnnum st1 = nnum st \<and> rbrnum st1 = rnum st"
proof -
  have s: "same_core st (save_dirty_nodes (save_dirty_leaves st))"
    using same_core_save_leaves same_core_save_nodes same_core_transp by (metis transpD)
  from b have w: "wmode st" and t: "\<not> tran st" by (auto simp: vltranbegin_def split: if_split_asm)
  with b s c show ?thesis
    by (auto simp: vltranbegin_def put_meta_def same_core_def cache_ok_def)
qed

section \<open>The store during a transaction\<close>

text \<open>C2. Inside a transaction no call of the API writes the backing store: after any
  sequence of puts, deletions, reads and cursor moves the store is the one
  \<open>vltranbegin\<close> left, the handle is still in the transaction, and the rollback
  snapshot is untouched.\<close>

theorem tran_ops_keep_store:
  assumes "tran st" and "run_ops st ops = Some st'"
  shows "depot st' = depot st \<and> tran st' \<and> wmode st' = wmode st \<and> rbroot st' = rbroot st \<and>
         rblast st' = rblast st \<and> rblnum st' = rblnum st \<and> rbnnum st' = rbnnum st \<and> rbrnum st' = rbrnum st"
  using frame_run_ops [OF assms(2,1)] assms(1) by (simp add: frame_def)

section \<open>Witnesses\<close>

lemma ex_begin_tran: "tran ex_begin"
  by code_simp

lemma ex_run_some: "run_ops ex_begin ex_ops \<noteq> None"
  by code_simp

lemma ex_run_eq: "run_ops ex_begin ex_ops = Some ex_run"
  using ex_run_some by (auto simp: ex_run_def)

theorem tran_ops_keep_store_witness:
  "tran ex_begin \<and> run_ops ex_begin ex_ops = Some ex_run \<and> depot ex_run = depot ex_begin \<and> tran ex_run"
  using tran_ops_keep_store [OF ex_begin_tran ex_run_eq] ex_begin_tran ex_run_eq by simp

lemma ex_run_limits: "0 \<le> leafcnum ex_run \<and> 0 \<le> nodecnum ex_run"
  by code_simp

theorem adjust_loop_terminates_witness:
  "0 \<le> leafcnum ex_run \<and> 0 \<le> nodecnum ex_run \<and> (\<exists>r. adjust_loop ex_run = Some r)"
  using adjust_loop_terminates [of ex_run] ex_run_limits by simp

end
