(* ===== verification/Suffix_Array.thy ===== *)
theory Suffix_Array
  imports Villa_Prelude "HOL-Library.List_Lexorder" "HOL-Library.Monad_Syntax" "HOL-Library.Code_Target_Nat"
begin

text \<open>
  The Ruby extension \<open>SuffixArray\<close> (src/ext/sarray/suffix_array.c): the search
  helpers \<open>scan_string\<close> and \<open>find_longest_match\<close>, the table of the first and last
  suffix-array position of each leading byte built by \<open>SuffixArray_initialize\<close>, and
  the methods \<open>longest_match\<close>, \<open>match\<close>, \<open>longest_nonmatch\<close> and \<open>all_starts\<close>.
  Ruby strings are byte lists whose buffer ends with a NUL byte (\<open>rstr_byte\<close> reads
  it at index \<open>len\<close>); a read further out is an error value \<open>SA_OOB\<close>, as is an index
  outside the suffix array or the 256-entry tables. \<open>size_t\<close> is a 64-bit natural
  number: subtraction below zero wraps to \<open>SIZE_MAX\<close> and sums are taken modulo
  \<open>2^64\<close> where the code can overflow. The suffix array itself comes from \<open>bsarray\<close>
  of sarray.c, which is not in the repository: it is modelled as its contract, the
  \<open>n + 1\<close> suffix start positions sorted by the suffixes, the empty suffix first.
  Raised Ruby exceptions are the values \<open>SA_ERR\<close>.
\<close>

datatype sa_error = SA_ERR string | SA_OOB

type_synonym 'a sares = "sa_error + 'a"

section \<open>Machine numbers and buffers\<close>

definition SIZE_MAX :: nat where "SIZE_MAX = 2 ^ 64 - 1"

definition size_dec :: "nat \<Rightarrow> nat" where
  "size_dec m = (if m = 0 then SIZE_MAX else m - 1)"

definition size_add :: "nat \<Rightarrow> nat \<Rightarrow> nat" where
  "size_add a b = (a + b) mod 2 ^ 64"

definition rstr_byte :: "bytes \<Rightarrow> nat \<Rightarrow> byte" where
  "rstr_byte s i = (if i < length s then s ! i else 0)"

definition rstr_get :: "bytes \<Rightarrow> nat \<Rightarrow> byte sares" where
  "rstr_get s i = (if i \<le> length s then Inr (rstr_byte s i) else Inl SA_OOB)"

definition arr_get :: "nat list \<Rightarrow> nat \<Rightarrow> nat sares" where
  "arr_get a i = (if i < length a then Inr (a ! i) else Inl SA_OOB)"

section \<open>The suffix array (sarray.c, not in the repository)\<close>

definition bsarray :: "bytes \<Rightarrow> nat list" where
  "bsarray s = sort_key (\<lambda>i. drop i s) [0..<length s + 1]"

record sarray =
  sa_source :: bytes
  suffix_index :: "nat list"
  starts :: "nat list"
  ends :: "nat list"

section \<open>\<open>scan_string\<close>\<close>

text \<open>The common prefix of the source at \<open>off\<close> (\<open>slen\<close> bytes) and the target at
  \<open>toff\<close> (\<open>tlen\<close> bytes), counted from \<open>i\<close>.\<close>

function scan_len :: "bytes \<Rightarrow> nat \<Rightarrow> nat \<Rightarrow> bytes \<Rightarrow> nat \<Rightarrow> nat \<Rightarrow> nat \<Rightarrow> nat" where
  "scan_len src off slen tgt toff tlen i =
     (if i < tlen \<and> i < slen \<and> rstr_byte tgt (toff + i) = rstr_byte src (off + i)
      then scan_len src off slen tgt toff tlen (Suc i) else i)"
  by pat_completeness auto
termination
  by (relation "measure (\<lambda>(src, off, slen, tgt, toff, tlen, i). tlen - i)") auto

declare scan_len.simps [simp del]

text \<open>The result is 0 when the whole target matched, else the difference of the
  first differing bytes (as \<open>unsigned char\<close>, promoted to \<open>int\<close>); the second
  component is the out parameter, the length matched.\<close>

definition scan_string :: "bytes \<Rightarrow> nat \<Rightarrow> nat \<Rightarrow> bytes \<Rightarrow> nat \<Rightarrow> nat \<Rightarrow> int \<times> nat" where
  "scan_string src off slen tgt toff tlen =
     (let l = scan_len src off slen tgt toff tlen 0
      in if l = tlen then (0, l)
         else (uint (rstr_byte tgt (toff + l)) - uint (rstr_byte src (off + l)), l))"

section \<open>\<open>find_longest_match\<close>\<close>

text \<open>The binary search over the positions \<open>low .. high\<close> of the suffix array; it
  keeps the longest match seen (\<open>len\<close> at \<open>lst\<close>, \<open>last_match\<close>) and stops on a full match, when the
  bounds cross or leave the array (\<open>high = middle - 1\<close> wraps at 0).\<close>

partial_function (option) flm_loop ::
  "bytes \<Rightarrow> bytes \<Rightarrow> nat \<Rightarrow> nat \<Rightarrow> nat list \<Rightarrow> nat \<Rightarrow> nat \<Rightarrow> nat \<Rightarrow> nat \<Rightarrow> nat \<Rightarrow> (nat \<times> nat) option" where
  "flm_loop src tgt toff tlen sa low high middle len lst =
     (if low \<le> high \<and> high \<le> length src \<and> middle \<le> length src \<and> len \<noteq> tlen then
        (let src_i = sa ! middle;
             (result, sl) = scan_string src src_i (length src - src_i) tgt toff tlen;
             len' = (if len < sl then sl else len);
             lst' = (if len < sl then middle else lst)
         in if result = 0 then Some (lst', len')
            else if result < 0 then
              (let high' = size_dec middle
               in flm_loop src tgt toff tlen sa low high' (size_add low high' div 2) len' lst')
            else
              (let low' = middle + 1
               in flm_loop src tgt toff tlen sa low' high (size_add low' high div 2) len' lst'))
      else Some (lst, len))"

declare flm_loop.simps [code]

text \<open>The entry: the range of suffixes that start with the target's first byte, from
  the tables, with one position more at the top. The result is the position found
  in the suffix array and the length matched.\<close>

definition find_longest_match :: "sarray \<Rightarrow> bytes \<Rightarrow> nat \<Rightarrow> nat \<Rightarrow> (nat \<times> nat) option" where
  "find_longest_match sa tgt toff tlen =
     (let c = unat (rstr_byte tgt toff);
          high = ends sa ! c + 1;
          low = starts sa ! c
      in flm_loop (sa_source sa) tgt toff tlen (suffix_index sa) low high (size_add low high div 2) 0 0)"

section \<open>\<open>SuffixArray_initialize\<close>\<close>

text \<open>The loop over the first \<open>len\<close> positions of the suffix array: when the leading
  byte changes, the old byte's range ends one position before and the new one's
  starts here. The tables start zeroed (\<open>Data_Make_Struct\<close>).\<close>

definition table_step :: "bytes \<Rightarrow> nat list \<Rightarrow> nat \<Rightarrow> nat list \<times> nat list \<times> nat \<Rightarrow> nat list \<times> nat list \<times> nat" where
  "table_step src sa i tab =
     (case tab of
        (st, en, c) \<Rightarrow>
          (let b = unat (rstr_byte src (sa ! i))
           in if b \<noteq> c then (st[b := i], en[c := i - 1], b) else (st, en, c)))"

definition build_tables :: "bytes \<Rightarrow> nat list \<Rightarrow> nat list \<times> nat list" where
  "build_tables src sa =
     (let n = length src;
          c0 = unat (rstr_byte src (sa ! 0));
          (st, en, c) = fold (table_step src sa) [0..<n] ((replicate 256 0)[c0 := 0], replicate 256 0, c0);
          cl = unat (rstr_byte src (sa ! (n - 1)))
      in (st, en[cl := n - 1]))"

definition SuffixArray_initialize :: "bytes \<Rightarrow> sarray sares" where
  "SuffixArray_initialize src =
     (if src = [] then Inl (SA_ERR ''Cannot create a suffix array from a 0 length input source.'')
      else
        (let sa = bsarray src; (st, en) = build_tables src sa
         in Inr \<lparr>sa_source = src, suffix_index = sa, starts = st, ends = en\<rparr>))"

section \<open>\<open>longest_match\<close>\<close>

text \<open>\<open>[start, length]\<close>: the source position of the longest match of the target from
  index \<open>from\<close> on, or \<open>nil\<close> (\<open>None\<close>) when \<open>from\<close> is past the target.\<close>

definition SuffixArray_longest_match :: "sarray \<Rightarrow> bytes \<Rightarrow> nat \<Rightarrow> (nat \<times> nat) option option" where
  "SuffixArray_longest_match sa tgt from =
     (if length tgt < from then Some None
      else map_option (\<lambda>(start, l). Some (suffix_index sa ! start, l))
             (find_longest_match sa tgt from (length tgt - from)))"

section \<open>\<open>match\<close>\<close>

text \<open>From the position found, \<open>while(start-- >= 0)\<close> walks down the suffix array
  (the test is always true for a \<open>size_t\<close>, so the walk ends only at a differing
  byte), comparing the last byte of the target; found positions are unshifted.\<close>

partial_function (option) back_loop ::
  "sarray \<Rightarrow> bytes \<Rightarrow> nat \<Rightarrow> nat \<Rightarrow> nat list \<Rightarrow> nat list sares option" where
  "back_loop sa tgt tlen start acc =
     (let s' = size_dec start in
      case arr_get (suffix_index sa) s' of
        Inl e \<Rightarrow> Some (Inl e)
      | Inr src_i \<Rightarrow>
          (case (rstr_get (sa_source sa) (size_add src_i (size_dec tlen)), rstr_get tgt (size_dec tlen)) of
             (Inr a, Inr b) \<Rightarrow> (if a \<noteq> b then Some (Inr acc) else back_loop sa tgt tlen s' (src_i # acc))
           | (Inl e, _) \<Rightarrow> Some (Inl e)
           | (_, Inl e) \<Rightarrow> Some (Inl e)))"

declare back_loop.simps [code]

text \<open>\<open>while(middle++ <= source_len)\<close> walks up, reading the position after the
  test, and stops at a suffix too short or with a differing last byte.\<close>

function fwd_loop :: "sarray \<Rightarrow> bytes \<Rightarrow> nat \<Rightarrow> nat \<Rightarrow> nat list sares" where
  "fwd_loop sa tgt tlen middle =
     (if middle \<le> length (sa_source sa) then
        (let m' = middle + 1 in
         case arr_get (suffix_index sa) m' of
           Inl e \<Rightarrow> Inl e
         | Inr src_i \<Rightarrow>
             (if length (sa_source sa) < src_i + tlen then Inr []
              else
                (case (rstr_get (sa_source sa) (size_add src_i (size_dec tlen)), rstr_get tgt (size_dec tlen)) of
                   (Inr a, Inr b) \<Rightarrow>
                     (if a \<noteq> b then Inr [] else map_sum id (Cons src_i) (fwd_loop sa tgt tlen m'))
                 | (Inl e, _) \<Rightarrow> Inl e
                 | (_, Inl e) \<Rightarrow> Inl e)))
      else Inr [])"
  by pat_completeness auto
termination
  by (relation "measure (\<lambda>(sa, tgt, tlen, middle). Suc (length (sa_source sa)) - middle)") auto

definition SuffixArray_match :: "sarray \<Rightarrow> bytes \<Rightarrow> nat list sares option" where
  "SuffixArray_match sa tgt =
     do {
       (start, tlen) \<leftarrow> find_longest_match sa tgt 0 (length tgt);
       (if tlen = length tgt then
          do {
            b \<leftarrow> back_loop sa tgt tlen start [];
            Some (case b of
                    Inl e \<Rightarrow> Inl e
                  | Inr back \<Rightarrow>
                      (case fwd_loop sa tgt tlen start of
                         Inl e \<Rightarrow> Inl e
                       | Inr fwd \<Rightarrow> Inr (back @ [suffix_index sa ! start] @ fwd)))
          }
        else Some (Inr []))
     }"

section \<open>\<open>longest_nonmatch\<close>\<close>

text \<open>The scan over the target: a byte whose first suffix in the table does not start
  with it is skipped; otherwise the longest match from here is searched, and kept
  when it is longer than \<open>min\<close>, else skipped. The result is the scan position and
  the last match start and length.\<close>

partial_function (option) nonmatch_loop ::
  "sarray \<Rightarrow> bytes \<Rightarrow> nat \<Rightarrow> nat \<Rightarrow> (nat \<times> nat \<times> nat) option" where
  "nonmatch_loop sa tgt mn scan =
     (if scan < length tgt then
        (if tgt ! scan \<noteq> rstr_byte (sa_source sa) (suffix_index sa ! (starts sa ! unat (tgt ! scan)))
         then nonmatch_loop sa tgt mn (scan + 1)
         else
           do {
             (ms, ml) \<leftarrow> find_longest_match sa tgt scan (length tgt - scan);
             (if ml = 0 then Some (scan, ms, 0)
              else if mn < ml then Some (scan, ms, ml)
              else nonmatch_loop sa tgt mn (scan + ml))
           })
      else Some (scan, 0, 0))"

declare nonmatch_loop.simps [code]

text \<open>\<open>size_t min = NUM2INT(min_match)\<close>: a negative bound wraps to a huge one.\<close>

definition SuffixArray_longest_nonmatch :: "sarray \<Rightarrow> bytes \<Rightarrow> nat \<Rightarrow> int \<Rightarrow> (nat \<times> nat \<times> nat) option option" where
  "SuffixArray_longest_nonmatch sa tgt from mn =
     (if length tgt < from then Some None
      else map_option (\<lambda>(scan, ms, ml). Some (scan - from, suffix_index sa ! ms, ml))
             (nonmatch_loop sa tgt (nat (mn mod 2 ^ 64)) from))"

section \<open>\<open>all_starts\<close>\<close>

function all_starts_loop :: "sarray \<Rightarrow> nat \<Rightarrow> nat \<Rightarrow> nat list sares" where
  "all_starts_loop sa ch start =
     (case arr_get (ends sa) ch of
        Inl e \<Rightarrow> Inl e
      | Inr en \<Rightarrow>
          (if start \<le> en then
             (case arr_get (suffix_index sa) start of
                Inl e \<Rightarrow> Inl e
              | Inr v \<Rightarrow> map_sum id (Cons v) (all_starts_loop sa ch (start + 1)))
           else Inr []))"
  by pat_completeness auto
termination
  by (relation "measure (\<lambda>(sa, ch, start). Suc (ends sa ! ch) - start)")
     (auto simp: arr_get_def split: if_split_asm)

text \<open>\<open>(size_t)RSTRING(char_str)->ptr[0]\<close> converts a \<open>char\<close>, signed on the x86
  targets: a byte from 128 on becomes a huge index.\<close>

definition char_index :: "byte \<Rightarrow> nat" where
  "char_index b = (if unat b < 128 then unat b else 2 ^ 64 - 256 + unat b)"

definition SuffixArray_all_starts :: "sarray \<Rightarrow> bytes \<Rightarrow> nat list sares" where
  "SuffixArray_all_starts sa str =
     (if str = [] then Inr []
      else (case arr_get (starts sa) (char_index (hd str)) of
              Inl e \<Rightarrow> Inl e
            | Inr st \<Rightarrow> all_starts_loop sa (char_index (hd str)) st))"

section \<open>Examples\<close>

definition hello :: bytes where
  "hello = [104, 101, 108, 108, 111]"

definition hello_sa :: sarray where
  "hello_sa = (case SuffixArray_initialize hello of
                 Inr sa \<Rightarrow> sa
               | Inl _ \<Rightarrow> \<lparr>sa_source = [], suffix_index = [], starts = [], ends = []\<rparr>)"

section \<open>Invariant of the search\<close>

text \<open>The match kept by \<open>find_longest_match\<close> is a real one: the suffix at the kept
  position starts with \<open>len\<close> bytes of the target.\<close>

definition flm_inv :: "bytes \<Rightarrow> bytes \<Rightarrow> nat \<Rightarrow> nat list \<Rightarrow> nat \<Rightarrow> nat \<Rightarrow> bool" where
  "flm_inv src tgt toff sa lst len \<longleftrightarrow>
     lst < length sa \<and> sa ! lst + len \<le> length src \<and> take len (drop (sa ! lst) src) = take len (drop toff tgt)"

text \<open>The shape of an initialized object: the suffix array is the sorted permutation
  of the positions, and the tables have an entry per byte.\<close>

definition sa_wf :: "sarray \<Rightarrow> bool" where
  "sa_wf sa \<longleftrightarrow>
     distinct (suffix_index sa) \<and> set (suffix_index sa) = {0..length (sa_source sa)} \<and>
     sorted_wrt (\<lambda>i j. drop i (sa_source sa) \<le> drop j (sa_source sa)) (suffix_index sa) \<and>
     length (starts sa) = 256 \<and> length (ends sa) = 256"

section \<open>Lemmas\<close>

lemma scan_len_facts:
  assumes "i \<le> tlen" "i \<le> slen" "\<forall>j<i. rstr_byte tgt (toff + j) = rstr_byte src (off + j)"
  shows "i \<le> scan_len src off slen tgt toff tlen i \<and> scan_len src off slen tgt toff tlen i \<le> tlen \<and>
         scan_len src off slen tgt toff tlen i \<le> slen \<and>
         (\<forall>j < scan_len src off slen tgt toff tlen i. rstr_byte tgt (toff + j) = rstr_byte src (off + j))"
  using assms
proof (induction src off slen tgt toff tlen i rule: scan_len.induct)
  case (1 src off slen tgt toff tlen i)
  show ?case
  proof (cases "i < tlen \<and> i < slen \<and> rstr_byte tgt (toff + i) = rstr_byte src (off + i)")
    case True
    have "\<forall>j<Suc i. rstr_byte tgt (toff + j) = rstr_byte src (off + j)"
      using True "1.prems"(3) less_Suc_eq by auto
    moreover have "scan_len src off slen tgt toff tlen i = scan_len src off slen tgt toff tlen (Suc i)"
      using True by (subst scan_len.simps) simp
    ultimately show ?thesis using True "1.IH" by fastforce
  next
    case False
    then have "scan_len src off slen tgt toff tlen i = i" by (subst scan_len.simps) auto
    with "1.prems" show ?thesis by simp
  qed
qed

lemma scan_string_match:
  assumes "scan_string src off slen tgt toff tlen = (r, l)"
    and "off + slen \<le> length src" "toff + tlen \<le> length tgt"
  shows "take l (drop off src) = take l (drop toff tgt) \<and> l \<le> tlen \<and> l \<le> slen"
proof -
  have l: "l = scan_len src off slen tgt toff tlen 0"
    using assms(1) by (simp add: scan_string_def Let_def split: if_split_asm)
  note f = scan_len_facts [of 0 tlen slen tgt toff src off, folded l]
  have "\<forall>j<l. tgt ! (toff + j) = src ! (off + j)"
    using f assms(2,3) by (auto simp: rstr_byte_def)
  with f assms(2,3) show ?thesis by (auto intro!: nth_equalityI)
qed

lemma flm_step_inv:
  assumes A: "length sa = length src + 1" and B: "list_all (\<lambda>i. i \<le> length src) sa"
    and C: "toff + tlen \<le> length tgt" and m: "middle \<le> length src" and I: "flm_inv src tgt toff sa lst len"
    and sc: "scan_string src (sa ! middle) (length src - sa ! middle) tgt toff tlen = (r, sl)"
  shows "flm_inv src tgt toff sa (if len < sl then middle else lst) (if len < sl then sl else len)"
proof (cases "len < sl")
  case True
  have mi: "middle < length sa" using A m by simp
  then have le: "sa ! middle \<le> length src" using B by (simp add: list_all_length)
  have "take sl (drop (sa ! middle) src) = take sl (drop toff tgt) \<and> sl \<le> tlen \<and> sl \<le> length src - sa ! middle"
    using scan_string_match [OF sc _ C] le by simp
  with True mi le show ?thesis by (auto simp: flm_inv_def)
next
  case False
  with I show ?thesis by simp
qed

lemma flm_loop_sound:
  assumes "flm_loop src tgt toff tlen sa low high middle len lst = Some y"
  shows "length sa = length src + 1 \<longrightarrow> list_all (\<lambda>i. i \<le> length src) sa \<longrightarrow> toff + tlen \<le> length tgt \<longrightarrow>
         flm_inv src tgt toff sa lst len \<longrightarrow> flm_inv src tgt toff sa (fst y) (snd y)"
  apply (rule flm_loop.raw_induct [OF _ assms])
  subgoal premises p for f s t to tl a lo hi mi le ls r
  proof (intro impI)
    assume A: "length a = length s + 1" and B: "list_all (\<lambda>i. i \<le> length s) a"
      and C: "to + tl \<le> length t" and I: "flm_inv s t to a ls le"
    show "flm_inv s t to a (fst r) (snd r)"
    proof (cases "lo \<le> hi \<and> hi \<le> length s \<and> mi \<le> length s \<and> le \<noteq> tl")
      case True
      obtain res sl where sc: "scan_string s (a ! mi) (length s - a ! mi) t to tl = (res, sl)" by fastforce
      have I': "flm_inv s t to a (if le < sl then mi else ls) (if le < sl then sl else le)"
        using flm_step_inv [OF A B C _ I sc] True by simp
      have rec: "flm_inv s t to a (fst r) (snd r)"
        if "f s t to tl a lo' hi' mi' (if le < sl then sl else le) (if le < sl then mi else ls) = Some r" for lo' hi' mi'
        using p(1) [OF that] A B C I' by simp
      show ?thesis using p(2) True sc I' rec by (auto simp: Let_def split: if_split_asm)
    next
      case False
      with p(2) I show ?thesis by auto
    qed
  qed
  done

lemma initialize_ok:
  "SuffixArray_initialize src = Inr sa \<Longrightarrow>
   sa_source sa = src \<and> length (suffix_index sa) = length src + 1 \<and>
   list_all (\<lambda>i. i \<le> length src) (suffix_index sa)"
  by (auto simp: SuffixArray_initialize_def bsarray_def Let_def list_all_iff split: if_split_asm prod.split_asm)

text \<open>C35. Every match that \<open>longest_match\<close> reports is an occurrence: the
  \<open>l\<close> bytes of the source from the reported start are the \<open>l\<close> bytes of the target
  from \<open>from\<close> on, and they lie inside the source.\<close>

theorem longest_match_sound:
  assumes i: "SuffixArray_initialize src = Inr sa"
    and m: "SuffixArray_longest_match sa tgt from = Some (Some (p, l))"
  shows "p + l \<le> length src \<and> take l (drop p src) = take l (drop from tgt)"
proof -
  note ok = initialize_ok [OF i]
  from m have fr: "from \<le> length tgt" by (auto simp: SuffixArray_longest_match_def split: if_split_asm)
  from m fr obtain start where f: "find_longest_match sa tgt from (length tgt - from) = Some (start, l)"
    and p: "p = suffix_index sa ! start"
    by (auto simp: SuffixArray_longest_match_def split: if_split_asm)
  have i0: "flm_inv src tgt from (suffix_index sa) 0 0"
    using ok by (cases "suffix_index sa") (auto simp: flm_inv_def)
  have "flm_inv src tgt from (suffix_index sa) start l"
    using flm_loop_sound [OF f [unfolded find_longest_match_def Let_def]] ok fr i0 by simp
  with p show ?thesis by (simp add: flm_inv_def)
qed

lemma size_add_small: "a + b < 2 ^ 64 \<Longrightarrow> size_add a b = a + b"
  by (simp add: size_add_def)

lemma flm_loop_terminates:
  "length src < 2 ^ 63 \<Longrightarrow> middle = size_add low high div 2 \<Longrightarrow>
   \<exists>r. flm_loop src tgt toff tlen sa low high middle len lst = Some r"
proof (induction "Suc high - low" arbitrary: low high middle len lst rule: less_induct)
  case less
  show ?case
  proof (cases "low \<le> high \<and> high \<le> length src \<and> middle \<le> length src \<and> len \<noteq> tlen")
    case True
    have mid: "middle = (low + high) div 2"
      using less.prems True by (simp add: size_add_small)
    have lm: "low \<le> middle" and mh: "middle \<le> high" using True mid by auto
    obtain res sl where sc: "scan_string src (sa ! middle) (length src - sa ! middle) tgt toff tlen = (res, sl)"
      by fastforce
    define len' where "len' = (if len < sl then sl else len)"
    define lst' where "lst' = (if len < sl then middle else lst)"
    have down: "\<exists>r. flm_loop src tgt toff tlen sa low (size_dec middle) (size_add low (size_dec middle) div 2) len' lst' = Some r"
    proof (cases "middle = 0")
      case True
      then have "\<not> size_dec middle \<le> length src" using less.prems(1) by (simp add: size_dec_def SIZE_MAX_def)
      then show ?thesis by (subst flm_loop.simps) simp
    next
      case False
      then have "Suc (size_dec middle) - low < Suc high - low" using lm mh by (simp add: size_dec_def)
      then show ?thesis using less.hyps less.prems(1) by blast
    qed
    have up: "\<exists>r. flm_loop src tgt toff tlen sa (middle + 1) high (size_add (middle + 1) high div 2) len' lst' = Some r"
    proof -
      have "Suc high - (middle + 1) < Suc high - low" using lm mh by simp
      then show ?thesis using less.hyps less.prems(1) by blast
    qed
    show ?thesis using True sc down up
      by (subst flm_loop.simps) (auto simp: Let_def len'_def [symmetric] lst'_def [symmetric])
  next
    case False
    then show ?thesis by (subst flm_loop.simps) auto
  qed
qed

text \<open>C36. The binary search of \<open>find_longest_match\<close> always ends on sources
  shorter than \<open>2^63\<close> bytes (so that \<open>low + high\<close> does not wrap): each round
  either stops or narrows the range, and \<open>middle - 1\<close> wrapping at 0 makes the
  range leave the array.\<close>

theorem find_longest_match_terminates:
  "length (sa_source sa) < 2 ^ 63 \<Longrightarrow> \<exists>r. find_longest_match sa tgt toff tlen = Some r"
  unfolding find_longest_match_def Let_def by (rule flm_loop_terminates) simp_all

lemma table_step_length:
  "table_step src sa i (st, en, c) = (st', en', c') \<Longrightarrow> length st' = length st \<and> length en' = length en"
  by (auto simp: table_step_def Let_def split: if_splits)

lemma fold_table_step_length:
  "fold (table_step src sa) ixs (st, en, c) = (st', en', c') \<Longrightarrow> length st' = length st \<and> length en' = length en"
proof (induction ixs arbitrary: st en c)
  case (Cons i ixs)
  obtain st1 en1 c1 where s: "table_step src sa i (st, en, c) = (st1, en1, c1)" by (cases "table_step src sa i (st, en, c)")
  then show ?case using Cons.IH [of st1 en1 c1] Cons.prems table_step_length [OF s] by simp
qed simp

lemma build_tables_length:
  "build_tables src sa = (st, en) \<Longrightarrow> length st = 256 \<and> length en = 256"
  unfolding build_tables_def Let_def
  by (auto split: prod.splits dest!: fold_table_step_length)


section \<open>Defects\<close>

text \<open>\<open>SuffixArray_initialize\<close> never looks at the last position of the suffix
  array (its loop stops at \<open>len - 1\<close>), so the range of the greatest leading byte
  misses its last suffix. On \<open>"ab"\<close>, \<open>longest_match("b")\<close> reports no match (length
  0) and \<open>all_starts("b")\<close> gives the position of the empty suffix, though \<open>b\<close> occurs
  at 1; on \<open>"abb"\<close>, \<open>all_starts("b")\<close> misses the occurrence at 1, and a byte that
  does not occur yields the empty suffix's position instead of no position.\<close>

theorem sarray_last_position_lost:
  "(case SuffixArray_initialize [97, 98] of
      Inr sa \<Rightarrow> SuffixArray_longest_match sa [98] 0 = Some (Some (2, 0)) \<and>
                SuffixArray_all_starts sa [98] = Inr [2] \<and> take 1 (drop 1 (sa_source sa)) = [98]
    | Inl _ \<Rightarrow> False) \<and>
   (case SuffixArray_initialize [97, 98, 98] of
      Inr sa \<Rightarrow> SuffixArray_all_starts sa [98] = Inr [2] \<and> SuffixArray_all_starts sa [122] = Inr [3]
    | Inl _ \<Rightarrow> False)"
  by code_simp

text \<open>\<open>match\<close> reads outside the suffix array: after a match at the greatest
  suffix, \<open>while(middle++ <= source_len)\<close> reads position \<open>len + 1\<close>; and for the empty
  target the walk down starts at position 0 and reads position \<open>SIZE_MAX\<close>.\<close>

theorem sarray_match_overrun:
  "(case SuffixArray_initialize [97] of
      Inr sa \<Rightarrow> SuffixArray_match sa [97] = Some (Inl SA_OOB) \<and> SuffixArray_match sa [] = Some (Inl SA_OOB)
    | Inl _ \<Rightarrow> False)"
  by code_simp

text \<open>\<open>all_starts\<close> indexes the tables with a \<open>char\<close> converted to \<open>size_t\<close>:
  a first byte from 128 on is sign-extended and the read falls outside the 256
  entries.\<close>

theorem sarray_all_starts_signed_char:
  "(case SuffixArray_initialize [200, 97] of
      Inr sa \<Rightarrow> SuffixArray_all_starts sa [200] = Inl SA_OOB
    | Inl _ \<Rightarrow> False)"
  by code_simp

section \<open>Witnesses\<close>

lemma hello_init: "SuffixArray_initialize hello = Inr hello_sa"
  by code_simp


lemma hello_match: "SuffixArray_longest_match hello_sa [120, 108, 108, 111] 1 = Some (Some (2, 3))"
  by code_simp

theorem longest_match_sound_witness:
  "SuffixArray_initialize hello = Inr hello_sa \<and>
   SuffixArray_longest_match hello_sa [120, 108, 108, 111] 1 = Some (Some (2, 3)) \<and>
   take 3 (drop 2 hello) = take 3 (drop 1 [120, 108, 108, 111])"
  using longest_match_sound [OF hello_init hello_match] hello_init hello_match by simp

lemma hello_len: "length (sa_source hello_sa) < 2 ^ 63"
  by code_simp

theorem find_longest_match_terminates_witness:
  "length (sa_source hello_sa) < 2 ^ 63 \<and> (\<exists>r. find_longest_match hello_sa [108] 0 1 = Some r)"
  using find_longest_match_terminates [OF hello_len] hello_len by simp

end
