(* ===== verification/Result_Set.thy ===== *)
theory Result_Set
  imports Villa_Tran
begin

text \<open>
  The \<open>Odeum::ResultSet\<close> class of the Ruby binding (src/ext/odeum_index/odeum_index.c):
  the C struct \<open>ResultSetData\<close> holding the \<open>ODPAIR\<close> array returned by \<open>odsearch\<close>
  or \<open>odquery\<close>, its length and an iteration index, with the methods \<open>next\<close>, \<open>move\<close>,
  \<open>score\<close>, \<open>id\<close>, \<open>index\<close>, \<open>length\<close>, \<open>[]\<close>, \<open>to_a\<close>, \<open>errors\<close>, \<open>marshal_dump\<close> and
  \<open>marshal_load\<close>, and the list conversions \<open>CBLIST_2_array\<close> and \<open>array_2_CBLIST\<close>
  over the Cabin list model. The pair array is the raw memory the C code reads: a
  byte list holding each \<open>ODPAIR\<close> (\<open>int id; int score\<close>) as eight little-endian
  bytes; a read outside it is the error value \<open>RS_OOB\<close>. A raised Ruby exception is
  \<open>RS_Raise\<close> with the exception's class and message. The C \<open>int\<close> fields wrap around
  as 32-bit numbers (\<open>wrap32\<close>), and \<open>FIX2INT\<close> raises \<open>RangeError\<close> outside the
  \<open>int\<close> range.
\<close>

section \<open>Ruby values and errors\<close>

datatype rvalue = RNil | RFix int | RStr bytes | RAry "rvalue list"

datatype rs_error = RS_OOB | RS_Raise string string

type_synonym 'a rsres = "rs_error + 'a"

text \<open>\<open>rb_ary_entry\<close>: \<open>nil\<close> past the end.\<close>

definition rb_ary_entry :: "rvalue list \<Rightarrow> nat \<Rightarrow> rvalue" where
  "rb_ary_entry a i = (if i < length a then a ! i else RNil)"

definition wrap32 :: "int \<Rightarrow> int" where
  "wrap32 x = sint (word_of_int x :: 32 word)"

definition FIX2INT :: "int \<Rightarrow> int rsres" where
  "FIX2INT n = (if int32 n then Inr n else Inl (RS_Raise ''RangeError'' ''integer too big to convert to int''))"

section \<open>List conversions\<close>

definition CBLIST_2_array :: "cblist \<Rightarrow> bytes list" where
  "CBLIST_2_array l = map (\<lambda>i. case cblistval l i of Some v \<Rightarrow> v | None \<Rightarrow> []) [0..<num l]"

text \<open>\<open>array_2_CBLIST\<close> pushes the entries up to the first \<open>nil\<close>; \<open>RSTRING\<close> of an
  entry that is not a string reads memory that is not a string.\<close>

fun array_2_CBLIST_loop :: "rvalue list \<Rightarrow> cblist \<Rightarrow> cblist rsres" where
  "array_2_CBLIST_loop [] l = Inr l"
| "array_2_CBLIST_loop (RNil # _) l = Inr l"
| "array_2_CBLIST_loop (RStr s # vs) l = array_2_CBLIST_loop vs (cblistpush l s)"
| "array_2_CBLIST_loop (_ # _) l = Inl RS_OOB"

definition array_2_CBLIST :: "rvalue list \<Rightarrow> cblist rsres" where
  "array_2_CBLIST ary = array_2_CBLIST_loop ary cblistopen"

section \<open>The pair array\<close>

text \<open>\<open>ODPAIR\<close> of odeum.h (outside the repository): a document id and its score.\<close>

record odpair =
  pair_id :: int
  pair_score :: int

definition pair_enc :: "odpair \<Rightarrow> bytes" where
  "pair_enc p = int_enc (pair_id p) @ int_enc (pair_score p)"

definition pairs_enc :: "odpair list \<Rightarrow> bytes" where
  "pairs_enc ps = concat (map pair_enc ps)"

text \<open>\<open>data[i]\<close>: the eight bytes of the \<open>i\<close>-th pair, inside the buffer.\<close>

definition pair_at :: "bytes \<Rightarrow> int \<Rightarrow> odpair rsres" where
  "pair_at data i =
     (if 0 \<le> i \<and> 8 * nat i + 8 \<le> length data then
        Inr \<lparr>pair_id = sint (le32 (take 4 (drop (8 * nat i) data))),
             pair_score = sint (le32 (take 4 (drop (8 * nat i + 4) data)))\<rparr>
      else Inl RS_OOB)"

section \<open>The object\<close>

text \<open>\<open>ResultSetData\<close> and the \<open>@errors\<close> instance variable.\<close>

record resultset =
  rs_data :: bytes
  rs_length :: int
  rs_index :: int
  rs_errors :: rvalue

text \<open>\<open>Data_Make_Struct\<close> zeroes the struct; \<open>@errors\<close> is unset.\<close>

definition ResultSet_alloc :: resultset where
  "ResultSet_alloc = \<lparr>rs_data = [], rs_length = 0, rs_index = 0, rs_errors = RNil\<rparr>"

definition ResultSet_create :: "odpair list \<Rightarrow> int \<Rightarrow> cblist option \<Rightarrow> resultset" where
  "ResultSet_create pairs len errors =
     ResultSet_alloc\<lparr>rs_data := pairs_enc pairs, rs_length := len, rs_index := 0,
                     rs_errors := RAry (map RStr (case errors of Some l \<Rightarrow> CBLIST_2_array l | None \<Rightarrow> []))\<rparr>"

definition ResultSet_next :: "resultset \<Rightarrow> (resultset \<times> int option) rsres" where
  "ResultSet_next rs =
     (if rs_index rs < 0 \<or> rs_length rs \<le> rs_index rs then Inr (rs, None)
      else (case pair_at (rs_data rs) (rs_index rs) of
              Inl e \<Rightarrow> Inl e
            | Inr p \<Rightarrow> Inr (rs\<lparr>rs_index := rs_index rs + 1\<rparr>, Some (pair_id p))))"

text \<open>\<open>rs->index += move - 1\<close>, then clamped to \<open>0 .. length\<close>.\<close>

definition ResultSet_move :: "resultset \<Rightarrow> int \<Rightarrow> resultset rsres" where
  "ResultSet_move rs count =
     (case FIX2INT count of
        Inl e \<Rightarrow> Inl e
      | Inr move \<Rightarrow>
          (if move = 0 then Inr (rs\<lparr>rs_index := 0\<rparr>)
           else (let i = wrap32 (rs_index rs + wrap32 (move - 1))
                 in Inr (rs\<lparr>rs_index := (if i < 0 then 0 else if rs_length rs < i then rs_length rs else i)\<rparr>))))"

text \<open>The element \<open>score\<close>, \<open>id\<close> and \<open>index\<close> report: the one before the index, or
  the first before any \<open>next\<close>.\<close>

definition cur_pos :: "resultset \<Rightarrow> int" where
  "cur_pos rs = (if rs_index rs = 0 then 0 else wrap32 (rs_index rs - 1))"

definition ResultSet_score :: "resultset \<Rightarrow> int option rsres" where
  "ResultSet_score rs =
     (let i = cur_pos rs
      in if 0 \<le> i \<and> i < rs_length rs then map_sum id (\<lambda>p. Some (pair_score p)) (pair_at (rs_data rs) i)
         else Inr None)"

definition ResultSet_id :: "resultset \<Rightarrow> int option rsres" where
  "ResultSet_id rs =
     (let i = cur_pos rs
      in if 0 \<le> i \<and> i < rs_length rs then map_sum id (\<lambda>p. Some (pair_id p)) (pair_at (rs_data rs) i)
         else Inr None)"

definition ResultSet_index :: "resultset \<Rightarrow> int" where
  "ResultSet_index rs = cur_pos rs"

definition ResultSet_length :: "resultset \<Rightarrow> int" where
  "ResultSet_length rs = rs_length rs"

definition ResultSet_at :: "resultset \<Rightarrow> int \<Rightarrow> (int \<times> int) option rsres" where
  "ResultSet_at rs index =
     (case FIX2INT index of
        Inl e \<Rightarrow> Inl e
      | Inr i \<Rightarrow>
          (if i < 0 \<or> rs_length rs \<le> i then Inr None
           else map_sum id (\<lambda>p. Some (pair_id p, pair_score p)) (pair_at (rs_data rs) i)))"

fun to_a_loop :: "bytes \<Rightarrow> nat list \<Rightarrow> (int \<times> int) list rsres" where
  "to_a_loop data [] = Inr []"
| "to_a_loop data (i # is) =
     (case pair_at data (int i) of
        Inl e \<Rightarrow> Inl e
      | Inr p \<Rightarrow> map_sum id (Cons (pair_id p, pair_score p)) (to_a_loop data is))"

definition ResultSet_to_a :: "resultset \<Rightarrow> (int \<times> int) list rsres" where
  "ResultSet_to_a rs = to_a_loop (rs_data rs) [0..<nat (rs_length rs)]"

definition ResultSet_errors :: "resultset \<Rightarrow> rvalue" where
  "ResultSet_errors rs = rs_errors rs"

section \<open>Marshalling\<close>

text \<open>\<open>[length, index, pairs]\<close>, the pairs copied as \<open>length * sizeof(ODPAIR)\<close> bytes
  (a negative size is refused by \<open>rb_str_buf_new\<close>).\<close>

definition ResultSet_marshal_dump :: "resultset \<Rightarrow> rvalue rsres" where
  "ResultSet_marshal_dump rs =
     (let n = rs_length rs * 8
      in if n < 0 then Inl (RS_Raise ''ArgumentError'' ''negative string size (or size too big)'')
         else if int (length (rs_data rs)) < n then Inl RS_OOB
         else Inr (RAry [RFix (rs_length rs), RFix (rs_index rs), RStr (take (nat n) (rs_data rs))]))"

definition require_fixnum :: "rvalue \<Rightarrow> string \<Rightarrow> int rsres" where
  "require_fixnum v name =
     (case v of
        RFix n \<Rightarrow> FIX2INT n
      | _ \<Rightarrow> Inl (RS_Raise ''TypeError'' (''Wrong argument type for '' @ name @ '' required T_FIXNUM'')))"

definition require_string :: "rvalue \<Rightarrow> string \<Rightarrow> bytes rsres" where
  "require_string v name =
     (case v of
        RStr s \<Rightarrow> Inr s
      | _ \<Rightarrow> Inl (RS_Raise ''TypeError'' (''Wrong argument type for '' @ name @ '' required T_STRING'')))"

text \<open>\<open>rb_ary_entry\<close> of a value that is not an array reads memory that is not an
  array. The pairs are copied whatever their size.\<close>

definition ResultSet_marshal_load :: "resultset \<Rightarrow> rvalue \<Rightarrow> resultset rsres" where
  "ResultSet_marshal_load rs data =
     (case data of
        RAry a \<Rightarrow>
          (case require_fixnum (rb_ary_entry a 0) ''len'' of
             Inl e \<Rightarrow> Inl e
           | Inr len \<Rightarrow>
               (case require_fixnum (rb_ary_entry a 1) ''ind'' of
                  Inl e \<Rightarrow> Inl e
                | Inr ind \<Rightarrow>
                    (case require_string (rb_ary_entry a 2) ''pairs'' of
                       Inl e \<Rightarrow> Inl e
                     | Inr pairs \<Rightarrow> Inr (rs\<lparr>rs_length := len, rs_index := ind, rs_data := pairs\<rparr>))))
      | _ \<Rightarrow> Inl RS_OOB)"

section \<open>The methods as operations\<close>

datatype rs_op = RSNext | RSMove int | RSScore | RSId | RSIndex | RSLength | RSAt int | RSToA | RSErrors

text \<open>The object after a method call; the methods other than \<open>next\<close> and \<open>move\<close> only
  read it.\<close>

fun rs_step :: "rs_op \<Rightarrow> resultset \<Rightarrow> resultset rsres" where
  "rs_step RSNext rs = map_sum id fst (ResultSet_next rs)"
| "rs_step (RSMove n) rs = ResultSet_move rs n"
| "rs_step RSScore rs = map_sum id (\<lambda>_. rs) (ResultSet_score rs)"
| "rs_step RSId rs = map_sum id (\<lambda>_. rs) (ResultSet_id rs)"
| "rs_step RSIndex rs = Inr rs"
| "rs_step RSLength rs = Inr rs"
| "rs_step (RSAt i) rs = map_sum id (\<lambda>_. rs) (ResultSet_at rs i)"
| "rs_step RSToA rs = map_sum id (\<lambda>_. rs) (ResultSet_to_a rs)"
| "rs_step RSErrors rs = Inr rs"

text \<open>Calling \<open>next\<close> until it returns \<open>nil\<close>, with at most \<open>fuel\<close> calls.\<close>

fun next_all :: "nat \<Rightarrow> resultset \<Rightarrow> (int list \<times> resultset) option rsres" where
  "next_all 0 rs = Inr None"
| "next_all (Suc n) rs =
     (case ResultSet_next rs of
        Inl e \<Rightarrow> Inl e
      | Inr (rs', None) \<Rightarrow> Inr (Some ([], rs'))
      | Inr (rs', Some i) \<Rightarrow> map_sum id (map_option (\<lambda>(is, r). (i # is, r))) (next_all n rs'))"

section \<open>Invariant\<close>

text \<open>A result set as \<open>ResultSet_create\<close> builds it and the methods keep it: the index
  between 0 and the length, and the pair array holding \<open>length\<close> pairs.\<close>

definition rs_ok :: "resultset \<Rightarrow> bool" where
  "rs_ok rs \<longleftrightarrow> 0 \<le> rs_index rs \<and> rs_index rs \<le> rs_length rs \<and> rs_length rs < 2 ^ 31 \<and>
                8 * nat (rs_length rs) \<le> length (rs_data rs)"

text \<open>The arguments the methods convert with \<open>FIX2INT\<close> are C \<open>int\<close>s.\<close>

definition op_args_ok :: "rs_op \<Rightarrow> bool" where
  "op_args_ok op = (case op of RSMove n \<Rightarrow> int32 n | RSAt n \<Rightarrow> int32 n | _ \<Rightarrow> True)"

text \<open>A sequence of method calls; a raised exception ends it.\<close>

fun rs_run :: "rs_op list \<Rightarrow> resultset \<Rightarrow> resultset rsres" where
  "rs_run [] rs = Inr rs"
| "rs_run (op # ops) rs = (case rs_step op rs of Inl e \<Rightarrow> Inl e | Inr rs' \<Rightarrow> rs_run ops rs')"

text \<open>The pairs \<open>odsearch\<close> returns hold C \<open>int\<close>s.\<close>

definition pairs_int32 :: "odpair list \<Rightarrow> bool" where
  "pairs_int32 ps \<longleftrightarrow> list_all (\<lambda>p. int32 (pair_id p) \<and> int32 (pair_score p)) ps"

section \<open>Examples\<close>

definition ex_pairs :: "odpair list" where
  "ex_pairs = [\<lparr>pair_id = 5, pair_score = 10\<rparr>, \<lparr>pair_id = 7, pair_score = -3\<rparr>, \<lparr>pair_id = 9, pair_score = 1\<rparr>]"

definition ex_rs :: resultset where
  "ex_rs = ResultSet_create ex_pairs 3 None"

section \<open>Lemmas\<close>

lemma length_pair_enc [simp]: "length (pair_enc p) = 8"
  by (simp add: pair_enc_def)

lemma length_pairs_enc [simp]: "length (pairs_enc ps) = 8 * length ps"
  by (induction ps) (simp_all add: pairs_enc_def)

lemma drop_pairs_enc: "drop (8 * i) (pairs_enc ps) = pairs_enc (drop i ps)"
proof (induction ps arbitrary: i)
  case (Cons p ps)
  then show ?case
    by (cases i) (simp_all add: pairs_enc_def)
qed (simp add: pairs_enc_def)

lemma pair_at_pairs_enc:
  assumes "pairs_int32 ps" and "i < length ps"
  shows "pair_at (pairs_enc ps) (int i) = Inr (ps ! i)"
proof -
  have d: "drop (8 * i) (pairs_enc ps) = int_enc (pair_id (ps ! i)) @ int_enc (pair_score (ps ! i)) @ pairs_enc (drop (Suc i) ps)"
  proof -
    have "drop i ps = ps ! i # drop (Suc i) ps"
      using assms(2) by (rule Cons_nth_drop_Suc [symmetric])
    then show ?thesis
      by (simp add: drop_pairs_enc) (simp add: pairs_enc_def pair_enc_def)
  qed
  have d4: "drop (8 * i + 4) (pairs_enc ps) = int_enc (pair_score (ps ! i)) @ pairs_enc (drop (Suc i) ps)"
    using arg_cong [OF d, of "drop 4"] by (simp add: add.commute)
  have r: "int32 (pair_id (ps ! i))" "int32 (pair_score (ps ! i))"
    using assms by (simp_all add: pairs_int32_def list_all_length)
  show ?thesis
    using assms(2) r by (simp add: pair_at_def d d4 int32_def sint_le32_int_enc)
qed

lemma pair_at_ok: "rs_ok rs \<Longrightarrow> 0 \<le> i \<Longrightarrow> i < rs_length rs \<Longrightarrow> \<exists>p. pair_at (rs_data rs) i = Inr p"
  unfolding rs_ok_def pair_at_def by auto

lemma wrap32_id: "int32 x \<Longrightarrow> wrap32 x = x"
  by (simp add: wrap32_def int32_def sint_word_of_int_32)

lemma to_a_loop_ok:
  "\<forall>i \<in> set is. \<exists>p. pair_at data (int i) = Inr p \<Longrightarrow> \<exists>r. to_a_loop data is = Inr r"
  by (induction "is") auto

lemma FIX2INT_ok [simp]: "int32 n \<Longrightarrow> FIX2INT n = Inr n"
  by (simp add: FIX2INT_def)

lemma rs_step_ok:
  assumes ok: "rs_ok rs" and args: "op_args_ok op"
  shows "\<exists>rs'. rs_step op rs = Inr rs' \<and> rs_ok rs'"
proof (cases op)
  case RSNext
  show ?thesis
  proof (cases "rs_index rs < 0 \<or> rs_length rs \<le> rs_index rs")
    case True
    then show ?thesis using ok RSNext by (simp add: ResultSet_next_def)
  next
    case False
    then obtain p where "pair_at (rs_data rs) (rs_index rs) = Inr p"
      using pair_at_ok [OF ok, of "rs_index rs"] by auto
    then show ?thesis using ok RSNext False by (simp add: ResultSet_next_def rs_ok_def)
  qed
next
  case (RSMove n)
  then show ?thesis using ok args
    by (auto simp: ResultSet_move_def op_args_ok_def rs_ok_def Let_def)
next
  case RSScore
  then show ?thesis using ok pair_at_ok [OF ok, of "cur_pos rs"]
    by (auto simp: ResultSet_score_def Let_def)
next
  case RSId
  then show ?thesis using ok pair_at_ok [OF ok, of "cur_pos rs"]
    by (auto simp: ResultSet_id_def Let_def)
next
  case (RSAt i)
  then show ?thesis using ok args pair_at_ok [OF ok, of i]
    by (auto simp: ResultSet_at_def op_args_ok_def)
next
  case RSToA
  have "\<forall>i \<in> set [0..<nat (rs_length rs)]. \<exists>p. pair_at (rs_data rs) (int i) = Inr p"
    using pair_at_ok [OF ok] by auto
  then show ?thesis using ok RSToA to_a_loop_ok by (fastforce simp: ResultSet_to_a_def)
qed (use ok in simp_all)

text \<open>C38. Every sequence of method calls on a result set built by \<open>ResultSet_create\<close>
  (index within \<open>0 .. length\<close>, \<open>length\<close> pairs in the array) keeps that invariant
  and never reads outside the pair array, when the integer arguments are C \<open>int\<close>s.\<close>

theorem rs_run_invariant:
  "rs_ok rs \<Longrightarrow> list_all op_args_ok ops \<Longrightarrow> \<exists>rs'. rs_run ops rs = Inr rs' \<and> rs_ok rs'"
proof (induction ops arbitrary: rs)
  case (Cons op ops)
  then obtain rs1 where "rs_step op rs = Inr rs1" "rs_ok rs1"
    using rs_step_ok by fastforce
  then show ?case using Cons by simp
qed simp

lemma ResultSet_create_ok:
  "int (length ps) < 2 ^ 31 \<Longrightarrow> rs_ok (ResultSet_create ps (int (length ps)) e)"
  by (simp add: rs_ok_def ResultSet_create_def ResultSet_alloc_def)

text \<open>\<open>rs[i]\<close> on a result set built from \<open>odsearch\<close>'s pairs is the
  \<open>[id, score]\<close> pair at position \<open>i\<close>.\<close>

theorem ResultSet_at_create:
  assumes "pairs_int32 ps" and "int (length ps) < 2 ^ 31" and "0 \<le> i" and "i < int (length ps)"
  shows "ResultSet_at (ResultSet_create ps (int (length ps)) e) i = Inr (Some (pair_id (ps ! nat i), pair_score (ps ! nat i)))"
proof -
  have "int32 i" using assms by (simp add: int32_def)
  moreover have "pair_at (pairs_enc ps) (int (nat i)) = Inr (ps ! nat i)"
    using assms by (intro pair_at_pairs_enc) auto
  ultimately show ?thesis
    using assms by (simp add: ResultSet_at_def ResultSet_create_def ResultSet_alloc_def)
qed

lemma next_all_from:
  assumes "pairs_int32 ps"
  shows "rs_data rs = pairs_enc ps \<Longrightarrow> rs_length rs = int (length ps) \<Longrightarrow> rs_index rs = int k \<Longrightarrow>
         k \<le> length ps \<Longrightarrow>
         next_all (Suc (length ps - k)) rs = Inr (Some (map pair_id (drop k ps), rs\<lparr>rs_index := int (length ps)\<rparr>))"
proof (induction "length ps - k" arbitrary: k rs)
  case 0
  then have k: "rs_index rs = int (length ps)" by simp
  then have "ResultSet_next rs = Inr (rs, None)"
    using "0.prems" by (simp add: ResultSet_next_def)
  moreover have "rs\<lparr>rs_index := int (length ps)\<rparr> = rs"
    using k by simp
  ultimately show ?case using "0.hyps" "0.prems" by simp
next
  case (Suc m)
  then have k: "k < length ps" by simp
  have p: "pair_at (rs_data rs) (rs_index rs) = Inr (ps ! k)"
    using pair_at_pairs_enc [OF assms(1) k] Suc.prems by simp
  let ?rs1 = "rs\<lparr>rs_index := int (Suc k)\<rparr>"
  have n: "ResultSet_next rs = Inr (?rs1, Some (pair_id (ps ! k)))"
    using p k Suc.prems by (simp add: ResultSet_next_def)
  have IH: "next_all (Suc (length ps - Suc k)) ?rs1 = Inr (Some (map pair_id (drop (Suc k) ps), ?rs1\<lparr>rs_index := int (length ps)\<rparr>))"
    using Suc.hyps(1) [of "Suc k" ?rs1] Suc.hyps(2) Suc.prems k by simp
  have "length ps - k = Suc (length ps - Suc k)" using k by simp
  then show ?case
    using n IH k by (simp add: Cons_nth_drop_Suc [symmetric])
qed

text \<open>C39. Calling \<open>next\<close> on a new result set returns the document ids in order and
  then \<open>nil\<close>: \<open>length + 1\<close> calls are enough, and the index ends at the length.\<close>

theorem ResultSet_next_all:
  assumes "pairs_int32 ps" and "int (length ps) < 2 ^ 31"
  shows "next_all (Suc (length ps)) (ResultSet_create ps (int (length ps)) e) =
           Inr (Some (map pair_id ps, (ResultSet_create ps (int (length ps)) e)\<lparr>rs_index := int (length ps)\<rparr>))"
  using next_all_from [OF assms(1), of "ResultSet_create ps (int (length ps)) e" 0]
  by (simp add: ResultSet_create_def ResultSet_alloc_def)

text \<open>C40. \<open>marshal_load\<close> of what \<open>marshal_dump\<close> returned restores the pairs, the
  length and the index; the \<open>@errors\<close> array is not part of the dump and is left
  unset (\<open>nil\<close>).\<close>

theorem marshal_roundtrip:
  assumes "rs_ok rs" and "length (rs_data rs) = 8 * nat (rs_length rs)"
  shows "\<exists>v. ResultSet_marshal_dump rs = Inr v \<and>
              ResultSet_marshal_load ResultSet_alloc v = Inr (rs\<lparr>rs_errors := RNil\<rparr>)"
proof -
  have r: "int32 (rs_length rs)" "int32 (rs_index rs)" "0 \<le> rs_length rs"
    using assms(1) by (auto simp: rs_ok_def int32_def)
  have t: "take (nat (rs_length rs * 8)) (rs_data rs) = rs_data rs"
    using assms(2) r(3) by (simp add: nat_mult_distrib)
  show ?thesis
    using assms r t
    by (simp add: ResultSet_marshal_dump_def ResultSet_marshal_load_def rb_ary_entry_def
                  require_fixnum_def require_string_def ResultSet_alloc_def nat_mult_distrib)
qed

text \<open>\<open>move(1)\<close> does not move: the index is increased by \<open>count - 1\<close>, so on
  any valid result set \<open>move(1)\<close> leaves it unchanged, whereas the documentation
  says it moves forward by the count.\<close>

theorem ResultSet_move_one:
  "rs_ok rs \<Longrightarrow> ResultSet_move rs 1 = Inr rs"
  by (simp add: ResultSet_move_def int32_def wrap32_id rs_ok_def)

lemma array_2_CBLIST_loop_strs:
  "cblist_wf l \<Longrightarrow> \<exists>l'. array_2_CBLIST_loop (map RStr xs) l = Inr l' \<and> cblist_wf l' \<and> cblist_abs l' = cblist_abs l @ xs"
proof (induction xs arbitrary: l)
  case (Cons x xs)
  then show ?case using cblistpush_refines [OF Cons.prems, of x] Cons.IH [of "cblistpush l x"] by auto
qed simp

lemma CBLIST_2_array_abs: "cblist_wf l \<Longrightarrow> CBLIST_2_array l = cblist_abs l"
  by (rule nth_equalityI) (simp_all add: CBLIST_2_array_def cblist_abs_length cblistval_def cblist_abs_nth)

text \<open>\<open>array_2_CBLIST\<close> followed by \<open>CBLIST_2_array\<close> gives back the strings.\<close>

lemma CBLIST_array_roundtrip:
  "map_sum id CBLIST_2_array (array_2_CBLIST (map RStr xs)) = Inr xs"
  using array_2_CBLIST_loop_strs [of cblistopen xs] cblistopen_wf
  by (auto simp: array_2_CBLIST_def CBLIST_2_array_abs)

section \<open>Defects\<close>

text \<open>\<open>marshal_load\<close> takes the length from the data without comparing it with
  the size of the pair string: \<open>[2, 0, ""]\<close> loads, and \<open>next\<close> and \<open>rs[1]\<close> then
  read past the copied buffer.\<close>

theorem marshal_load_overread:
  "(case ResultSet_marshal_load ResultSet_alloc (RAry [RFix 2, RFix 0, RStr []]) of
      Inr rs \<Rightarrow> ResultSet_next rs = Inl RS_OOB \<and> ResultSet_at rs 1 = Inl RS_OOB
    | Inl _ \<Rightarrow> False)"
  by (simp add: ResultSet_marshal_load_def rb_ary_entry_def require_fixnum_def require_string_def
                int32_def ResultSet_alloc_def ResultSet_next_def ResultSet_at_def pair_at_def)

section \<open>Witnesses\<close>

lemma ex_rs_ok: "rs_ok ex_rs"
  by (simp add: ex_rs_def rs_ok_def ResultSet_create_def ResultSet_alloc_def ex_pairs_def)

lemma ex_pairs_int32: "pairs_int32 ex_pairs"
  by (simp add: pairs_int32_def ex_pairs_def int32_def)

theorem rs_run_invariant_witness:
  "rs_ok ex_rs \<and> list_all op_args_ok [RSNext, RSMove 5, RSAt 1, RSToA, RSScore, RSMove (-2)] \<and>
   (\<exists>rs'. rs_run [RSNext, RSMove 5, RSAt 1, RSToA, RSScore, RSMove (-2)] ex_rs = Inr rs' \<and> rs_ok rs')"
proof -
  have a: "list_all op_args_ok [RSNext, RSMove 5, RSAt 1, RSToA, RSScore, RSMove (-2)]"
    by (simp add: op_args_ok_def int32_def)
  show ?thesis using rs_run_invariant [OF ex_rs_ok a] ex_rs_ok a by simp
qed

theorem ResultSet_at_create_witness:
  "pairs_int32 ex_pairs \<and> int (length ex_pairs) < 2 ^ 31 \<and> 0 \<le> (1::int) \<and> 1 < int (length ex_pairs) \<and>
   ResultSet_at (ResultSet_create ex_pairs (int (length ex_pairs)) None) 1 = Inr (Some (7, -3))"
  using ResultSet_at_create [OF ex_pairs_int32, of 1 None] ex_pairs_int32 by (simp add: ex_pairs_def)

theorem ResultSet_next_all_witness:
  "pairs_int32 ex_pairs \<and> int (length ex_pairs) < 2 ^ 31 \<and>
   next_all 4 ex_rs = Inr (Some ([5, 7, 9], ex_rs\<lparr>rs_index := 3\<rparr>))"
  using ResultSet_next_all [OF ex_pairs_int32, of None] ex_pairs_int32
  by (simp add: ex_pairs_def ex_rs_def numeral_eq_Suc)

theorem marshal_roundtrip_witness:
  "rs_ok ex_rs \<and> length (rs_data ex_rs) = 8 * nat (rs_length ex_rs) \<and>
   (\<exists>v. ResultSet_marshal_dump ex_rs = Inr v \<and> ResultSet_marshal_load ResultSet_alloc v = Inr (ex_rs\<lparr>rs_errors := RNil\<rparr>))"
proof -
  have l: "length (rs_data ex_rs) = 8 * nat (rs_length ex_rs)"
    by (simp add: ex_rs_def ResultSet_create_def ResultSet_alloc_def ex_pairs_def)
  show ?thesis using marshal_roundtrip [OF ex_rs_ok l] ex_rs_ok l by simp
qed

theorem ResultSet_move_one_witness:
  "rs_ok ex_rs \<and> ResultSet_move ex_rs 1 = Inr ex_rs"
  using ResultSet_move_one [OF ex_rs_ok] ex_rs_ok by simp

end
