(* ===== verification/Cabin_Codec.thy ===== *)
theory Cabin_Codec
  imports Villa_Prelude
begin

text \<open>
  The transfer encodings of cabin.c: URL encoding (\<open>cburlencode\<close>, \<open>cburldecode\<close>),
  Base64 (\<open>cbbaseencode\<close>, \<open>cbbasedecode\<close>) and quoted-printable (\<open>cbquoteencode\<close>,
  \<open>cbquotedecode\<close>). An encoder reads the region of a pointer and a size (a negative
  size meaning \<open>strlen\<close>) and writes a string. A decoder reads a NUL-terminated
  string: index \<open>len\<close> of the byte list reads the terminator, and a read further out
  is the error value \<open>CB_OOB\<close>. Characters are the bytes of their ASCII codes. The
  decoders also return the size they store through \<open>sp\<close>.
\<close>

datatype cb_error = CB_OOB

type_synonym 'a cbres = "cb_error + 'a"

text \<open>\<open>str[i]\<close> of a C string held in a buffer that ends with its NUL byte.\<close>

definition cstr_get :: "bytes \<Rightarrow> nat \<Rightarrow> byte cbres" where
  "cstr_get s i = (if i < length s then Inr (s ! i) else if i = length s then Inr 0 else Inl CB_OOB)"

text \<open>A digit of \<open>sprintf("%02X")\<close>.\<close>

definition hexdig :: "nat \<Rightarrow> byte" where
  "hexdig d = (if d < 10 then of_nat (48 + d) else of_nat (55 + d))"

definition hex2 :: "byte \<Rightarrow> bytes" where
  "hex2 c = [hexdig (unat c div 16), hexdig (unat c mod 16)]"

section \<open>URL encoding\<close>

text \<open>Letters, digits and \<open>_-.\<close> are kept; every other byte is \<open>%XX\<close>.\<close>

definition url_safe :: "byte \<Rightarrow> bool" where
  "url_safe c \<longleftrightarrow>
     (65 \<le> c \<and> c \<le> 90) \<or> (97 \<le> c \<and> c \<le> 122) \<or> (48 \<le> c \<and> c \<le> 57) \<or>
     (c \<noteq> 0 \<and> c \<in> set [95, 45, 46])"

definition url_enc1 :: "byte \<Rightarrow> bytes" where
  "url_enc1 c = (if url_safe c then [c] else 37 # hex2 c)"

definition cburlencode :: "bytes \<Rightarrow> int \<Rightarrow> bytes" where
  "cburlencode ptr sz = concat (map url_enc1 (c_region ptr 0 sz))"

text \<open>\<open>strchr("1234567890abcdefABCDEF", c)\<close>: the terminating NUL of the table is
  found too.\<close>

definition url_hex :: "byte \<Rightarrow> bool" where
  "url_hex c \<longleftrightarrow> c = 0 \<or> (48 \<le> c \<and> c \<le> 57) \<or> (97 \<le> c \<and> c \<le> 102) \<or> (65 \<le> c \<and> c \<le> 70)"

text \<open>The value of a digit: upper case is folded to lower case, then a letter counts
  from \<open>'a'\<close> and anything else from \<open>'0'\<close>, in \<open>char\<close> arithmetic.\<close>

definition url_val :: "byte \<Rightarrow> byte" where
  "url_val c =
     (let c' = (if 65 \<le> c \<and> c \<le> 90 then c + 32 else c)
      in if 97 \<le> c' \<and> c' \<le> 122 then c' - 97 + 10 else c' - 48)"

text \<open>The loop of \<open>cburldecode\<close> from index \<open>i\<close>, with the bytes written so far: \<open>%\<close>
  with two table characters is a byte, \<open>%\<close> otherwise ends the string, \<open>+\<close> is a
  space. The second character is read only when the first is in the table.\<close>

function url_dec :: "bytes \<Rightarrow> nat \<Rightarrow> bytes \<Rightarrow> bytes cbres" where
  "url_dec s i acc =
     (case cstr_get s i of
        Inl e \<Rightarrow> Inl e
      | Inr c \<Rightarrow>
          (if c = 0 then Inr acc
           else if c = 37 then
             (case cstr_get s (i + 1) of
                Inl e \<Rightarrow> Inl e
              | Inr a \<Rightarrow>
                  (if \<not> url_hex a then Inr acc
                   else
                     (case cstr_get s (i + 2) of
                        Inl e \<Rightarrow> Inl e
                      | Inr b \<Rightarrow>
                          (if \<not> url_hex b then Inr acc
                           else url_dec s (i + 3) (acc @ [url_val a * 16 + url_val b])))))
           else if c = 43 then url_dec s (i + 1) (acc @ [32])
           else url_dec s (i + 1) (acc @ [c])))"
  by pat_completeness auto
termination
  by (relation "measure (\<lambda>(s, i, acc). Suc (length s) - i)")
     (auto simp: cstr_get_def split: if_splits)

declare url_dec.simps [simp del]

definition cburldecode :: "bytes \<Rightarrow> (bytes \<times> nat) cbres" where
  "cburldecode str = map_sum id (\<lambda>acc. (acc, length acc)) (url_dec str 0 [])"

section \<open>Base64\<close>

definition b64_tbl :: bytes where
  "b64_tbl = map of_nat ([65..<91] @ [97..<123] @ [48..<58] @ [43, 47])"

text \<open>A group of three bytes gives four characters; a last group of one or two
  bytes is padded with \<open>=\<close>. \<open>a >> 2\<close> of an \<open>unsigned char\<close> is \<open>a div 4\<close>, \<open>a & 3\<close> is
  \<open>a mod 4\<close>, and so on.\<close>

fun b64_enc :: "nat list \<Rightarrow> bytes" where
  "b64_enc [] = []"
| "b64_enc [a] = [b64_tbl ! (a div 4), b64_tbl ! ((a mod 4) * 16), 61, 61]"
| "b64_enc [a, b] =
     [b64_tbl ! (a div 4), b64_tbl ! ((a mod 4) * 16 + b div 16), b64_tbl ! ((b mod 16) * 4), 61]"
| "b64_enc (a # b # c # rest) =
     [b64_tbl ! (a div 4), b64_tbl ! ((a mod 4) * 16 + b div 16),
      b64_tbl ! ((b mod 16) * 4 + c div 64), b64_tbl ! (c mod 64)] @ b64_enc rest"

definition cbbaseencode :: "bytes \<Rightarrow> int \<Rightarrow> bytes" where
  "cbbaseencode ptr sz = b64_enc (map unat (c_region ptr 0 sz))"

text \<open>The six bits of a character of the alphabet.\<close>

definition b64_val :: "byte \<Rightarrow> nat option" where
  "b64_val c =
     (if 65 \<le> c \<and> c \<le> 90 then Some (unat c - 65)
      else if 97 \<le> c \<and> c \<le> 122 then Some (unat c - 97 + 26)
      else if 48 \<le> c \<and> c \<le> 57 then Some (unat c - 48 + 52)
      else if c = 43 then Some 62
      else if c = 47 then Some 63
      else None)"

text \<open>The inner \<open>for\<close> loop: up to four characters of the alphabet or \<open>=\<close> are
  shifted into \<open>bits\<close>; other characters are skipped.\<close>

function b64_group :: "bytes \<Rightarrow> nat \<Rightarrow> nat \<Rightarrow> nat \<Rightarrow> nat \<Rightarrow> nat \<times> nat \<times> nat \<times> nat" where
  "b64_group s bpos i bits eqcnt =
     (if bpos < length s \<and> i < 4 then
        (case b64_val (s ! bpos) of
           Some v \<Rightarrow> b64_group s (bpos + 1) (i + 1) (bits * 64 + v) eqcnt
         | None \<Rightarrow>
             (if s ! bpos = 61 then b64_group s (bpos + 1) (i + 1) (bits * 64) (eqcnt + 1)
              else b64_group s (bpos + 1) i bits eqcnt))
      else (bpos, i, bits, eqcnt))"
  by pat_completeness auto
termination
  by (relation "measure (\<lambda>(s, bpos, i, bits, eqcnt). length s - bpos)") auto

declare b64_group.simps [simp del]

text \<open>The bytes a group writes: three, two or one after no, one or two \<open>=\<close>.\<close>

definition b64_out :: "nat \<Rightarrow> nat \<Rightarrow> bytes" where
  "b64_out eqcnt bits =
     (if eqcnt = 0 then [of_nat (bits div 65536 mod 256), of_nat (bits div 256 mod 256), of_nat (bits mod 256)]
      else if eqcnt = 1 then [of_nat (bits div 65536 mod 256), of_nat (bits div 256 mod 256)]
      else if eqcnt = 2 then [of_nat (bits div 65536 mod 256)]
      else [])"

text \<open>The outer loop: groups until the input ends or a group held \<open>=\<close>.\<close>

function b64_dec :: "bytes \<Rightarrow> nat \<Rightarrow> nat \<Rightarrow> bytes \<Rightarrow> bytes" where
  "b64_dec s bpos eqcnt acc =
     (if bpos < length s \<and> eqcnt = 0 then
        (case b64_group s bpos 0 0 eqcnt of
           (bpos', i, bits, eqcnt') \<Rightarrow>
             (if i = 0 \<and> length s \<le> bpos' then b64_dec s bpos' eqcnt' acc
              else b64_dec s bpos' eqcnt' (acc @ b64_out eqcnt' bits)))
      else acc)"
  by pat_completeness auto
termination
proof -
  have ge: "b \<le> fst (b64_group s b j x y)" for s b j x y
    by (induction s b j x y rule: b64_group.induct) (subst b64_group.simps, auto split: option.split)
  have adv: "b < b'" if "(b', r) = b64_group s b 0 0 e" and "b < length s" for b' r s b e
  proof -
    have "Suc b \<le> fst (b64_group s b 0 0 e)"
      using that(2) ge by (subst b64_group.simps) (auto split: option.split)
    then show ?thesis using that(1) by (metis fst_conv Suc_le_eq)
  qed
  show ?thesis
    by (relation "measure (\<lambda>(s, bpos, eqcnt, acc). length s - bpos)") (auto dest: adv)
qed

declare b64_dec.simps [simp del]

definition cbbasedecode :: "bytes \<Rightarrow> bytes \<times> nat" where
  "cbbasedecode str =
     (let s = takeWhile (\<lambda>b. b \<noteq> 0) str; r = b64_dec s 0 0 [] in (r, length r))"

section \<open>Quoted-printable\<close>

text \<open>\<open>=\<close>, the control characters other than CR, LF and TAB, and the bytes above
  \<open>0x7e\<close> are written \<open>=XX\<close>; no soft line breaks are inserted.\<close>

definition qp_plain :: "byte \<Rightarrow> bool" where
  "qp_plain c \<longleftrightarrow> \<not> (c = 61 \<or> (c < 32 \<and> c \<noteq> 13 \<and> c \<noteq> 10 \<and> c \<noteq> 9) \<or> 126 < c)"

definition qp_enc1 :: "byte \<Rightarrow> bytes" where
  "qp_enc1 c = (if qp_plain c then [c] else 61 # hex2 c)"

definition cbquoteencode :: "bytes \<Rightarrow> int \<Rightarrow> bytes" where
  "cbquoteencode ptr sz = concat (map qp_enc1 (c_region ptr 0 sz))"

text \<open>The value of a digit, in \<open>char\<close> arithmetic: letters of either case count from
  10, anything else from \<open>'0'\<close>.\<close>

definition qp_val :: "byte \<Rightarrow> byte" where
  "qp_val c =
     (if 65 \<le> c \<and> c \<le> 90 then c - 65 + 10 else if 97 \<le> c \<and> c \<le> 122 then c - 97 + 10 else c - 48)"

text \<open>The loop of \<open>cbquotedecode\<close>: after \<open>=\<close>, the end of the string stops,
  CR LF is a soft line break, a lone CR or LF is dropped, and otherwise two digits
  make a byte (a single digit before the end is dropped).\<close>

function qp_dec :: "bytes \<Rightarrow> nat \<Rightarrow> bytes \<Rightarrow> bytes cbres" where
  "qp_dec s i acc =
     (case cstr_get s i of
        Inl e \<Rightarrow> Inl e
      | Inr c \<Rightarrow>
          (if c = 0 then Inr acc
           else if c = 61 then
             (case cstr_get s (i + 1) of
                Inl e \<Rightarrow> Inl e
              | Inr d \<Rightarrow>
                  (if d = 0 then Inr acc
                   else if d = 13 then
                     (case cstr_get s (i + 2) of
                        Inl e \<Rightarrow> Inl e
                      | Inr d2 \<Rightarrow> (if d2 = 10 then qp_dec s (i + 3) acc else qp_dec s (i + 2) acc))
                   else if d = 10 then qp_dec s (i + 2) acc
                   else
                     (case cstr_get s (i + 2) of
                        Inl e \<Rightarrow> Inl e
                      | Inr d2 \<Rightarrow>
                          (if d2 = 0 then Inr acc
                           else qp_dec s (i + 3) (acc @ [qp_val d * 16 + qp_val d2])))))
           else qp_dec s (i + 1) (acc @ [c])))"
  by pat_completeness auto
termination
  by (relation "measure (\<lambda>(s, i, acc). Suc (length s) - i)")
     (auto simp: cstr_get_def split: if_splits)

declare qp_dec.simps [simp del]

definition cbquotedecode :: "bytes \<Rightarrow> (bytes \<times> nat) cbres" where
  "cbquotedecode str = map_sum id (\<lambda>acc. (acc, length acc)) (qp_dec str 0 [])"

section \<open>Lemmas\<close>

lemma hexdig_all: "\<forall>d \<in> {0..<16}. url_val (hexdig d) = of_nat d \<and> url_hex (hexdig d) \<and>
   qp_val (hexdig d) = of_nat d \<and> hexdig d \<noteq> 0 \<and> hexdig d \<noteq> 13 \<and> hexdig d \<noteq> 10"
  by code_simp

lemma b64_val_all: "\<forall>n \<in> {0..<64}. b64_val (b64_tbl ! n) = Some n \<and> b64_tbl ! n \<noteq> 61 \<and> b64_tbl ! n \<noteq> 0"
  by code_simp

lemma byte_div_mod_16: "of_nat (unat c div 16) * 16 + of_nat (unat c mod 16) = (c :: byte)"
proof -
  have l: "(of_nat (unat c div 16 * 16 + unat c mod 16) :: byte) = of_nat (unat c div 16) * 16 + of_nat (unat c mod 16)"
    by (simp only: of_nat_add of_nat_mult of_nat_numeral)
  have r: "(of_nat (unat c div 16 * 16 + unat c mod 16) :: byte) = c"
    by simp
  show ?thesis using l r by metis
qed


lemma cstr_get_shift [simp]: "cstr_get (p @ t) (length p + j) = cstr_get t j"
  by (simp add: cstr_get_def nth_append)

lemma cstr_get_shift0 [simp]: "cstr_get (p @ t) (length p) = cstr_get t 0"
  using cstr_get_shift [of p t 0] by simp

lemma cstr_get_after: "length p \<le> i \<Longrightarrow> cstr_get (p @ t) i = cstr_get t (i - length p)"
  using cstr_get_shift [of p t "i - length p"] by simp

lemma cstr_get_Cons: "cstr_get (x # t) n = (if n = 0 then Inr x else cstr_get t (n - 1))"
  by (cases n) (simp_all add: cstr_get_def)

lemma cstr_get_end: "cstr_get s (length s) = Inr 0"
  by (simp add: cstr_get_def)

lemma hexdig_facts:
  assumes "d < 16"
  shows "url_val (hexdig d) = of_nat d" "url_hex (hexdig d)" "qp_val (hexdig d) = of_nat d"
    "hexdig d \<noteq> 0" "hexdig d \<noteq> 13" "hexdig d \<noteq> 10"
  using hexdig_all assms by auto

lemma unat_byte_lt: "unat (c :: byte) < 256"
proof -
  have "unat c < 2 ^ LENGTH(8)" by (rule unsigned_less)
  then show ?thesis by simp
qed

lemma unat_byte_div_16: "unat (c :: byte) div 16 < 16"
  using unat_byte_lt [of c] by simp

lemma url_dec_enc1:
  "url_dec (p @ url_enc1 c @ t) (length p) acc =
   url_dec (p @ url_enc1 c @ t) (length p + length (url_enc1 c)) (acc @ [c])"
proof (cases "url_safe c")
  case True
  then have "c \<noteq> 0" "c \<noteq> 37" "c \<noteq> 43" by (auto simp: url_safe_def)
  then show ?thesis using True
    by (subst url_dec.simps) (simp add: url_enc1_def cstr_get_Cons)
next
  case False
  let ?h1 = "hexdig (unat c div 16)" and ?h2 = "hexdig (unat c mod 16)"
  have h: "url_hex ?h1" "url_hex ?h2" "url_val ?h1 = of_nat (unat c div 16)" "url_val ?h2 = of_nat (unat c mod 16)"
    using hexdig_facts [OF unat_byte_div_16 [of c]] hexdig_facts [of "unat c mod 16"] by simp_all
  have e3: "length p + 3 = Suc (Suc (Suc (length p)))" by simp
  show ?thesis using False h
    by (subst url_dec.simps) (simp add: url_enc1_def hex2_def cstr_get_Cons cstr_get_after byte_div_mod_16 e3)
qed

lemma url_dec_concat:
  "url_dec (p @ concat (map url_enc1 xs) @ t) (length p) acc =
   url_dec (p @ concat (map url_enc1 xs) @ t) (length p + length (concat (map url_enc1 xs))) (acc @ xs)"
proof (induction xs arbitrary: p acc)
  case (Cons x xs)
  have "url_dec (p @ concat (map url_enc1 (x # xs)) @ t) (length p) acc =
        url_dec ((p @ url_enc1 x) @ concat (map url_enc1 xs) @ t) (length (p @ url_enc1 x)) (acc @ [x])"
    using url_dec_enc1 [of p x "concat (map url_enc1 xs) @ t" acc] by simp
  also have "\<dots> = url_dec ((p @ url_enc1 x) @ concat (map url_enc1 xs) @ t)
                     (length (p @ url_enc1 x) + length (concat (map url_enc1 xs))) ((acc @ [x]) @ xs)"
    by (rule Cons.IH)
  finally show ?case by (simp add: add.assoc)
qed simp

text \<open>C28. \<open>cburldecode\<close> inverts \<open>cburlencode\<close>: decoding the encoding of any byte
  string, NUL bytes included, gives the string and its size back.\<close>

theorem url_roundtrip: "cburldecode (cburlencode s (int (length s))) = Inr (s, length s)"
proof -
  define e where "e = concat (map url_enc1 s)"
  have r: "c_region s 0 (int (length s)) = s"
    using c_region_append_mid [of "[]" s "[]"] by simp
  have "url_dec e 0 [] = url_dec e (length e) s"
    using url_dec_concat [of "[]" s "[]" "[]"] by (simp add: e_def)
  also have "\<dots> = Inr s"
    by (subst url_dec.simps) (simp add: cstr_get_end)
  finally show ?thesis by (simp add: cburldecode_def cburlencode_def r e_def)
qed


lemma qp_dec_enc1:
  "qp_dec (p @ qp_enc1 c @ t) (length p) acc =
   qp_dec (p @ qp_enc1 c @ t) (length p + length (qp_enc1 c)) (acc @ [c])"
proof (cases "qp_plain c")
  case True
  then have "c \<noteq> 0" "c \<noteq> 61" by (auto simp: qp_plain_def)
  then show ?thesis using True
    by (subst qp_dec.simps) (simp add: qp_enc1_def cstr_get_Cons)
next
  case False
  let ?h1 = "hexdig (unat c div 16)" and ?h2 = "hexdig (unat c mod 16)"
  have h: "?h1 \<noteq> 0" "?h1 \<noteq> 13" "?h1 \<noteq> 10" "?h2 \<noteq> 0"
    "qp_val ?h1 = of_nat (unat c div 16)" "qp_val ?h2 = of_nat (unat c mod 16)"
    using hexdig_facts [OF unat_byte_div_16 [of c]] hexdig_facts [of "unat c mod 16"] by simp_all
  have e3: "length p + 3 = Suc (Suc (Suc (length p)))" by simp
  show ?thesis using False h
    by (subst qp_dec.simps) (simp add: qp_enc1_def hex2_def cstr_get_Cons cstr_get_after byte_div_mod_16 e3)
qed

lemma qp_dec_concat:
  "qp_dec (p @ concat (map qp_enc1 xs) @ t) (length p) acc =
   qp_dec (p @ concat (map qp_enc1 xs) @ t) (length p + length (concat (map qp_enc1 xs))) (acc @ xs)"
proof (induction xs arbitrary: p acc)
  case (Cons x xs)
  have "qp_dec (p @ concat (map qp_enc1 (x # xs)) @ t) (length p) acc =
        qp_dec ((p @ qp_enc1 x) @ concat (map qp_enc1 xs) @ t) (length (p @ qp_enc1 x)) (acc @ [x])"
    using qp_dec_enc1 [of p x "concat (map qp_enc1 xs) @ t" acc] by simp
  also have "\<dots> = qp_dec ((p @ qp_enc1 x) @ concat (map qp_enc1 xs) @ t)
                     (length (p @ qp_enc1 x) + length (concat (map qp_enc1 xs))) ((acc @ [x]) @ xs)"
    by (rule Cons.IH)
  finally show ?case by (simp add: add.assoc)
qed simp

text \<open>C30. \<open>cbquotedecode\<close> inverts \<open>cbquoteencode\<close> on every byte string.\<close>

theorem quote_roundtrip: "cbquotedecode (cbquoteencode s (int (length s))) = Inr (s, length s)"
proof -
  define e where "e = concat (map qp_enc1 s)"
  have r: "c_region s 0 (int (length s)) = s"
    using c_region_append_mid [of "[]" s "[]"] by simp
  have "qp_dec e 0 [] = qp_dec e (length e) s"
    using qp_dec_concat [of "[]" s "[]" "[]"] by (simp add: e_def)
  also have "\<dots> = Inr s"
    by (subst qp_dec.simps) (simp add: cstr_get_end)
  finally show ?thesis by (simp add: cbquotedecode_def cbquoteencode_def r e_def)
qed

lemma cstr_get_ok: "i \<le> length s \<Longrightarrow> \<exists>c. cstr_get s i = Inr c"
  by (auto simp: cstr_get_def)

lemma cstr_get_nz: "cstr_get s i = Inr c \<Longrightarrow> c \<noteq> 0 \<Longrightarrow> i < length s"
  by (auto simp: cstr_get_def split: if_splits)

lemma qp_dec_no_oob: "i \<le> length s \<Longrightarrow> \<exists>r. qp_dec s i acc = Inr r"
proof (induction s i acc rule: qp_dec.induct)
  case (1 s i acc)
  obtain c where c: "cstr_get s i = Inr c" using cstr_get_ok [OF "1.prems"] by blast
  show ?case
  proof (cases "c = 0 \<or> c \<noteq> 61")
    case True
    then show ?thesis using 1 c cstr_get_nz [OF c]
      by (subst qp_dec.simps) (auto simp: Suc_le_eq)
  next
    case False
    then have i: "i < length s" using cstr_get_nz [OF c] by simp
    obtain d where d: "cstr_get s (i + 1) = Inr d" using cstr_get_ok [of "i + 1" s] i by auto
    show ?thesis
    proof (cases "d = 0 \<or> d = 10")
      case True
      then show ?thesis using 1 c d False i cstr_get_nz [OF d]
        by (subst qp_dec.simps) auto
    next
      case False
      then have i1: "i + 1 < length s" using cstr_get_nz [OF d] by simp
      obtain d2 where d2: "cstr_get s (i + 2) = Inr d2" using cstr_get_ok [of "i + 2" s] i1 by auto
      have "d2 \<noteq> 0 \<Longrightarrow> i + 3 \<le> length s" using cstr_get_nz [OF d2] by simp
      then show ?thesis using 1 c d d2 False \<open>\<not> (c = 0 \<or> c \<noteq> 61)\<close> i1
        by (subst qp_dec.simps) auto
    qed
  qed
qed

text \<open>Unlike \<open>cburldecode\<close>, \<open>cbquotedecode\<close> never reads past the terminator of its
  argument.\<close>

lemma cbquotedecode_safe: "\<exists>r. cbquotedecode s = Inr r"
  using qp_dec_no_oob [of 0 s "[]"] by (auto simp: cbquotedecode_def)


lemma b64_tbl_facts:
  assumes "n < 64"
  shows "b64_val (b64_tbl ! n) = Some n" "b64_tbl ! n \<noteq> 61" "b64_tbl ! n \<noteq> 0"
  using b64_val_all assms by auto

lemma b64_val_eq: "b64_val 61 = None"
  by (simp add: b64_val_def)

lemma b64_group_stop: "b64_group s bpos 4 bits e = (bpos, 4, bits, e)"
  by (subst b64_group.simps) simp

lemma b64_group_vals:
  "\<forall>v \<in> set vs. v < 64 \<Longrightarrow> i + length vs \<le> 4 \<Longrightarrow>
   b64_group (p @ map ((!) b64_tbl) vs @ r) (length p) i bits e =
   b64_group (p @ map ((!) b64_tbl) vs @ r) (length p + length vs) (i + length vs) (foldl (\<lambda>b v. b * 64 + v) bits vs) e"
proof (induction vs arbitrary: p i bits)
  case (Cons v vs)
  have "b64_group (p @ map ((!) b64_tbl) (v # vs) @ r) (length p) i bits e =
        b64_group ((p @ [b64_tbl ! v]) @ map ((!) b64_tbl) vs @ r) (length (p @ [b64_tbl ! v])) (i + 1) (bits * 64 + v) e"
    using Cons.prems b64_tbl_facts [of v] by (subst b64_group.simps) (simp add: nth_append)
  also have "\<dots> = b64_group ((p @ [b64_tbl ! v]) @ map ((!) b64_tbl) vs @ r) (length (p @ [b64_tbl ! v]) + length vs)
                       (i + 1 + length vs) (foldl (\<lambda>b v. b * 64 + v) (bits * 64 + v) vs) e"
    using Cons.prems by (intro Cons.IH) auto
  finally show ?case by simp
qed simp

lemma b64_group_eqs:
  "i + k \<le> 4 \<Longrightarrow>
   b64_group (p @ replicate k 61 @ r) (length p) i bits e =
   b64_group (p @ replicate k 61 @ r) (length p + k) (i + k) (bits * 64 ^ k) (e + k)"
proof (induction k arbitrary: p i bits e)
  case (Suc k)
  have "b64_group (p @ replicate (Suc k) 61 @ r) (length p) i bits e =
        b64_group ((p @ [61]) @ replicate k 61 @ r) (length (p @ [61])) (i + 1) (bits * 64) (e + 1)"
    using Suc.prems by (subst b64_group.simps) (simp add: nth_append b64_val_eq)
  also have "\<dots> = b64_group ((p @ [61]) @ replicate k 61 @ r) (length (p @ [61]) + k) (i + 1 + k) (bits * 64 * 64 ^ k) (e + 1 + k)"
    using Suc.prems by (intro Suc.IH) auto
  finally show ?case by (simp add: ac_simps)
qed simp

lemma b64_arith3:
  fixes a b c :: nat
  shows "((a div 4 * 64 + (a mod 4 * 16 + b div 16)) * 64 + (b mod 16 * 4 + c div 64)) * 64 + c mod 64 =
         a * 65536 + b * 256 + c"
proof -
  have A: "a div 4 * 4 + a mod 4 = a" "b div 16 * 16 + b mod 16 = b" "c div 64 * 64 + c mod 64 = c"
    by (rule div_mult_mod_eq)+
  have G: "((a div 4 * 64 + (a mod 4 * 16 + b div 16)) * 64 + (b mod 16 * 4 + c div 64)) * 64 + c mod 64 =
           a div 4 * 262144 + a mod 4 * 65536 + b div 16 * 4096 + b mod 16 * 256 + c div 64 * 64 + c mod 64"
    by (simp add: algebra_simps)
  show ?thesis unfolding G using A by linarith
qed

lemma b64_bytes:
  fixes a b c :: nat
  assumes "a < 256" "b < 256" "c < 256"
  shows "(a * 65536 + b * 256 + c) div 65536 mod 256 = a" "(a * 65536 + b * 256 + c) div 256 mod 256 = b"
    "(a * 65536 + b * 256 + c) mod 256 = c"
proof -
  have x: "b * 256 + c < 65536" using assms by linarith
  have "(a * 65536 + b * 256 + c) div 65536 = (b * 256 + c + a * 65536) div 65536" by (simp add: ac_simps)
  also have "\<dots> = a" using x by (simp only: div_mult_self1 [of 65536] div_less)
  finally show "(a * 65536 + b * 256 + c) div 65536 mod 256 = a" using assms by simp
  have "(a * 65536 + b * 256 + c) div 256 = (c + (a * 256 + b) * 256) div 256" by (simp add: algebra_simps)
  also have "\<dots> = a * 256 + b" using assms by (simp only: div_mult_self1 [of 256] div_less)
  finally show "(a * 65536 + b * 256 + c) div 256 mod 256 = b" using assms by simp
  have "(a * 65536 + b * 256 + c) mod 256 = (c + (a * 256 + b) * 256) mod 256" by (simp add: algebra_simps)
  also have "\<dots> = c" using assms by (simp only: mod_mult_self1) simp
  finally show "(a * 65536 + b * 256 + c) mod 256 = c" .
qed


lemma b64_group_block:
  assumes "\<forall>v \<in> set vs. v < 64" and "length vs + k = 4"
  shows "b64_group (p @ map ((!) b64_tbl) vs @ replicate k 61 @ r) (length p) 0 0 0 =
         (length p + 4, 4, foldl (\<lambda>b v. b * 64 + v) 0 vs * 64 ^ k, k)"
proof -
  let ?q = "p @ map ((!) b64_tbl) vs"
  have "b64_group (p @ map ((!) b64_tbl) vs @ replicate k 61 @ r) (length p) 0 0 0 =
        b64_group (?q @ replicate k 61 @ r) (length ?q) (length vs) (foldl (\<lambda>b v. b * 64 + v) 0 vs) 0"
    using b64_group_vals [of vs 0 p "replicate k 61 @ r" 0 0] assms by simp
  also have "\<dots> = b64_group (?q @ replicate k 61 @ r) (length ?q + k) (length vs + k)
                      (foldl (\<lambda>b v. b * 64 + v) 0 vs * 64 ^ k) (0 + k)"
    using assms(2) by (intro b64_group_eqs) simp
  also have "\<dots> = (length p + 4, 4, foldl (\<lambda>b v. b * 64 + v) 0 vs * 64 ^ k, k)"
    using assms(2) b64_group_stop by (simp add: add.assoc)
  finally show ?thesis .
qed

lemma b64_dec_block:
  assumes "\<forall>v \<in> set vs. v < 64" and "length vs + k = 4"
  shows "b64_dec (p @ map ((!) b64_tbl) vs @ replicate k 61 @ r) (length p) 0 acc =
         b64_dec (p @ map ((!) b64_tbl) vs @ replicate k 61 @ r) (length p + 4) k
           (acc @ b64_out k (foldl (\<lambda>b v. b * 64 + v) 0 vs * 64 ^ k))"
proof -
  have L: "length (p @ map ((!) b64_tbl) vs @ replicate k 61 @ r) = length p + (length vs + k) + length r"
    by simp
  then have "length p < length (p @ map ((!) b64_tbl) vs @ replicate k 61 @ r)"
    using assms(2) by linarith
  then show ?thesis
    using b64_group_block [OF assms, of p r] by (subst b64_dec.simps) simp
qed

lemma b64_idx:
  fixes a b c :: nat
  assumes "a < 256" "b < 256" "c < 256"
  shows "a div 4 < 64" "a mod 4 * 16 + b div 16 < 64" "b mod 16 * 4 + c div 64 < 64" "c mod 64 < 64"
    "a mod 4 * 16 < 64" "b mod 16 * 4 < 64"
proof -
  have "a mod 4 < 4" "b mod 16 < 16" by simp_all
  moreover have "a div 4 < 64" "b div 16 < 16" "c div 64 < 4"
    using assms by (simp_all add: less_mult_imp_div_less)
  ultimately show "a div 4 < 64" "a mod 4 * 16 + b div 16 < 64" "b mod 16 * 4 + c div 64 < 64" "c mod 64 < 64"
    "a mod 4 * 16 < 64" "b mod 16 * 4 < 64" by linarith+
qed

lemma b64_dec_enc:
  "\<forall>x \<in> set xs. x < 256 \<Longrightarrow> b64_dec (p @ b64_enc xs) (length p) 0 acc = acc @ map of_nat xs"
proof (induction xs arbitrary: p acc rule: b64_enc.induct)
  case 1
  then show ?case by (subst b64_dec.simps) simp
next
  case (2 a)
  let ?vs = "[a div 4, a mod 4 * 16]"
  have a: "a < 256" using 2 by simp
  note ix = b64_idx [OF a, of 0 0, simplified]
  have e: "p @ b64_enc [a] = p @ map ((!) b64_tbl) ?vs @ replicate 2 61 @ []"
    by (simp add: numeral_2_eq_2)
  have "b64_dec (p @ b64_enc [a]) (length p) 0 acc =
        b64_dec (p @ b64_enc [a]) (length p + 4) 2 (acc @ b64_out 2 (foldl (\<lambda>b v. b * 64 + v) 0 ?vs * 64 ^ 2))"
    unfolding e using ix by (intro b64_dec_block) auto
  also have "\<dots> = acc @ b64_out 2 (a * 65536 + 0 * 256 + 0)"
    using b64_arith3 [of a 0 0] by (subst b64_dec.simps) simp
  also have "\<dots> = acc @ map of_nat [a]"
    using b64_bytes [OF a, of 0 0] by (simp add: b64_out_def)
  finally show ?case .
next
  case (3 a b)
  let ?vs = "[a div 4, a mod 4 * 16 + b div 16, b mod 16 * 4]"
  have ab: "a < 256" "b < 256" using 3 by simp_all
  note ix = b64_idx [OF ab, of 0, simplified]
  have e: "p @ b64_enc [a, b] = p @ map ((!) b64_tbl) ?vs @ replicate 1 61 @ []"
    by simp
  have "b64_dec (p @ b64_enc [a, b]) (length p) 0 acc =
        b64_dec (p @ b64_enc [a, b]) (length p + 4) 1 (acc @ b64_out 1 (foldl (\<lambda>b v. b * 64 + v) 0 ?vs * 64 ^ 1))"
    unfolding e using ix by (intro b64_dec_block) auto
  also have "\<dots> = acc @ b64_out 1 (a * 65536 + b * 256 + 0)"
    using b64_arith3 [of a b 0] by (subst b64_dec.simps) simp
  also have "\<dots> = acc @ map of_nat [a, b]"
    using b64_bytes [OF ab, of 0] by (simp add: b64_out_def)
  finally show ?case .
next
  case (4 a b c rest)
  let ?vs = "[a div 4, a mod 4 * 16 + b div 16, b mod 16 * 4 + c div 64, c mod 64]"
  have abc: "a < 256" "b < 256" "c < 256" using "4.prems" by simp_all
  note ix = b64_idx [OF abc]
  let ?q = "p @ map ((!) b64_tbl) ?vs"
  have e: "p @ b64_enc (a # b # c # rest) = p @ map ((!) b64_tbl) ?vs @ replicate 0 61 @ b64_enc rest"
    by simp
  have "b64_dec (p @ b64_enc (a # b # c # rest)) (length p) 0 acc =
        b64_dec (?q @ b64_enc rest) (length ?q) 0 (acc @ b64_out 0 (foldl (\<lambda>b v. b * 64 + v) 0 ?vs * 64 ^ 0))"
  proof -
    have e4: "length p + 4 = Suc (Suc (Suc (Suc (length p))))" by simp
    show ?thesis unfolding e using ix b64_dec_block [of ?vs 0 p "b64_enc rest" acc] by (simp add: e4)
  qed
  also have "\<dots> = (acc @ b64_out 0 (a * 65536 + b * 256 + c)) @ map of_nat rest"
    using "4.IH" [of ?q] "4.prems" b64_arith3 [of a b c] by (simp add: ac_simps)
  also have "\<dots> = acc @ map of_nat (a # b # c # rest)"
    using b64_bytes [OF abc] by (simp add: b64_out_def)
  finally show ?case .
qed


lemma b64_enc_nonzero: "\<forall>x \<in> set xs. x < 256 \<Longrightarrow> 0 \<notin> set (b64_enc xs)"
proof (induction xs rule: b64_enc.induct)
  case (2 a)
  then show ?case using b64_idx [of a 0 0] b64_tbl_facts by auto
next
  case (3 a b)
  then show ?case using b64_idx [of a b 0] b64_tbl_facts by auto
next
  case (4 a b c rest)
  then show ?case using b64_idx [of a b c] b64_tbl_facts by auto
qed simp

text \<open>C29. \<open>cbbasedecode\<close> inverts \<open>cbbaseencode\<close> on every byte string: full
  groups of three bytes and the padded last group of one or two bytes decode to
  the bytes encoded.\<close>

theorem base64_roundtrip: "cbbasedecode (cbbaseencode s (int (length s))) = (s, length s)"
proof -
  define e where "e = b64_enc (map unat s)"
  have r: "c_region s 0 (int (length s)) = s"
    using c_region_append_mid [of "[]" s "[]"] by simp
  have u: "\<forall>x \<in> set (map unat s). x < 256"
    using unat_byte_lt by auto
  have tw: "takeWhile (\<lambda>b. b \<noteq> 0) e = e"
    using b64_enc_nonzero [OF u] by (auto simp: e_def takeWhile_eq_all_conv)
  have dec: "b64_dec e 0 0 [] = s"
    using b64_dec_enc [OF u, of "[]" "[]"] by (simp add: e_def comp_def)
  show ?thesis
    unfolding cbbasedecode_def cbbaseencode_def r Let_def e_def [symmetric] tw dec by simp
qed

section \<open>Defects\<close>

text \<open>\<open>cburldecode\<close> tests the characters after \<open>%\<close> with \<open>strchr\<close>, which also
  finds the terminating NUL: on \<open>"%"\<close> it reads the byte after the terminator, and on
  \<open>"%A"\<close> it decodes the terminator as a digit and goes on reading past it.\<close>

theorem cburldecode_overread:
  "cburldecode [37] = Inl CB_OOB \<and> cburldecode [37, 65] = Inl CB_OOB"
  by code_simp

text \<open>A last group without its \<open>=\<close> padding is decoded as if it were complete, without
  shifting the missing bits in: \<open>"QQ"\<close> decodes to three bytes \<open>0, 4, 16\<close>, where the
  padded \<open>"QQ=="\<close> decodes to \<open>"A"\<close>.\<close>

theorem cbbasedecode_unpadded:
  "cbbasedecode [81, 81] = ([0, 4, 16], 3) \<and> cbbasedecode [81, 81, 61, 61] = ([65], 1)"
  by (simp add: cbbasedecode_def b64_dec.simps b64_group.simps b64_val_def b64_out_def)

end
