(* ===== verification/Cabin_Sort.thy ===== *)
theory Cabin_Sort
  imports Cabin_List "HOL-Library.Monad_Syntax" "HOL-Library.Multiset"
begin

text \<open>
  The array sorts of Cabin (cabin.c): \<open>cbisort\<close> (insertion sort), \<open>cbssort\<close> (shell
  sort), \<open>cbhsort\<close> (heap sort) and \<open>cbqsort\<close> with its helper \<open>cbqsortsub\<close> (quick
  sort, insertion sort below ten elements), and the list operations built on them,
  \<open>cblistsort\<close> with the element comparison \<open>cblistelemcmp\<close>, and \<open>cblistlsearch\<close>.
  The C sorts work on an array of \<open>nmemb\<close> elements of \<open>size\<close> bytes moved with
  \<open>memcpy\<close>; an element is a value of a type variable here and the array a HOL list,
  so a \<open>memcpy\<close> between two slots is a list update. The comparison function
  \<open>compar\<close> returns an \<open>int\<close> whose sign is the order. Loops whose progress depends on
  the comparison or on a step that could be zero (the shifts of shell sort, the
  sift of heap sort, the recursion of quick sort) are \<open>partial_function (option)\<close>;
  the others are \<open>function\<close>s with their measure. The lemmas show that every sort
  returns, for a comparison that is a total preorder (\<open>cmp_total\<close>), a sorted
  permutation of its input, and that the last pass of shell sort is insertion sort.
\<close>

type_synonym 'a compar = "'a \<Rightarrow> 'a \<Rightarrow> int"

text \<open>A comparison fit for sorting: the sign is antisymmetric and \<open>\<le> 0\<close> is
  transitive, so \<open>\<lambda>a b. cmp a b \<le> 0\<close> is a total preorder.\<close>

definition cmp_total :: "'a compar \<Rightarrow> bool" where
  "cmp_total cmp \<longleftrightarrow> (\<forall>a b. 0 < cmp a b \<longleftrightarrow> cmp b a < 0) \<and>
     (\<forall>a b c. cmp a b \<le> 0 \<longrightarrow> cmp b c \<le> 0 \<longrightarrow> cmp a c \<le> 0)"

definition cmp_sorted :: "'a compar \<Rightarrow> 'a list \<Rightarrow> bool" where
  "cmp_sorted cmp xs \<longleftrightarrow> sorted_wrt (\<lambda>a b. cmp a b \<le> 0) xs"

section \<open>Insertion sort\<close>

fun isort_shift :: "'a compar \<Rightarrow> 'a \<Rightarrow> 'a list \<Rightarrow> nat \<Rightarrow> 'a list \<times> nat" where
  "isort_shift cmp sw xs 0 = (xs, 0)"
| "isort_shift cmp sw xs (Suc j) =
     (if cmp (xs ! j) sw < 0 then (xs, Suc j) else isort_shift cmp sw (xs[Suc j := xs ! j]) j)"

function isort_loop :: "'a compar \<Rightarrow> nat \<Rightarrow> 'a list \<Rightarrow> nat \<Rightarrow> 'a list" where
  "isort_loop cmp n xs i =
     (if i < n then
        (if 0 < cmp (xs ! (i - 1)) (xs ! i) then
           (let (ys, j) = isort_shift cmp (xs ! i) xs i in isort_loop cmp n (ys[j := xs ! i]) (Suc i))
         else isort_loop cmp n xs (Suc i))
      else xs)"
  by pat_completeness auto
termination by (relation "measure (\<lambda>(_, n, _, i). n - i)") auto

declare isort_loop.simps [simp del]

definition cbisort :: "'a compar \<Rightarrow> 'a list \<Rightarrow> 'a list" where
  "cbisort cmp xs = isort_loop cmp (length xs) xs 1"

section \<open>Shell sort\<close>

partial_function (option) ssort_shift ::
  "'a compar \<Rightarrow> nat \<Rightarrow> 'a \<Rightarrow> 'a list \<Rightarrow> nat \<Rightarrow> ('a list \<times> nat) option" where
  "ssort_shift cmp step sw xs j =
     (if step \<le> j then
        (if cmp (xs ! (j - step)) sw < 0 then Some (xs, j)
         else ssort_shift cmp step sw (xs[j := xs ! (j - step)]) (j - step))
      else Some (xs, j))"

declare ssort_shift.simps [code]

partial_function (option) ssort_run ::
  "'a compar \<Rightarrow> nat \<Rightarrow> nat \<Rightarrow> 'a list \<Rightarrow> nat \<Rightarrow> 'a list option" where
  "ssort_run cmp n step xs i =
     (if i < n then
        (if 0 < cmp (xs ! (i - step)) (xs ! i) then
           do { (ys, j) \<leftarrow> ssort_shift cmp step (xs ! i) xs i;
                ssort_run cmp n step (ys[j := xs ! i]) (i + step) }
         else ssort_run cmp n step xs (i + step))
      else Some xs)"

declare ssort_run.simps [code]

function ssort_bottoms :: "'a compar \<Rightarrow> nat \<Rightarrow> nat \<Rightarrow> 'a list \<Rightarrow> nat \<Rightarrow> 'a list option" where
  "ssort_bottoms cmp n step xs bottom =
     (if bottom < step then
        do { ys \<leftarrow> ssort_run cmp n step xs (bottom + step); ssort_bottoms cmp n step ys (Suc bottom) }
      else Some xs)"
  by pat_completeness auto
termination by (relation "measure (\<lambda>(_, _, step, _, bottom). step - bottom)") auto

declare ssort_bottoms.simps [simp del]

function ssort_steps :: "'a compar \<Rightarrow> nat \<Rightarrow> int \<Rightarrow> 'a list \<Rightarrow> 'a list option" where
  "ssort_steps cmp n step xs =
     (if 0 \<le> step then
        (let step = (if step < 5 then 1 else step) in
         do { ys \<leftarrow> ssort_bottoms cmp n (nat step) xs 0;
              if step < 2 then Some ys else ssort_steps cmp n ((step - 1) sdiv 3) ys })
      else Some xs)"
  by pat_completeness auto
termination by (relation "measure (\<lambda>(_, _, step, _). nat step)") auto

declare ssort_steps.simps [simp del]

definition cbssort :: "'a compar \<Rightarrow> 'a list \<Rightarrow> 'a list option" where
  "cbssort cmp xs = ssort_steps cmp (length xs) ((int (length xs) - 1) sdiv 3) xs"

section \<open>Heap sort\<close>

text \<open>The heap of \<open>cbhsort\<close> is rooted at index 0, whose only child is 1 (the sift
  compares \<open>bp[0]\<close> with itself); node \<open>k \<ge> 1\<close> has children \<open>2k\<close> and \<open>2k + 1\<close>. After
  the first loop \<open>bottom\<close> is 0, so the second loop sifts from 0.\<close>

partial_function (option) hsort_sift ::
  "'a compar \<Rightarrow> int \<Rightarrow> 'a list \<Rightarrow> nat \<Rightarrow> nat \<Rightarrow> 'a list option" where
  "hsort_sift cmp tp xs mybot i =
     (if int i \<le> tp then
        (let i = (if int i < tp \<and> 0 < cmp (xs ! (i + 1)) (xs ! i) then i + 1 else i) in
         if 0 \<le> cmp (xs ! mybot) (xs ! i) then Some xs
         else hsort_sift cmp tp (xs[mybot := xs ! i, i := xs ! mybot]) i (2 * i))
      else Some xs)"

declare hsort_sift.simps [code]

fun hsort_build :: "'a compar \<Rightarrow> int \<Rightarrow> 'a list \<Rightarrow> nat \<Rightarrow> 'a list option" where
  "hsort_build cmp tp xs 0 = Some xs"
| "hsort_build cmp tp xs (Suc bottom) =
     do { ys \<leftarrow> hsort_sift cmp tp xs bottom (2 * bottom); hsort_build cmp tp ys bottom }"

function hsort_extract :: "'a compar \<Rightarrow> int \<Rightarrow> 'a list \<Rightarrow> 'a list option" where
  "hsort_extract cmp tp xs =
     (if 0 < tp then
        do { ys \<leftarrow> hsort_sift cmp (tp - 1) (xs[0 := xs ! nat tp, nat tp := xs ! 0]) 0 0;
             hsort_extract cmp (tp - 1) ys }
      else Some xs)"
  by pat_completeness auto
termination by (relation "measure (\<lambda>(_, tp, _). nat tp)") auto

declare hsort_extract.simps [simp del]

definition cbhsort :: "'a compar \<Rightarrow> 'a list \<Rightarrow> 'a list option" where
  "cbhsort cmp xs =
     (let tp = int (length xs) - 1 in
      do { ys \<leftarrow> hsort_build cmp tp xs (nat (tp sdiv 2 + 1)); hsort_extract cmp tp ys })"

section \<open>Quick sort\<close>

function qsort_part :: "'a compar \<Rightarrow> 'a \<Rightarrow> 'a list \<Rightarrow> int \<Rightarrow> int \<Rightarrow> 'a list \<times> int \<times> int" where
  "qsort_part cmp pv xs tp bottom =
     (if tp - 1 < bottom then
        (if cmp (xs ! nat tp) pv < 0 then qsort_part cmp pv xs (tp + 1) bottom
         else if 0 < cmp (xs ! nat bottom) pv then qsort_part cmp pv xs tp (bottom - 1)
         else qsort_part cmp pv
                (if tp \<noteq> bottom then xs[nat tp := xs ! nat bottom, nat bottom := xs ! nat tp] else xs)
                (tp + 1) (bottom - 1))
      else (xs, tp, bottom))"
  by pat_completeness auto
termination by (relation "measure (\<lambda>(_, _, _, tp, bottom). nat (bottom - tp + 1))") auto

declare qsort_part.simps [simp del]

partial_function (option) cbqsortsub :: "'a compar \<Rightarrow> 'a list \<Rightarrow> 'a list option" where
  "cbqsortsub cmp xs =
     (if length xs < 10 then Some (if 1 < length xs then cbisort cmp xs else xs)
      else
        (case qsort_part cmp (xs ! (length xs div 2)) xs 0 (int (length xs) - 1) of
           (ys, tp, bottom) \<Rightarrow>
             do { l \<leftarrow> cbqsortsub cmp (take (nat tp) ys);
                  let zs = l @ drop (nat tp) ys;
                  r \<leftarrow> cbqsortsub cmp (drop (nat (bottom + 1)) zs);
                  Some (take (nat (bottom + 1)) zs @ r) }))"

declare cbqsortsub.simps [code]

definition cbqsort :: "'a compar \<Rightarrow> 'a list \<Rightarrow> 'a list option" where
  "cbqsort cmp xs = cbqsortsub cmp xs"

section \<open>Lists: \<open>cblistsort\<close>, \<open>cblistlsearch\<close>\<close>

text \<open>\<open>cblistelemcmp\<close> compares the bytes as \<open>char\<close>, which is signed: a byte from
  128 on sorts before the ASCII bytes. Past the common prefix the sizes decide.\<close>

function elemcmp_loop :: "bytes \<Rightarrow> bytes \<Rightarrow> nat \<Rightarrow> nat \<Rightarrow> int" where
  "elemcmp_loop ao bo sz i =
     (if i < sz then
        (if sint (bo ! i) < sint (ao ! i) then 1
         else if sint (ao ! i) < sint (bo ! i) then -1
         else elemcmp_loop ao bo sz (Suc i))
      else int (length ao) - int (length bo))"
  by pat_completeness auto
termination by (relation "measure (\<lambda>(_, _, sz, i). sz - i)") auto

declare elemcmp_loop.simps [simp del]

definition cblistelemcmp :: "bytes compar" where
  "cblistelemcmp a b = elemcmp_loop a b (min (length a) (length b)) 0"

definition cblistsort :: "cblist \<Rightarrow> cblist option" where
  "cblistsort l =
     do { ys \<leftarrow> cbqsort cblistelemcmp (cblist_abs l);
          Some (l\<lparr>arr := take (lstart l) (arr l) @ ys @ drop (lstart l + num l) (arr l)\<rparr>) }"

function lsearch_loop :: "bytes list \<Rightarrow> bytes \<Rightarrow> nat \<Rightarrow> nat \<Rightarrow> nat \<Rightarrow> int" where
  "lsearch_loop a key st i e =
     (if i < e then (if a ! i = key then int i - int st else lsearch_loop a key st (Suc i) e) else -1)"
  by pat_completeness auto
termination by (relation "measure (\<lambda>(_, _, _, i, e). e - i)") auto

declare lsearch_loop.simps [simp del]

definition cblistlsearch :: "cblist \<Rightarrow> bytes \<Rightarrow> int \<Rightarrow> int" where
  "cblistlsearch l ptr sz =
     lsearch_loop (arr l) (c_region ptr 0 sz) (lstart l) (lstart l) (lstart l + num l)"

section \<open>Specifications used in the proofs\<close>

text \<open>\<open>elem_suffix\<close> is \<open>cblistelemcmp\<close> read on the suffixes from the loop index on.\<close>

fun elem_suffix :: "bytes \<Rightarrow> bytes \<Rightarrow> int" where
  "elem_suffix (x # xs) (y # ys) =
     (if sint y < sint x then 1 else if sint x < sint y then -1 else elem_suffix xs ys)"
| "elem_suffix xs ys = int (length xs) - int (length ys)"

text \<open>\<open>heap_from cmp xs lo t\<close>: every node up to \<open>t\<close> whose parent is at least \<open>lo\<close> is
  not greater than its parent. \<open>part_inv\<close> is the invariant of the partition loop of
  \<open>cbqsortsub\<close>: left of \<open>top\<close> nothing is greater than the pivot, right of \<open>bottom\<close>
  nothing is less, and while one index has not moved the array is untouched, so the
  pivot's own slot stops the other index.\<close>

definition heap_from :: "'a compar \<Rightarrow> 'a list \<Rightarrow> nat \<Rightarrow> nat \<Rightarrow> bool" where
  "heap_from cmp xs lo t \<longleftrightarrow>
     (\<forall>k. 0 < k \<longrightarrow> k \<le> t \<longrightarrow> lo \<le> k div 2 \<longrightarrow> 0 \<le> cmp (xs ! (k div 2)) (xs ! k))"

definition part_inv :: "'a compar \<Rightarrow> 'a list \<Rightarrow> 'a \<Rightarrow> 'a list \<Rightarrow> int \<Rightarrow> int \<Rightarrow> bool" where
  "part_inv cmp xs0 pv xs tp bottom \<longleftrightarrow>
      length xs = length xs0 \<and> mset xs = mset xs0 \<and> 0 \<le> tp \<and> tp \<le> int (length xs0) - 1 \<and>
      0 \<le> bottom \<and> bottom \<le> int (length xs0) - 1 \<and> tp \<le> bottom + 2 \<and>
      (\<forall>j. int j < tp \<longrightarrow> cmp (xs ! j) pv \<le> 0) \<and>
      (\<forall>j. bottom < int j \<longrightarrow> j < length xs0 \<longrightarrow> 0 \<le> cmp (xs ! j) pv) \<and>
      (bottom = int (length xs0) - 1 \<longrightarrow> tp \<le> int (length xs0 div 2) \<and> xs = xs0) \<and>
      (tp = 0 \<longrightarrow> int (length xs0 div 2) \<le> bottom \<and> xs = xs0)"

section \<open>Comparisons\<close>

lemma cmp_total_by_order:
  fixes f :: "'a \<Rightarrow> 'b::linorder"
  assumes sign: "\<And>a b. (cmp a b < 0) = (f a < f b) \<and> (cmp a b = 0) = (f a = f b)"
  shows "cmp_total cmp"
proof -
  have le: "(cmp a b \<le> 0) = (f a \<le> f b)" for a b
    using sign [of a b] by (auto simp: le_less)
  have pos: "(0 < cmp a b) = (f b < f a)" for a b
    using le [of a b] by (simp add: not_le [symmetric])
  show ?thesis
    unfolding cmp_total_def using sign pos le by (auto intro: order_trans)
qed
lemma cmp_total_not_neg:
  assumes "cmp_total cmp" "\<not> cmp a b < 0"
  shows "cmp b a \<le> 0"
proof -
  have "\<not> 0 < cmp b a" using assms by (simp add: cmp_total_def)
  then show ?thesis by simp
qed

lemma cmp_total_pos: "cmp_total cmp \<Longrightarrow> 0 < cmp a b \<Longrightarrow> cmp b a \<le> 0"
  unfolding cmp_total_def by fastforce

lemma cmp_total_trans: "cmp_total cmp \<Longrightarrow> cmp a b \<le> 0 \<Longrightarrow> cmp b c \<le> 0 \<Longrightarrow> cmp a c \<le> 0"
  unfolding cmp_total_def by blast

lemma cmp_total_refl:
  assumes "cmp_total cmp"
  shows "cmp a a = 0"
proof -
  have "(0 < cmp a a) = (cmp a a < 0)" using assms by (simp add: cmp_total_def)
  then show ?thesis by linarith
qed

lemma cmp_sorted_nth:
  "cmp_total cmp \<Longrightarrow> cmp_sorted cmp xs \<Longrightarrow> i \<le> j \<Longrightarrow> j < length xs \<Longrightarrow> cmp (xs ! i) (xs ! j) \<le> 0"
  by (cases "i = j") (auto simp: cmp_sorted_def sorted_wrt_iff_nth_less cmp_total_refl)

lemma cmp_sorted_insert_at:
  assumes tot: "cmp_total cmp" and s: "cmp_sorted cmp p" and k: "k \<le> length p"
    and lo: "0 < k \<Longrightarrow> cmp (p ! (k - 1)) x \<le> 0"
    and hi: "\<And>m. k \<le> m \<Longrightarrow> m < length p \<Longrightarrow> \<not> cmp (p ! m) x < 0"
  shows "cmp_sorted cmp (take k p @ x # drop k p)"
proof -
  have below: "cmp y x \<le> 0" if "y \<in> set (take k p)" for y
  proof -
    have "\<exists>m < length (take k p). take k p ! m = y" using that by (simp only: in_set_conv_nth)
    then obtain m where "m < length (take k p)" "take k p ! m = y" by blast
    then have m: "m < k" "y = p ! m" by simp_all
    then have "cmp y (p ! (k - 1)) \<le> 0" using cmp_sorted_nth [OF tot s, of m "k - 1"] k by simp
    then show ?thesis using lo m(1) cmp_total_trans [OF tot] by fastforce
  qed
  have above: "cmp x z \<le> 0" if "z \<in> set (drop k p)" for z
  proof -
    have "\<exists>m < length (drop k p). drop k p ! m = z" using that by (simp only: in_set_conv_nth)
    then obtain m where "m < length (drop k p)" "drop k p ! m = z" by blast
    then have "m < length p - k" "z = p ! (k + m)" using k by simp_all
    then show ?thesis using hi [of "k + m"] cmp_total_not_neg [OF tot] by simp
  qed
  have cross: "cmp y z \<le> 0" if "y \<in> set (take k p)" "z \<in> set (drop k p)" for y z
    using below [OF that(1)] above [OF that(2)] by (rule cmp_total_trans [OF tot])
  have "cmp_sorted cmp (take k p)" "cmp_sorted cmp (drop k p)"
    using s by (simp_all add: cmp_sorted_def sorted_wrt_take sorted_wrt_drop)
  then show ?thesis
    using below above cross by (auto simp: cmp_sorted_def sorted_wrt_append)
qed

section \<open>Insertion sort returns a sorted permutation\<close>

lemma isort_shift_spec:
  "j \<le> length p \<Longrightarrow>
   \<exists>k c'. isort_shift cmp x (take j p @ c # drop j p @ r) j = (take k p @ c' # drop k p @ r, k) \<and>
     k \<le> j \<and> (0 < k \<longrightarrow> cmp (p ! (k - 1)) x < 0) \<and> (\<forall>m. k \<le> m \<and> m < j \<longrightarrow> \<not> cmp (p ! m) x < 0)"
proof (induction j arbitrary: c)
  case 0
  then show ?case by auto
next
  case (Suc j)
  let ?L = "take (Suc j) p @ c # drop (Suc j) p @ r"
  have tj: "take (Suc j) p = take j p @ [p ! j]" and dj: "drop j p = p ! j # drop (Suc j) p"
    using Suc.prems by (simp_all add: take_Suc_conv_app_nth Cons_nth_drop_Suc)
  have Lj: "?L ! j = p ! j" using Suc.prems by (simp add: nth_append)
  have upd: "?L[Suc j := p ! j] = take j p @ p ! j # drop j p @ r"
    using Suc.prems by (simp add: tj dj list_update_append)
  show ?case
  proof (cases "cmp (p ! j) x < 0")
    case True
    then show ?thesis using Lj by (intro exI [of _ "Suc j"] exI [of _ c]) simp
  next
    case False
    obtain k c' where k: "isort_shift cmp x (take j p @ p ! j # drop j p @ r) j = (take k p @ c' # drop k p @ r, k)"
      "k \<le> j" "0 < k \<longrightarrow> cmp (p ! (k - 1)) x < 0" "\<forall>m. k \<le> m \<and> m < j \<longrightarrow> \<not> cmp (p ! m) x < 0"
      using Suc.IH [of "p ! j"] Suc.prems by auto
    have "\<forall>m. k \<le> m \<and> m < Suc j \<longrightarrow> \<not> cmp (p ! m) x < 0"
      using k(2,4) False less_Suc_eq by auto
    then show ?thesis using False Lj upd k(1-3) by (intro exI [of _ k] exI [of _ c']) simp
  qed
qed

lemma isort_shift_full:
  "length p = j \<Longrightarrow>
   \<exists>k c'. isort_shift cmp x (p @ c # r) j = (take k p @ c' # drop k p @ r, k) \<and>
     k \<le> j \<and> (0 < k \<longrightarrow> cmp (p ! (k - 1)) x < 0) \<and> (\<forall>m. k \<le> m \<and> m < j \<longrightarrow> \<not> cmp (p ! m) x < 0)"
  using isort_shift_spec [of j p cmp x c r] by simp

lemma isort_loop_sorts:
  "cmp_total cmp \<Longrightarrow> n = length xs \<Longrightarrow> 0 < i \<Longrightarrow> cmp_sorted cmp (take i xs) \<Longrightarrow>
   cmp_sorted cmp (isort_loop cmp n xs i) \<and> mset (isort_loop cmp n xs i) = mset xs"
proof (induction cmp n xs i rule: isort_loop.induct)
  case (1 cmp n xs i)
  note tot = "1.prems"(1)
  show ?case
  proof (cases "i < n")
    case False
    then have "isort_loop cmp n xs i = xs" by (subst isort_loop.simps) simp
    then show ?thesis using False "1.prems" by simp
  next
    case lt: True
    let ?p = "take i xs" and ?x = "xs ! i" and ?r = "drop (Suc i) xs"
    have xs: "xs = ?p @ ?x # ?r" using lt "1.prems" by (simp add: id_take_nth_drop)
    have lp: "length ?p = i" using lt "1.prems" by simp
    have sp: "cmp_sorted cmp ?p" using "1.prems" by simp
    show ?thesis
    proof (cases "0 < cmp (xs ! (i - 1)) ?x")
      case pos: True
      obtain k c' where sh0: "isort_shift cmp ?x (?p @ ?x # ?r) i = (take k ?p @ c' # drop k ?p @ ?r, k)"
        and k: "k \<le> i" and lo: "0 < k \<longrightarrow> cmp (?p ! (k - 1)) ?x < 0"
        and hi: "\<forall>m. k \<le> m \<and> m < i \<longrightarrow> \<not> cmp (?p ! m) ?x < 0"
        using isort_shift_full [OF lp, of cmp ?x ?x ?r] by blast
      note sh = sh0 [unfolded xs [symmetric]]
      let ?ys = "take k ?p @ ?x # drop k ?p @ ?r"
      have upd: "(take k ?p @ c' # drop k ?p @ ?r)[k := ?x] = ?ys"
        using k lp by (simp add: list_update_append)
      have "cmp_sorted cmp (take k ?p @ ?x # drop k ?p)"
      proof (rule cmp_sorted_insert_at [OF tot sp])
        show "k \<le> length ?p" using k lp by simp
        show "cmp (?p ! (k - 1)) ?x \<le> 0" if "0 < k" using lo that by simp
        show "\<not> cmp (?p ! m) ?x < 0" if "k \<le> m" "m < length ?p" for m using hi that lp by simp
      qed
      moreover have "take (Suc i) ?ys = take k ?p @ ?x # drop k ?p"
        using k lp by (simp add: Suc_diff_le)
      moreover have "mset ?ys = mset xs"
      proof -
        have "mset (take k ?p) + mset (drop k ?p) = mset ?p" by (simp only: mset_append [symmetric] append_take_drop_id)
        then have "mset ?ys = mset (?p @ ?x # ?r)" by (simp flip: add.assoc)
        then show ?thesis by (simp only: xs [symmetric])
      qed
      moreover have "length ?ys = n" using k lp lt "1.prems" by simp
      moreover have "isort_loop cmp n xs i = isort_loop cmp n ?ys (Suc i)"
        using lt pos sh upd by (subst isort_loop.simps) simp
      ultimately show ?thesis
        using "1.IH"(1) [OF lt pos _ _ tot] sh upd by (metis zero_less_Suc)
    next
      case nonpos: False
      have "cmp_sorted cmp (take i ?p @ ?x # drop i ?p)"
        using cmp_sorted_insert_at [OF tot sp, of i ?x] lp nonpos by simp
      then have "cmp_sorted cmp (take (Suc i) xs)"
        using lt "1.prems" by (simp add: take_Suc_conv_app_nth)
      moreover have "isort_loop cmp n xs i = isort_loop cmp n xs (Suc i)"
        using lt nonpos by (subst isort_loop.simps) simp
      ultimately show ?thesis
        using "1.IH"(2) [OF lt nonpos tot] "1.prems" by simp
    qed
  qed
qed

lemma isort_sorts:
  "cmp_total cmp \<Longrightarrow> cmp_sorted cmp (cbisort cmp xs) \<and> mset (cbisort cmp xs) = mset xs"
  unfolding cbisort_def
proof (rule isort_loop_sorts)
  show "cmp_sorted cmp (take 1 xs)" by (cases xs) (simp_all add: cmp_sorted_def)
qed simp_all

section \<open>Shell sort: the step-one pass, termination, permutation\<close>

lemma ssort_shift_one: "ssort_shift cmp 1 sw xs j = Some (isort_shift cmp sw xs j)"
proof (induction j arbitrary: xs)
  case 0
  then show ?case by (simp add: ssort_shift.simps)
next
  case (Suc j)
  then show ?case by (subst ssort_shift.simps) simp
qed

lemma ssort_run_one:
  "0 < i \<Longrightarrow> ssort_run cmp n 1 xs i = Some (isort_loop cmp n xs i)"
proof (induction cmp n xs i rule: isort_loop.induct)
  case (1 cmp n xs i)
  show ?case
  proof (cases "i < n")
    case False
    then show ?thesis
      by (subst ssort_run.simps, subst isort_loop.simps) simp
  next
    case lt: True
    show ?thesis
    proof (cases "0 < cmp (xs ! (i - 1)) (xs ! i)")
      case True
      obtain ys j where sh: "isort_shift cmp (xs ! i) xs i = (ys, j)" by fastforce
      show ?thesis
        using "1.IH"(1) [OF lt True sh [symmetric] refl] lt True sh
        by (subst ssort_run.simps, subst isort_loop.simps) (simp add: ssort_shift_one [simplified])
    next
      case False
      show ?thesis
        using "1.IH"(2) [OF lt False] lt False
        by (subst ssort_run.simps, subst isort_loop.simps) simp
    qed
  qed
qed

lemma ssort_bottoms_one: "ssort_bottoms cmp n 1 xs 0 = Some (isort_loop cmp n xs 1)"
proof -
  have "ssort_bottoms cmp n 1 ys 1 = Some ys" for ys by (subst ssort_bottoms.simps) simp
  then show ?thesis by (subst ssort_bottoms.simps) (simp add: ssort_run_one [simplified])
qed

lemma mset_update_swap:
  "j < length xs \<Longrightarrow> k < length xs \<Longrightarrow>
   mset (xs[j := xs ! k, k := sw]) = mset (xs[j := sw])"
proof -
  assume j: "j < length xs" and k: "k < length xs"
  let ?ys = "xs[j := sw]"
  have "mset (?ys[k := ?ys ! j, j := ?ys ! k]) = mset ?ys"
    using mset_swap [of j ?ys k] j k by simp
  moreover have "?ys[k := ?ys ! j, j := ?ys ! k] = xs[j := xs ! k, k := sw]"
  proof (cases "j = k")
    case False
    have "xs[j := sw, k := sw, j := xs ! k] = xs[k := sw, j := xs ! k]"
      using False by (metis list_update_overwrite list_update_swap)
    also have "\<dots> = xs[j := xs ! k, k := sw]"
      using False by (intro list_update_swap) simp
    finally show ?thesis using j k False by (simp add: nth_list_update)
  qed simp
  ultimately show ?thesis by simp
qed

lemma ssort_shift_mset:
  "0 < step \<Longrightarrow> j < length xs \<Longrightarrow>
   \<exists>ys k. ssort_shift cmp step sw xs j = Some (ys, k) \<and> length ys = length xs \<and> k < length xs \<and>
     mset (ys[k := sw]) = mset (xs[j := sw])"
proof (induction j arbitrary: xs rule: less_induct)
  case (less j)
  show ?case
  proof (cases "step \<le> j \<and> \<not> cmp (xs ! (j - step)) sw < 0")
    case True
    then have "j - step < j" "j - step < length xs" using less.prems by auto
    then obtain ys k where r: "ssort_shift cmp step sw (xs[j := xs ! (j - step)]) (j - step) = Some (ys, k)"
      "length ys = length xs" "k < length xs"
      "mset (ys[k := sw]) = mset (xs[j := xs ! (j - step), j - step := sw])"
      using less.IH [of "j - step" "xs[j := xs ! (j - step)]"] less.prems by auto
    have "mset (xs[j := xs ! (j - step), j - step := sw]) = mset (xs[j := sw])"
      using less.prems True by (intro mset_update_swap) auto
    then show ?thesis using r True by (subst ssort_shift.simps) auto
  next
    case False
    then show ?thesis using less.prems by (subst ssort_shift.simps) auto
  qed
qed

lemma ssort_run_mset:
  "0 < step \<Longrightarrow> n = length xs \<Longrightarrow> step \<le> i \<Longrightarrow>
   \<exists>ys. ssort_run cmp n step xs i = Some ys \<and> mset ys = mset xs"
proof (induction "n - i" arbitrary: xs i rule: less_induct)
  case less
  show ?case
  proof (cases "i < n")
    case False
    then show ?thesis by (subst ssort_run.simps) simp
  next
    case lt: True
    have IH: "\<exists>ys. ssort_run cmp n step zs (i + step) = Some ys \<and> mset ys = mset zs"
      if "length zs = n" for zs
      using less.hyps [of "i + step" zs] less.prems lt that by auto
    show ?thesis
    proof (cases "0 < cmp (xs ! (i - step)) (xs ! i)")
      case True
      obtain ys k where sh: "ssort_shift cmp step (xs ! i) xs i = Some (ys, k)" "length ys = length xs"
        "k < length xs" "mset (ys[k := xs ! i]) = mset (xs[i := xs ! i])"
        using ssort_shift_mset [of step i xs cmp "xs ! i"] less.prems lt by auto
      then show ?thesis
        using IH [of "ys[k := xs ! i]"] lt True less.prems by (subst ssort_run.simps) auto
    next
      case False
      then show ?thesis using IH [of xs] lt less.prems by (subst ssort_run.simps) auto
    qed
  qed
qed

lemma ssort_bottoms_mset:
  "0 < step \<Longrightarrow> n = length xs \<Longrightarrow>
   \<exists>ys. ssort_bottoms cmp n step xs bottom = Some ys \<and> mset ys = mset xs"
proof (induction cmp n step xs bottom rule: ssort_bottoms.induct)
  case (1 cmp n step xs bottom)
  show ?case
  proof (cases "bottom < step")
    case True
    obtain ys where "ssort_run cmp n step xs (bottom + step) = Some ys" "mset ys = mset xs"
      using ssort_run_mset [of step n xs "bottom + step" cmp] "1.prems" by auto
    moreover have "length ys = n" using calculation(2) "1.prems" by (metis size_mset)
    ultimately show ?thesis
      using "1.IH" [OF True] "1.prems" by (subst ssort_bottoms.simps) (auto simp: True)
  next
    case False
    then show ?thesis by (subst ssort_bottoms.simps) simp
  qed
qed

lemma ssort_steps_last_pass:
  "n = length xs \<Longrightarrow> 0 \<le> step \<Longrightarrow>
   \<exists>zs. ssort_steps cmp n step xs = Some (isort_loop cmp n zs 1) \<and> mset zs = mset xs"
proof (induction cmp n step xs rule: ssort_steps.induct)
  case (1 cmp n step xs)
  define st where "st = (if step < 5 then 1 else step)"
  have st: "0 < nat st" by (simp add: st_def)
  obtain ys where ys: "ssort_bottoms cmp n (nat st) xs 0 = Some ys" "mset ys = mset xs"
    using ssort_bottoms_mset [OF st, of n xs cmp 0] "1.prems" by auto
  have unf: "ssort_steps cmp n step xs =
             (if st < 2 then Some ys else ssort_steps cmp n ((st - 1) sdiv 3) ys)"
    using "1.prems" ys by (subst ssort_steps.simps) (simp add: st_def Let_def)
  show ?case
  proof (cases "st < 2")
    case True
    then have "st = 1" by (auto simp: st_def split: if_splits)
    then have "ys = isort_loop cmp n xs 1" using ys(1) ssort_bottoms_one [of cmp n xs] by simp
    then show ?thesis using unf True by auto
  next
    case False
    then have "0 \<le> (st - 1) sdiv 3" by simp
    moreover have "length ys = n" using ys(2) "1.prems" by (metis size_mset)
    ultimately obtain zs where "ssort_steps cmp n ((st - 1) sdiv 3) ys = Some (isort_loop cmp n zs 1)"
      "mset zs = mset ys"
      using "1.IH" [OF "1.prems"(2) st_def ys(1) False] by auto
    then show ?thesis using unf False ys(2) by auto
  qed
qed

lemma cbssort_start: "0 \<le> (int n - 1) sdiv 3"
  by (cases n) (simp_all add: signed_divide_int_def)

lemma ssort_sorts:
  assumes "cmp_total cmp"
  shows "\<exists>ys. cbssort cmp xs = Some ys \<and> cmp_sorted cmp ys \<and> mset ys = mset xs"
proof -
  obtain zs where zs: "cbssort cmp xs = Some (isort_loop cmp (length xs) zs 1)" "mset zs = mset xs"
    using ssort_steps_last_pass [OF refl cbssort_start, of cmp xs] by (auto simp: cbssort_def)
  have "length zs = length xs" using zs(2) by (metis size_mset)
  then have "cbisort cmp zs = isort_loop cmp (length xs) zs 1" by (simp add: cbisort_def)
  then show ?thesis using zs isort_sorts [OF assms, of zs] by auto
qed

section \<open>Heap sort: sift, build, extract\<close>

lemma cmp_ge_refl: "cmp_total cmp \<Longrightarrow> 0 \<le> cmp a a"
  by (simp add: cmp_total_refl)

lemma cmp_flip_neg: "cmp_total cmp \<Longrightarrow> cmp a b < 0 \<Longrightarrow> 0 \<le> cmp b a"
  unfolding cmp_total_def by (metis less_imp_le)

lemma cmp_flip_not_pos: "cmp_total cmp \<Longrightarrow> \<not> 0 < cmp a b \<Longrightarrow> 0 \<le> cmp b a"
  unfolding cmp_total_def by (metis not_less)

lemma cmp_ge_flip: "cmp_total cmp \<Longrightarrow> 0 \<le> cmp a b \<Longrightarrow> cmp b a \<le> 0"
  unfolding cmp_total_def by (metis not_less)

lemma cmp_ge_trans:
  assumes "cmp_total cmp" "0 \<le> cmp a b" "0 \<le> cmp b c"
  shows "0 \<le> cmp a c"
proof -
  have "cmp c a \<le> 0"
    using cmp_total_trans [OF assms(1) cmp_ge_flip [OF assms(1,3)] cmp_ge_flip [OF assms(1,2)]] .
  then show ?thesis using cmp_flip_not_pos [OF assms(1), of c a] by simp
qed

lemma hsort_sift_leaf:
  "t < 2 * m \<Longrightarrow> hsort_sift cmp (int t) xs m (2 * m) = Some xs"
  by (subst hsort_sift.simps) simp

lemma hsort_sift_step:
  assumes "2 * m \<le> t"
  shows "hsort_sift cmp (int t) xs m (2 * m) =
     (let i = (if 2 * m < t \<and> 0 < cmp (xs ! (2 * m + 1)) (xs ! (2 * m)) then 2 * m + 1 else 2 * m) in
      if 0 \<le> cmp (xs ! m) (xs ! i) then Some xs else hsort_sift cmp (int t) (xs[m := xs ! i, i := xs ! m]) i (2 * i))"
  by (subst hsort_sift.simps) (simp only: of_nat_le_iff of_nat_less_iff assms if_True)

text \<open>The children of \<open>m\<close> inside the heap are the \<open>k\<close> with \<open>k div 2 = m\<close>; the
  child the sift picks dominates them.\<close>

lemma sift_child_max:
  assumes tot: "cmp_total cmp" and mt: "2 * m \<le> t"
    and i: "i = (if 2 * m < t \<and> 0 < cmp (xs ! (2 * m + 1)) (xs ! (2 * m)) then 2 * m + 1 else 2 * m)"
    and k: "0 < k" "k \<le> t" "k div 2 = m"
  shows "0 \<le> cmp (xs ! i) (xs ! k)"
proof -
  have "k = 2 * m \<or> k = 2 * m + 1" using k(3) by auto
  then show ?thesis
    using i k(2) cmp_ge_refl [OF tot] cmp_flip_not_pos [OF tot] by (auto split: if_splits)
qed

lemma sift_child_pos:
  assumes "2 * m \<le> t"
    and i: "i = (if 2 * m < t \<and> 0 < cmp (xs ! (2 * m + 1)) (xs ! (2 * m)) then 2 * m + 1 else 2 * m)"
    and "i \<noteq> m"
  shows "m < i" "i \<le> t" "i div 2 = m" "0 < i"
  using assms by (auto split: if_splits)

lemma hsort_sift_heap:
  assumes tot: "cmp_total cmp"
  shows "t < length xs \<Longrightarrow> lo \<le> m \<Longrightarrow> m \<le> t \<Longrightarrow>
    (\<forall>k. 0 < k \<longrightarrow> k \<le> t \<longrightarrow> lo \<le> k div 2 \<longrightarrow> k div 2 \<noteq> m \<longrightarrow> 0 \<le> cmp (xs ! (k div 2)) (xs ! k)) \<Longrightarrow>
    (0 < m \<longrightarrow> lo \<le> m div 2 \<longrightarrow> (\<forall>k. 0 < k \<longrightarrow> k \<le> t \<longrightarrow> k div 2 = m \<longrightarrow> 0 \<le> cmp (xs ! (m div 2)) (xs ! k))) \<Longrightarrow>
    \<exists>ys. hsort_sift cmp (int t) xs m (2 * m) = Some ys \<and> heap_from cmp ys lo t \<and>
      mset ys = mset xs \<and> length ys = length xs \<and> (\<forall>j. j < m \<or> t < j \<longrightarrow> ys ! j = xs ! j)"
proof (induction "t - m" arbitrary: xs m rule: less_induct)
  case less
  note A = less.prems(4) and B = less.prems(5)
  show ?case
  proof (cases "2 * m \<le> t")
    case False
    have "heap_from cmp xs lo t"
      unfolding heap_from_def using A False by auto
    then show ?thesis using False hsort_sift_leaf [of t m cmp xs] by auto
  next
    case mt: True
    define i where "i = (if 2 * m < t \<and> 0 < cmp (xs ! (2 * m + 1)) (xs ! (2 * m)) then 2 * m + 1 else 2 * m)"
    have unf: "hsort_sift cmp (int t) xs m (2 * m) =
      (if 0 \<le> cmp (xs ! m) (xs ! i) then Some xs else hsort_sift cmp (int t) (xs[m := xs ! i, i := xs ! m]) i (2 * i))"
      unfolding hsort_sift_step [OF mt] Let_def i_def by (rule refl)
    have maxc: "0 \<le> cmp (xs ! i) (xs ! k)" if "0 < k" "k \<le> t" "k div 2 = m" for k
      using sift_child_max [where i = i and xs = xs and cmp = cmp, OF tot mt i_def that] .
    show ?thesis
    proof (cases "0 \<le> cmp (xs ! m) (xs ! i)")
      case stop: True
      have "heap_from cmp xs lo t"
        unfolding heap_from_def
        using A maxc stop cmp_ge_trans [OF tot] by metis
      then show ?thesis using unf stop by auto
    next
      case swap: False
      then have im: "i \<noteq> m" using cmp_ge_refl [OF tot, of "xs ! m"] by auto
      note ipos = sift_child_pos [where i = i and xs = xs and cmp = cmp, OF mt i_def im]
      let ?ys = "xs[m := xs ! i, i := xs ! m]"
      have ys_nth: "?ys ! j = (if j = i then xs ! m else if j = m then xs ! i else xs ! j)"
        if "j < length xs" for j using that ipos less.prems(1) by (auto simp: nth_list_update)
      have A': "0 \<le> cmp (?ys ! (k div 2)) (?ys ! k)"
        if k: "0 < k" "k \<le> t" "lo \<le> k div 2" "k div 2 \<noteq> i" for k
      proof -
        have kl: "k < length xs" "k div 2 < length xs" using k(2) less.prems(1) by auto
        consider "k = i" | "k \<noteq> i" "k = m" | "k \<noteq> i" "k \<noteq> m" "k div 2 = m" | "k \<noteq> i" "k \<noteq> m" "k div 2 \<noteq> m"
          by blast
        then show ?thesis
        proof cases
          case 1
          then show ?thesis using ys_nth kl ipos swap cmp_flip_neg [OF tot] by auto
        next
          case 2
          have "m div 2 \<noteq> m" "m div 2 \<noteq> i" using 2 k(1) ipos by auto
          then show ?thesis using 2 B k ys_nth kl ipos by auto
        next
          case 3
          then show ?thesis using ys_nth kl maxc k by auto
        next
          case 4
          then show ?thesis using ys_nth kl A k by auto
        qed
      qed
      have B': "0 \<le> cmp (?ys ! (i div 2)) (?ys ! k)"
        if k: "0 < k" "k \<le> t" "k div 2 = i" for k
      proof -
        have "k \<noteq> i" "k \<noteq> m" "k < length xs" using k ipos less.prems(1) by auto
        then show ?thesis using ys_nth A k ipos less.prems(2) ipos by auto
      qed
      have "\<exists>zs. hsort_sift cmp (int t) ?ys i (2 * i) = Some zs \<and> heap_from cmp zs lo t \<and>
          mset zs = mset ?ys \<and> length zs = length ?ys \<and> (\<forall>j. j < i \<or> t < j \<longrightarrow> zs ! j = ?ys ! j)"
      proof (rule less.hyps)
        show "t - i < t - m" "lo \<le> i" "i \<le> t" "t < length ?ys"
          using ipos less.prems(1-3) by auto
        show "\<forall>k. 0 < k \<longrightarrow> k \<le> t \<longrightarrow> lo \<le> k div 2 \<longrightarrow> k div 2 \<noteq> i \<longrightarrow> 0 \<le> cmp (?ys ! (k div 2)) (?ys ! k)"
          using A' by blast
        show "0 < i \<longrightarrow> lo \<le> i div 2 \<longrightarrow> (\<forall>k. 0 < k \<longrightarrow> k \<le> t \<longrightarrow> k div 2 = i \<longrightarrow> 0 \<le> cmp (?ys ! (i div 2)) (?ys ! k))"
          using B' by blast
      qed
      then obtain zs where zs: "hsort_sift cmp (int t) ?ys i (2 * i) = Some zs" "heap_from cmp zs lo t"
        "mset zs = mset ?ys" "length zs = length ?ys" "\<forall>j. j < i \<or> t < j \<longrightarrow> zs ! j = ?ys ! j"
        by blast
      have "mset ?ys = mset xs"
        using mset_swap [of i xs m] ipos less.prems(1,3) by simp
      moreover have "zs ! j = xs ! j" if "j < m \<or> t < j" for j
        using zs(5) that ipos by (auto simp: nth_list_update)
      ultimately show ?thesis using unf swap zs by auto
    qed
  qed
qed

lemma hsort_build_heap:
  assumes tot: "cmp_total cmp"
  shows "t < length xs \<Longrightarrow> b \<le> Suc t \<Longrightarrow> heap_from cmp xs b t \<Longrightarrow>
    \<exists>ys. hsort_build cmp (int t) xs b = Some ys \<and> heap_from cmp ys 0 t \<and> mset ys = mset xs \<and> length ys = length xs"
proof (induction b arbitrary: xs)
  case 0
  then show ?case by simp
next
  case (Suc b)
  have "\<exists>ys. hsort_sift cmp (int t) xs b (2 * b) = Some ys \<and> heap_from cmp ys b t \<and>
      mset ys = mset xs \<and> length ys = length xs \<and> (\<forall>j. j < b \<or> t < j \<longrightarrow> ys ! j = xs ! j)"
  proof (rule hsort_sift_heap [OF tot])
    show "t < length xs" "b \<le> b" "b \<le> t" using Suc.prems by auto
    show "\<forall>k. 0 < k \<longrightarrow> k \<le> t \<longrightarrow> b \<le> k div 2 \<longrightarrow> k div 2 \<noteq> b \<longrightarrow> 0 \<le> cmp (xs ! (k div 2)) (xs ! k)"
      using Suc.prems(3) by (auto simp: heap_from_def)
    show "0 < b \<longrightarrow> b \<le> b div 2 \<longrightarrow> (\<forall>k. 0 < k \<longrightarrow> k \<le> t \<longrightarrow> k div 2 = b \<longrightarrow> 0 \<le> cmp (xs ! (b div 2)) (xs ! k))"
      by auto
  qed
  then obtain ys where "hsort_sift cmp (int t) xs b (2 * b) = Some ys" "heap_from cmp ys b t"
      "mset ys = mset xs" "length ys = length xs"
    by blast
  then show ?case using Suc.IH [of ys] Suc.prems by auto
qed

lemma heap_root_max:
  assumes tot: "cmp_total cmp" and h: "heap_from cmp xs 0 t"
  shows "k \<le> t \<Longrightarrow> cmp (xs ! k) (xs ! 0) \<le> 0"
proof (induction k rule: less_induct)
  case (less k)
  show ?case
  proof (cases "k = 0")
    case True
    then show ?thesis using cmp_total_refl [OF tot] by simp
  next
    case False
    then have "cmp (xs ! (k div 2)) (xs ! 0) \<le> 0" using less by auto
    moreover have "cmp (xs ! k) (xs ! (k div 2)) \<le> 0"
      using h False less.prems cmp_ge_flip [OF tot] by (auto simp: heap_from_def)
    ultimately show ?thesis using cmp_total_trans [OF tot] by blast
  qed
qed

lemma mset_take_eq:
  "mset xs = mset ys \<Longrightarrow> drop n xs = drop n ys \<Longrightarrow> mset (take n xs) = mset (take n ys)"
  by (metis add_right_cancel append_take_drop_id mset_append)

lemma hsort_extract_step:
  "hsort_extract cmp (int (Suc t)) xs =
     do { ys \<leftarrow> hsort_sift cmp (int t) (xs[0 := xs ! Suc t, Suc t := xs ! 0]) 0 (2 * 0);
          hsort_extract cmp (int t) ys }"
  by (subst hsort_extract.simps) (simp add: nat_add_distrib)

lemma hsort_extract_sorts:
  assumes tot: "cmp_total cmp"
  shows "t < length xs \<Longrightarrow> heap_from cmp xs 0 t \<Longrightarrow> cmp_sorted cmp (drop (Suc t) xs) \<Longrightarrow>
    (\<forall>a \<in> set (take (Suc t) xs). \<forall>b \<in> set (drop (Suc t) xs). cmp a b \<le> 0) \<Longrightarrow>
    \<exists>ys. hsort_extract cmp (int t) xs = Some ys \<and> cmp_sorted cmp ys \<and> mset ys = mset xs"
proof (induction t arbitrary: xs)
  case 0
  have "hsort_extract cmp (int 0) xs = Some xs" by (subst hsort_extract.simps) simp
  moreover have "cmp_sorted cmp xs"
  proof -
    have xs: "xs = xs ! 0 # drop 1 xs" using "0.prems"(1) by (simp add: Cons_nth_drop_Suc)
    have "take 1 xs = [xs ! 0]" using "0.prems"(1) by (simp add: take_Suc_conv_app_nth)
    then have "\<forall>b \<in> set (drop 1 xs). cmp (xs ! 0) b \<le> 0" using "0.prems"(4) by simp
    then have "cmp_sorted cmp (xs ! 0 # drop 1 xs)" using "0.prems"(3) by (simp add: cmp_sorted_def)
    then show ?thesis using xs by simp
  qed
  ultimately show ?case by simp
next
  case (Suc t)
  let ?xs' = "xs[0 := xs ! Suc t, Suc t := xs ! 0]"
  have len: "Suc t < length xs" using Suc.prems(1) .
  have "\<exists>zs. hsort_sift cmp (int t) ?xs' 0 (2 * 0) = Some zs \<and> heap_from cmp zs 0 t \<and>
      mset zs = mset ?xs' \<and> length zs = length ?xs' \<and> (\<forall>j. j < 0 \<or> t < j \<longrightarrow> zs ! j = ?xs' ! j)"
  proof (rule hsort_sift_heap [OF tot])
    show "t < length ?xs'" "0 \<le> (0::nat)" "0 \<le> t" using len by auto
    show "\<forall>k. 0 < k \<longrightarrow> k \<le> t \<longrightarrow> 0 \<le> k div 2 \<longrightarrow> k div 2 \<noteq> 0 \<longrightarrow> 0 \<le> cmp (?xs' ! (k div 2)) (?xs' ! k)"
      using Suc.prems(2) len by (auto simp: heap_from_def nth_list_update)
  qed simp
  then obtain zs where zs: "hsort_sift cmp (int t) ?xs' 0 (2 * 0) = Some zs" "heap_from cmp zs 0 t"
      "mset zs = mset ?xs'" "length zs = length xs" "\<forall>j. t < j \<longrightarrow> zs ! j = ?xs' ! j"
    by auto
  have dz: "drop (Suc t) zs = xs ! 0 # drop (Suc (Suc t)) xs"
  proof (rule nth_equalityI)
    show "length (drop (Suc t) zs) = length (xs ! 0 # drop (Suc (Suc t)) xs)" using zs(4) len by simp
    fix j assume "j < length (drop (Suc t) zs)"
    then show "drop (Suc t) zs ! j = (xs ! 0 # drop (Suc (Suc t)) xs) ! j"
      using zs(4,5) len by (cases j) (auto simp: nth_list_update)
  qed
  have root: "cmp a (xs ! 0) \<le> 0" if "a \<in> set (take (Suc (Suc t)) xs)" for a
  proof -
    have "\<exists>k < length (take (Suc (Suc t)) xs). take (Suc (Suc t)) xs ! k = a"
      using that by (simp only: in_set_conv_nth)
    then obtain k where "k < Suc (Suc t)" "a = xs ! k" by auto
    then show ?thesis using heap_root_max [OF tot Suc.prems(2)] by simp
  qed
  have mx: "mset (take (Suc (Suc t)) ?xs') = mset (take (Suc (Suc t)) xs)"
    using mset_swap [of "Suc t" "take (Suc (Suc t)) xs" 0] len by (simp add: take_update_swap)
  have tz: "set (take (Suc t) zs) \<subseteq> set (take (Suc (Suc t)) xs)"
  proof -
    have "drop (Suc t) zs = drop (Suc t) ?xs'"
      using dz len by (simp add: Cons_nth_drop_Suc [symmetric] nth_list_update)
    then have "set (take (Suc t) zs) = set (take (Suc t) ?xs')"
      using mset_take_eq [OF zs(3)] by (metis set_mset_mset)
    also have "\<dots> \<subseteq> set (take (Suc (Suc t)) ?xs')" by (rule set_take_subset_set_take) simp
    also have "\<dots> = set (take (Suc (Suc t)) xs)" using mx by (metis set_mset_mset)
    finally show ?thesis .
  qed
  have "\<exists>ys. hsort_extract cmp (int t) zs = Some ys \<and> cmp_sorted cmp ys \<and> mset ys = mset zs"
  proof (rule Suc.IH)
    show "t < length zs" "heap_from cmp zs 0 t" using zs len by auto
    have "take (Suc (Suc t)) xs ! 0 \<in> set (take (Suc (Suc t)) xs)" using len by (intro nth_mem) simp
    then have "xs ! 0 \<in> set (take (Suc (Suc t)) xs)" by simp
    then have "\<forall>b \<in> set (drop (Suc (Suc t)) xs). cmp (xs ! 0) b \<le> 0"
      using Suc.prems(4) by blast
    then show "cmp_sorted cmp (drop (Suc t) zs)"
      using Suc.prems(3) by (simp add: dz cmp_sorted_def)
    show "\<forall>a \<in> set (take (Suc t) zs). \<forall>b \<in> set (drop (Suc t) zs). cmp a b \<le> 0"
      using tz root Suc.prems(4) by (auto simp: dz)
  qed
  then obtain ys where ys: "hsort_extract cmp (int t) zs = Some ys" "cmp_sorted cmp ys" "mset ys = mset zs"
    by blast
  have "hsort_extract cmp (int (Suc t)) xs = Some ys"
    unfolding hsort_extract_step using zs(1) ys(1) by simp
  moreover have "mset ?xs' = mset xs" using mset_swap [of "Suc t" xs 0] len by (cases xs) simp_all
  ultimately show ?case using ys zs(3) by simp
qed

lemma cbhsort_Nil: "cbhsort cmp [] = Some []"
proof -
  have "hsort_sift cmp (-1) [] 0 0 = Some []" by (subst hsort_sift.simps) simp
  moreover have "hsort_extract cmp (-1) [] = Some []" by (subst hsort_extract.simps) simp
  ultimately show ?thesis
    by (simp add: cbhsort_def signed_divide_int_def numeral_2_eq_2)
qed

lemma heap_from_leaves: "heap_from cmp xs (t div 2 + 1) t"
  by (auto simp: heap_from_def dest: div_le_mono [of _ t 2])

lemma hsort_sorts:
  assumes tot: "cmp_total cmp"
  shows "\<exists>ys. cbhsort cmp xs = Some ys \<and> cmp_sorted cmp ys \<and> mset ys = mset xs"
proof (cases xs rule: rev_cases)
  case Nil
  then show ?thesis by (simp add: cbhsort_Nil cmp_sorted_def)
next
  case (snoc ws w)
  define t where "t = length ws"
  have len: "length xs = Suc t" "t < length xs" using snoc t_def by simp_all
  have b0: "nat (int t sdiv 2 + 1) = t div 2 + 1" by (simp add: nat_add_distrib)
  obtain ys where ys: "hsort_build cmp (int t) xs (t div 2 + 1) = Some ys" "heap_from cmp ys 0 t"
      "mset ys = mset xs" "length ys = length xs"
    using hsort_build_heap [OF tot len(2), of "t div 2 + 1"] heap_from_leaves [of cmp xs t] by auto
  obtain zs where zs: "hsort_extract cmp (int t) ys = Some zs" "cmp_sorted cmp zs" "mset zs = mset ys"
    using hsort_extract_sorts [OF tot, of t ys] ys(2,4) len by (auto simp: cmp_sorted_def)
  have "cbhsort cmp xs = Some zs"
    using ys(1) zs(1) len(1) b0 by (simp add: cbhsort_def)
  then show ?thesis using zs ys(3) by simp
qed

section \<open>Quick sort: the partition and the recursion\<close>

lemma qsort_part_spec:
  assumes n: "10 \<le> length xs0"
  shows "cmp_total cmp \<Longrightarrow> pv = xs0 ! (length xs0 div 2) \<Longrightarrow>
    part_inv cmp xs0 pv xs tp bottom \<Longrightarrow> qsort_part cmp pv xs tp bottom = (ys, tp', b') \<Longrightarrow>
    part_inv cmp xs0 pv ys tp' b' \<and> b' < tp'"
proof (induction cmp pv xs tp bottom rule: qsort_part.induct)
  case (1 cmp pv xs tp bottom)
  note tot = "1.prems"(1) and pv = "1.prems"(2) and inv = "1.prems"(3) and res = "1.prems"(4)
  define N where "N = length xs0"
  have I: "length xs = N" "mset xs = mset xs0" "0 \<le> tp" "tp \<le> int N - 1" "0 \<le> bottom" "bottom \<le> int N - 1"
    "tp \<le> bottom + 2" "\<forall>j. int j < tp \<longrightarrow> cmp (xs ! j) pv \<le> 0"
    "\<forall>j. bottom < int j \<longrightarrow> j < N \<longrightarrow> 0 \<le> cmp (xs ! j) pv"
    "bottom = int N - 1 \<longrightarrow> tp \<le> int (N div 2) \<and> xs = xs0"
    "tp = 0 \<longrightarrow> int (N div 2) \<le> bottom \<and> xs = xs0"
    using inv by (simp_all add: part_inv_def N_def)
  have mid: "1 \<le> int (N div 2)" "int (N div 2) + 2 < int N" using n unfolding N_def by presburger+
  have pv_mid: "xs ! (N div 2) = pv" if "xs = xs0" using that pv by (simp add: N_def)
  have pv0: "cmp pv pv = 0" using cmp_total_refl [OF tot] .
  show ?case
  proof (cases "tp - 1 < bottom")
    case False
    then have "qsort_part cmp pv xs tp bottom = (xs, tp, bottom)" by (subst qsort_part.simps) simp
    then show ?thesis using res inv False by auto
  next
    case loop: True
    show ?thesis
    proof (cases "cmp (xs ! nat tp) pv < 0")
      case adv: True
      have step: "qsort_part cmp pv xs tp bottom = qsort_part cmp pv xs (tp + 1) bottom"
        using loop adv by (subst qsort_part.simps) simp
      have ne: "tp \<noteq> int (N div 2)" if "xs = xs0"
      proof
        assume "tp = int (N div 2)"
        then have "nat tp = N div 2" by simp
        then show False using adv pv_mid [OF that] pv0 by simp
      qed
      have "tp + 1 \<le> int N - 1"
      proof (rule ccontr)
        assume "\<not> ?thesis"
        then have "bottom = int N - 1" "tp = int N - 1" using loop I(4,6) by auto
        then show False using I(10) mid by simp
      qed
      moreover have "\<forall>j. int j < tp + 1 \<longrightarrow> cmp (xs ! j) pv \<le> 0"
      proof (intro allI impI)
        fix j assume "int j < tp + 1"
        then have "int j < tp \<or> j = nat tp" by auto
        then show "cmp (xs ! j) pv \<le> 0" using I(8) adv by auto
      qed
      moreover have "bottom = int N - 1 \<longrightarrow> tp + 1 \<le> int (N div 2) \<and> xs = xs0"
        using I(10) ne by auto
      ultimately have "part_inv cmp xs0 pv xs (tp + 1) bottom"
        using I loop unfolding part_inv_def N_def [symmetric] by auto
      then show ?thesis using "1.IH"(1) [OF loop adv tot pv] res step by simp
    next
      case nadv: False
      show ?thesis
      proof (cases "0 < cmp (xs ! nat bottom) pv")
        case ret: True
        have step: "qsort_part cmp pv xs tp bottom = qsort_part cmp pv xs tp (bottom - 1)"
          using loop nadv ret by (subst qsort_part.simps) simp
        have ne: "bottom \<noteq> int (N div 2)" if "xs = xs0"
        proof
          assume "bottom = int (N div 2)"
          then have "nat bottom = N div 2" by simp
          then show False using ret pv_mid [OF that] pv0 by simp
        qed
        have "0 \<le> bottom - 1"
        proof (rule ccontr)
          assume "\<not> ?thesis"
          then have "bottom = 0" "tp = 0" using loop I(3,5) by auto
          then show False using I(11) mid by simp
        qed
        moreover have "\<forall>j. bottom - 1 < int j \<longrightarrow> j < N \<longrightarrow> 0 \<le> cmp (xs ! j) pv"
        proof (intro allI impI)
          fix j assume "bottom - 1 < int j" "j < N"
          then have "bottom < int j \<or> j = nat bottom" by auto
          then show "0 \<le> cmp (xs ! j) pv" using I(9) ret \<open>j < N\<close> by auto
        qed
        moreover have "tp = 0 \<longrightarrow> int (N div 2) \<le> bottom - 1 \<and> xs = xs0"
          using I(11) ne by auto
        ultimately have "part_inv cmp xs0 pv xs tp (bottom - 1)"
          using I loop unfolding part_inv_def N_def [symmetric] by auto
        then show ?thesis using "1.IH"(2) [OF loop nadv ret tot pv] res step by simp
      next
        case nret: False
        define xs' where "xs' = (if tp \<noteq> bottom then xs[nat tp := xs ! nat bottom, nat bottom := xs ! nat tp] else xs)"
        have step: "qsort_part cmp pv xs tp bottom = qsort_part cmp pv xs' (tp + 1) (bottom - 1)"
          using loop nadv nret by (subst qsort_part.simps) (simp add: xs'_def)
        have tb: "nat tp < N" "nat bottom < N" "nat tp \<le> nat bottom" using loop I(3-6) by auto
        have nth': "xs' ! j = (if j = nat bottom then xs ! nat tp else if j = nat tp then xs ! nat bottom else xs ! j)"
          if "j < N" for j using that tb I(1) by (auto simp: xs'_def nth_list_update)
        have "tp + 1 \<le> int N - 1"
        proof (rule ccontr)
          assume "\<not> ?thesis"
          then have "bottom = int N - 1" "tp = int N - 1" using loop I(4,6) by auto
          then show False using I(10) mid by simp
        qed
        moreover have "0 \<le> bottom - 1"
        proof (rule ccontr)
          assume "\<not> ?thesis"
          then have "bottom = 0" "tp = 0" using loop I(3,5) by auto
          then show False using I(11) mid by simp
        qed
        moreover have "\<forall>j. int j < tp + 1 \<longrightarrow> cmp (xs' ! j) pv \<le> 0"
        proof (intro allI impI)
          fix j assume j: "int j < tp + 1"
          then have "j < N" using I(4) by auto
          show "cmp (xs' ! j) pv \<le> 0"
          proof (cases "int j < tp")
            case True
            then show ?thesis using nth' [OF \<open>j < N\<close>] I(8) loop by auto
          next
            case False
            then have "j = nat tp" using j by auto
            then show ?thesis using nth' [OF \<open>j < N\<close>] nret by auto
          qed
        qed
        moreover have "\<forall>j. bottom - 1 < int j \<longrightarrow> j < N \<longrightarrow> 0 \<le> cmp (xs' ! j) pv"
        proof (intro allI impI)
          fix j assume j: "bottom - 1 < int j" "j < N"
          show "0 \<le> cmp (xs' ! j) pv"
          proof (cases "bottom < int j")
            case True
            then show ?thesis using nth' [OF j(2)] I(9) j loop by auto
          next
            case False
            then have "j = nat bottom" using j by auto
            then show ?thesis using nth' [OF j(2)] nadv by auto
          qed
        qed
        moreover have "mset xs' = mset xs0" "length xs' = N"
          using I(1,2) tb mset_swap [of "nat bottom" xs "nat tp"] by (simp_all add: xs'_def)
        ultimately have "part_inv cmp xs0 pv xs' (tp + 1) (bottom - 1)"
          using I loop unfolding part_inv_def N_def [symmetric] by auto
        then show ?thesis using "1.IH"(3) [OF loop nadv nret tot pv, folded xs'_def] res step by simp
      qed
    qed
  qed
qed

lemma cmp_le_flip: "cmp_total cmp \<Longrightarrow> cmp a b \<le> 0 \<Longrightarrow> 0 \<le> cmp b a"
  using cmp_flip_not_pos [of cmp a b] by simp

lemma cmp_sorted_le_last:
  "cmp_total cmp \<Longrightarrow> cmp_sorted cmp l \<Longrightarrow> x \<in> set l \<Longrightarrow> cmp x (last l) \<le> 0"
  by (induction l) (auto simp: cmp_sorted_def cmp_total_refl)

lemma cmp_sorted_short: "length xs \<le> 1 \<Longrightarrow> cmp_sorted cmp xs"
  by (cases xs) (auto simp: cmp_sorted_def)

lemma part_inv_start: "xs \<noteq> [] \<Longrightarrow> part_inv cmp xs (xs ! (length xs div 2)) xs 0 (int (length xs) - 1)"
  by (auto simp: part_inv_def)

lemma cbqsortsub_sorts:
  assumes tot: "cmp_total cmp"
  shows "\<exists>ys. cbqsortsub cmp xs = Some ys \<and> cmp_sorted cmp ys \<and> mset ys = mset xs"
proof (induction "length xs" arbitrary: xs rule: less_induct)
  case less
  show ?case
  proof (cases "length xs < 10")
    case True
    then show ?thesis
      using isort_sorts [OF tot, of xs] cmp_sorted_short [of xs cmp]
      by (subst cbqsortsub.simps) auto
  next
    case big: False
    define N where "N = length xs"
    define pv where "pv = xs ! (N div 2)"
    obtain ys tp b where part: "qsort_part cmp pv xs 0 (int N - 1) = (ys, tp, b)"
      by (metis prod_cases3)
    have ne: "xs \<noteq> []" using big by auto
    have "part_inv cmp xs pv ys tp b \<and> b < tp"
      using qsort_part_spec [of xs cmp pv xs 0 "int N - 1" ys tp b] big tot part part_inv_start [OF ne, of cmp]
      by (simp add: N_def pv_def)
    then have P: "length ys = N" "mset ys = mset xs" "0 \<le> b" "b < tp" "tp \<le> int N - 1" "tp \<le> b + 2"
      "\<forall>j. int j < tp \<longrightarrow> cmp (ys ! j) pv \<le> 0" "\<forall>j. b < int j \<longrightarrow> j < N \<longrightarrow> 0 \<le> cmp (ys ! j) pv"
      by (simp_all add: part_inv_def N_def)
    define T where "T = nat tp"
    define B where "B = nat b"
    have TB: "T < N" "B < T" "T \<le> B + 2" "nat (b + 1) = B + 1" using P(3-6) by (auto simp: T_def B_def)
    have "length (take T ys) < length xs" using TB P(1) by (simp add: N_def)
    then obtain l where l: "cbqsortsub cmp (take T ys) = Some l" "cmp_sorted cmp l" "mset l = mset (take T ys)"
      using less.hyps by blast
    have ll: "length l = T" using l(3) TB P(1) by (metis size_mset length_take min_absorb2 less_imp_le)
    define zs where "zs = l @ drop T ys"
    have "length (drop (B + 1) zs) < length xs" using TB P(1) ll by (simp add: zs_def N_def)
    then obtain r where r: "cbqsortsub cmp (drop (B + 1) zs) = Some r" "cmp_sorted cmp r" "mset r = mset (drop (B + 1) zs)"
      using less.hyps by blast
    have res: "cbqsortsub cmp xs = Some (take (B + 1) zs @ r)"
      using big part l(1) r(1) TB(4) by (subst cbqsortsub.simps) (simp add: N_def pv_def T_def zs_def Let_def)
    have low: "cmp a pv \<le> 0" if "a \<in> set l" for a
    proof -
      have "a \<in> set (take T ys)" using that l(3) by (metis set_mset_mset)
      then obtain j where "j < T" "a = ys ! j" using TB P(1) by (auto simp: in_set_conv_nth)
      then show ?thesis using P(7) by (auto simp: T_def)
    qed
    have high: "0 \<le> cmp c pv" if "c \<in> set (drop (B + 1) zs)" for c
    proof -
      have "\<exists>k < length (drop (B + 1) zs). drop (B + 1) zs ! k = c" using that by (simp only: in_set_conv_nth)
      then obtain k where k: "k < length (drop (B + 1) zs)" "drop (B + 1) zs ! k = c" by blast
      define j where "j = B + 1 + k"
      have lz: "length zs = N" using ll TB P(1) by (simp add: zs_def)
      have "c = zs ! j" using k(2) [symmetric] TB lz by (simp add: j_def)
      moreover have "B + 1 \<le> j" "j < N" "b < int j"
        using k(1) TB lz P(3) by (auto simp: j_def B_def)
      ultimately have j: "B + 1 \<le> j" "j < N" "c = zs ! j" "b < int j" by auto
      show ?thesis
      proof (cases "j < T")
        case False
        then show ?thesis using j P(1,8) ll TB by (simp add: zs_def nth_append)
      next
        case True
        have j1: "j = T - 1" using True j(1) TB by auto
        have "l \<noteq> []" using True ll by auto
        then have jT: "j = T - 1" "zs ! j = last l" using j1 True ll
          by (simp_all add: zs_def nth_append last_conv_nth)
        have "take T ys ! j \<in> set (take T ys)" using True TB P(1) by (intro nth_mem) simp
        moreover have "set (take T ys) = set l" using l(3) by (metis set_mset_mset)
        ultimately have "ys ! j \<in> set l" using True by simp
        then have "0 \<le> cmp (last l) (ys ! j)"
          using cmp_le_flip [OF tot cmp_sorted_le_last [OF tot l(2)]] by blast
        moreover have "0 \<le> cmp (ys ! j) pv" using P(8) j by simp
        ultimately show ?thesis using cmp_ge_trans [OF tot] jT j(3) by metis
      qed
    qed
    have tz: "take (B + 1) zs = take (B + 1) l" using TB ll by (simp add: zs_def)
    have "cmp_sorted cmp (take (B + 1) zs @ r)"
    proof -
      have "cmp a c \<le> 0" if "a \<in> set (take (B + 1) l)" "c \<in> set r" for a c
      proof -
        have "cmp a pv \<le> 0" using low that(1) by (meson in_set_takeD)
        moreover have "cmp pv c \<le> 0"
          using high [of c] that(2) r(3) cmp_ge_flip [OF tot] by (metis set_mset_mset)
        ultimately show ?thesis using cmp_total_trans [OF tot] by blast
      qed
      then show ?thesis using l(2) r(2) tz
        by (auto simp: cmp_sorted_def sorted_wrt_append sorted_wrt_take)
    qed
    moreover have "mset (take (B + 1) zs @ r) = mset xs"
    proof -
      have "mset (take (B + 1) zs @ r) = mset (take (B + 1) zs @ drop (B + 1) zs)"
        using r(3) by (simp only: mset_append)
      also have "\<dots> = mset zs" by (simp only: append_take_drop_id)
      also have "\<dots> = mset (take T ys @ drop T ys)" using l(3)
        by (simp only: zs_def mset_append)
      also have "\<dots> = mset ys" by (simp only: append_take_drop_id)
      finally show ?thesis using P(2) by simp
    qed
    ultimately show ?thesis using res by simp
  qed
qed


section \<open>Lists: the element order, \<open>cblistlsearch\<close>, \<open>cblistsort\<close>\<close>

lemma elemcmp_loop_suffix_gen:
  "i + k = min (length a) (length b) \<Longrightarrow>
   elemcmp_loop a b (min (length a) (length b)) i = elem_suffix (drop i a) (drop i b)"
proof (induction k arbitrary: i)
  case 0
  then have "drop i a = [] \<or> drop i b = []" by (simp add: min_def split: if_splits)
  then show ?case using "0.prems"
    by (auto simp: elemcmp_loop.simps [of a b] neq_Nil_conv min_def split: if_splits)
next
  case (Suc k)
  then have lt: "i < length a" "i < length b" by simp_all
  have da: "drop i a = a ! i # drop (Suc i) a" and db: "drop i b = b ! i # drop (Suc i) b"
    using lt by (simp_all add: Cons_nth_drop_Suc)
  have IH: "elemcmp_loop a b (min (length a) (length b)) (Suc i) = elem_suffix (drop (Suc i) a) (drop (Suc i) b)"
    using Suc.IH [of "Suc i"] Suc.prems by simp
  show ?case
    using lt IH by (simp add: elemcmp_loop.simps [of a b _ i] da db)
qed

lemma cblistelemcmp_suffix: "cblistelemcmp a b = elem_suffix a b"
  using elemcmp_loop_suffix_gen [of 0 "min (length a) (length b)" a b] by (simp add: cblistelemcmp_def)

lemma sint_byte_inj: "(sint x = sint y) = (x = (y::byte))"
  by (metis signed_word_eqI)

lemma Nil_less_map_sint: "([] < map sint ys) = (ys \<noteq> ([] :: bytes))"
  by (cases ys) simp_all

lemma elem_suffix_sign:
  "(elem_suffix xs ys < 0) = (map sint xs < map sint ys) \<and>
   (elem_suffix xs ys = 0) = (map sint xs = map sint ys)"
proof (induction xs ys rule: elem_suffix.induct)
  case (1 x xs y ys)
  then show ?case by (auto simp: sint_byte_inj)
qed (auto simp: Nil_less_map_sint)

lemma cmp_total_cblistelemcmp: "cmp_total cblistelemcmp"
  by (rule cmp_total_by_order [where f = "map sint"]) (simp add: cblistelemcmp_suffix elem_suffix_sign)

lemma lsearch_loop_spec:
  "st \<le> i \<Longrightarrow> i \<le> e \<Longrightarrow> e \<le> length a \<Longrightarrow>
   (lsearch_loop a key st i e = -1 \<longleftrightarrow> key \<notin> set (take (e - i) (drop i a))) \<and>
   (lsearch_loop a key st i e \<noteq> -1 \<longrightarrow>
      (\<exists>j. i \<le> j \<and> j < e \<and> a ! j = key \<and> lsearch_loop a key st i e = int j - int st \<and>
           (\<forall>k. i \<le> k \<and> k < j \<longrightarrow> a ! k \<noteq> key)))"
proof (induction a key st i e rule: lsearch_loop.induct)
  case (1 a key st i e)
  show ?case
  proof (cases "i < e")
    case False
    then have "lsearch_loop a key st i e = -1" by (subst lsearch_loop.simps) simp
    then show ?thesis using False by simp
  next
    case lt: True
    have d: "take (e - i) (drop i a) = a ! i # take (e - Suc i) (drop (Suc i) a)"
    proof -
      have "e - i = Suc (e - Suc i)" using lt by simp
      then show ?thesis using lt "1.prems" by (simp add: Cons_nth_drop_Suc [symmetric])
    qed
    show ?thesis
    proof (cases "a ! i = key")
      case True
      then have "lsearch_loop a key st i e = int i - int st" using lt by (subst lsearch_loop.simps) simp
      then show ?thesis using True lt "1.prems" d by auto
    next
      case False
      have IH: "(lsearch_loop a key st (Suc i) e = -1 \<longleftrightarrow> key \<notin> set (take (e - Suc i) (drop (Suc i) a))) \<and>
        (lsearch_loop a key st (Suc i) e \<noteq> -1 \<longrightarrow>
          (\<exists>j. Suc i \<le> j \<and> j < e \<and> a ! j = key \<and> lsearch_loop a key st (Suc i) e = int j - int st \<and>
               (\<forall>k. Suc i \<le> k \<and> k < j \<longrightarrow> a ! k \<noteq> key)))"
        using "1.IH" [OF lt False] "1.prems" lt by simp
      have eq: "lsearch_loop a key st i e = lsearch_loop a key st (Suc i) e"
        using lt False by (subst lsearch_loop.simps) simp
      show ?thesis
        unfolding eq d using IH False by (auto simp: Suc_le_eq) (metis le_less less_Suc_eq_le not_less_eq_eq)
    qed
  qed
qed

lemma length_cblist_abs: "cblist_wf l \<Longrightarrow> length (cblist_abs l) = num l"
  by (auto simp: cblist_abs_def cblist_wf_def min_def)

lemma cblistlsearch_spec:
  fixes ptr :: bytes and sz :: int
  assumes wf: "cblist_wf l"
  defines "xs \<equiv> cblist_abs l" and "key \<equiv> c_region ptr 0 sz"
  shows "(cblistlsearch l ptr sz = -1 \<longleftrightarrow> key \<notin> set xs) \<and>
         (cblistlsearch l ptr sz \<noteq> -1 \<longrightarrow>
            (let r = nat (cblistlsearch l ptr sz) in
             0 \<le> cblistlsearch l ptr sz \<and> r < length xs \<and> xs ! r = key \<and> key \<notin> set (take r xs)))"
proof -
  let ?st = "lstart l" and ?e = "lstart l + num l"
  have b: "?st \<le> ?st" "?st \<le> ?e" "?e \<le> length (arr l)" using wf by (auto simp: cblist_wf_def)
  have tx: "take (?e - ?st) (drop ?st (arr l)) = xs" by (simp add: xs_def cblist_abs_def)
  note S = lsearch_loop_spec [OF b, of key]
  have part1: "cblistlsearch l ptr sz = -1 \<longleftrightarrow> key \<notin> set xs"
    using S tx by (simp add: cblistlsearch_def key_def)
  moreover have "let r = nat (cblistlsearch l ptr sz) in
      0 \<le> cblistlsearch l ptr sz \<and> r < length xs \<and> xs ! r = key \<and> key \<notin> set (take r xs)"
    if ne: "cblistlsearch l ptr sz \<noteq> -1"
  proof -
    obtain j where j: "?st \<le> j" "j < ?e" "arr l ! j = key"
      "cblistlsearch l ptr sz = int j - int ?st" "\<forall>k. ?st \<le> k \<and> k < j \<longrightarrow> arr l ! k \<noteq> key"
      using S ne by (auto simp: cblistlsearch_def key_def)
    have r: "nat (cblistlsearch l ptr sz) = j - ?st" using j(1,4) by simp
    have nth: "xs ! k = arr l ! (?st + k)" if "k < num l" for k
      using that b by (simp add: xs_def cblist_abs_def)
    have "key \<notin> set (take (j - ?st) xs)"
    proof
      assume "key \<in> set (take (j - ?st) xs)"
      then obtain k where "k < j - ?st" "take (j - ?st) xs ! k = key" by (auto simp: in_set_conv_nth)
      then show False using j nth [of k] by simp
    qed
    then show ?thesis using j r nth [of "j - ?st"] length_cblist_abs [OF wf] by (simp add: xs_def Let_def)
  qed
  ultimately show ?thesis by blast
qed

lemma cblistsort_result:
  assumes wf: "cblist_wf l"
  shows "\<exists>l'. cblistsort l = Some l' \<and> cblist_wf l' \<and> lstart l' = lstart l \<and> num l' = num l \<and>
    cmp_sorted cblistelemcmp (cblist_abs l') \<and> mset (cblist_abs l') = mset (cblist_abs l)"
proof -
  obtain ys where ys: "cbqsort cblistelemcmp (cblist_abs l) = Some ys" "cmp_sorted cblistelemcmp ys"
      "mset ys = mset (cblist_abs l)"
    using cbqsortsub_sorts [OF cmp_total_cblistelemcmp] by (auto simp: cbqsort_def)
  have ly: "length ys = num l" using ys(3) length_cblist_abs [OF wf] by (metis size_mset)
  let ?l' = "l\<lparr>arr := take (lstart l) (arr l) @ ys @ drop (lstart l + num l) (arr l)\<rparr>"
  have "cblist_wf ?l'" "cblist_abs ?l' = ys" using wf ly by (auto simp: cblist_wf_def cblist_abs_def)
  then show ?thesis using ys ly by (auto simp: cblistsort_def)
qed

section \<open>Properties of the sorts\<close>

lemma cmp_total_int_minus: "cmp_total (\<lambda>a b :: int. a - b)"
  by (simp add: cmp_total_def)

text \<open>C20. \<open>cbisort\<close> sorts: for a comparison that is a total preorder the insertion
  sort returns a permutation of the array in which no element is greater than the
  next.\<close>

theorem cbisort_sorts:
  "cmp_total cmp \<Longrightarrow> cmp_sorted cmp (cbisort cmp xs) \<and> mset (cbisort cmp xs) = mset xs"
  by (rule isort_sorts)

text \<open>C21. The last pass of \<open>cbssort\<close>, with step 1, is \<open>cbisort\<close>: the gapped
  insertion of shell sort at step 1 performs the same comparisons and moves as the
  insertion sort, for every comparison function.\<close>

theorem ssort_last_pass_cbisort: "ssort_bottoms cmp (length xs) 1 xs 0 = Some (cbisort cmp xs)"
  using ssort_bottoms_one [of cmp "length xs" xs] by (simp add: cbisort_def)

text \<open>C22. \<open>cbssort\<close> returns, for a total preorder, a sorted permutation of the
  array: the step sequence \<open>(nmemb - 1) / 3\<close>, \<open>(step - 1) / 3\<close>, ... ends with a pass
  at step 1, and every pass terminates.\<close>

theorem cbssort_sorts:
  "cmp_total cmp \<Longrightarrow> \<exists>ys. cbssort cmp xs = Some ys \<and> cmp_sorted cmp ys \<and> mset ys = mset xs"
  by (rule ssort_sorts)

text \<open>C23. \<open>cbhsort\<close> returns, for a total preorder, a sorted permutation of the
  array: the sift loops end, the first loop builds a heap rooted at index 0 and the
  second moves the greatest element behind the heap at each step.\<close>

theorem cbhsort_sorts:
  "cmp_total cmp \<Longrightarrow> \<exists>ys. cbhsort cmp xs = Some ys \<and> cmp_sorted cmp ys \<and> mset ys = mset xs"
  by (rule hsort_sorts)

text \<open>C24. \<open>cbqsort\<close> returns, for a total preorder, a sorted permutation of the
  array: the partition around the middle element leaves both recursive calls on
  fewer elements, and the two sorted parts meet at the pivot.\<close>

theorem cbqsort_sorts:
  "cmp_total cmp \<Longrightarrow> \<exists>ys. cbqsort cmp xs = Some ys \<and> cmp_sorted cmp ys \<and> mset ys = mset xs"
  unfolding cbqsort_def by (rule cbqsortsub_sorts)

text \<open>C25. \<open>cblistsort\<close> on a well-formed list returns a well-formed list with the
  same start and count whose elements are a permutation of the old ones, sorted by
  \<open>cblistelemcmp\<close> (bytes as signed \<open>char\<close>s, a prefix first).\<close>

theorem cblistsort_sorts:
  "cblist_wf l \<Longrightarrow> \<exists>l'. cblistsort l = Some l' \<and> cblist_wf l' \<and> lstart l' = lstart l \<and> num l' = num l \<and>
     cmp_sorted cblistelemcmp (cblist_abs l') \<and> mset (cblist_abs l') = mset (cblist_abs l)"
  by (rule cblistsort_result)

text \<open>C26. \<open>cblistlsearch\<close> on a well-formed list returns -1 exactly when the key is
  not an element, and otherwise the index of its first occurrence.\<close>

theorem cblistlsearch_first:
  "cblist_wf l \<Longrightarrow>
   (cblistlsearch l ptr sz = -1 \<longleftrightarrow> c_region ptr 0 sz \<notin> set (cblist_abs l)) \<and>
   (cblistlsearch l ptr sz \<noteq> -1 \<longrightarrow>
      0 \<le> cblistlsearch l ptr sz \<and> nat (cblistlsearch l ptr sz) < length (cblist_abs l) \<and>
      cblist_abs l ! nat (cblistlsearch l ptr sz) = c_region ptr 0 sz \<and>
      c_region ptr 0 sz \<notin> set (take (nat (cblistlsearch l ptr sz)) (cblist_abs l)))"
  using cblistlsearch_spec [of l ptr sz] by (simp add: Let_def)

section \<open>Witnesses\<close>

theorem cbisort_sorts_witness:
  "cmp_total (\<lambda>a b :: int. a - b) \<and> cmp_sorted (\<lambda>a b. a - b) (cbisort (\<lambda>a b :: int. a - b) [3, 1, 2]) \<and>
   mset (cbisort (\<lambda>a b :: int. a - b) [3, 1, 2]) = mset [3, 1, 2]"
  using cbisort_sorts [OF cmp_total_int_minus, of "[3, 1, 2]"] cmp_total_int_minus by simp

theorem cbssort_sorts_witness:
  "cmp_total (\<lambda>a b :: int. a - b) \<and>
   (\<exists>ys. cbssort (\<lambda>a b :: int. a - b) [3, 1, 2] = Some ys \<and> cmp_sorted (\<lambda>a b. a - b) ys \<and> mset ys = mset [3, 1, 2])"
  using cbssort_sorts [OF cmp_total_int_minus, of "[3, 1, 2]"] cmp_total_int_minus by simp

theorem cbhsort_sorts_witness:
  "cmp_total (\<lambda>a b :: int. a - b) \<and>
   (\<exists>ys. cbhsort (\<lambda>a b :: int. a - b) [3, 1, 2] = Some ys \<and> cmp_sorted (\<lambda>a b. a - b) ys \<and> mset ys = mset [3, 1, 2])"
  using cbhsort_sorts [OF cmp_total_int_minus, of "[3, 1, 2]"] cmp_total_int_minus by simp

theorem cbqsort_sorts_witness:
  "cmp_total (\<lambda>a b :: int. a - b) \<and>
   (\<exists>ys. cbqsort (\<lambda>a b :: int. a - b) [3, 1, 2] = Some ys \<and> cmp_sorted (\<lambda>a b. a - b) ys \<and> mset ys = mset [3, 1, 2])"
  using cbqsort_sorts [OF cmp_total_int_minus, of "[3, 1, 2]"] cmp_total_int_minus by simp

theorem cblistsort_sorts_witness:
  "cblist_wf (cblistpush (cblistpush cblistopen [98]) [97]) \<and>
   (\<exists>l'. cblistsort (cblistpush (cblistpush cblistopen [98]) [97]) = Some l' \<and> cblist_wf l' \<and>
     cmp_sorted cblistelemcmp (cblist_abs l'))"
proof -
  have wf: "cblist_wf (cblistpush (cblistpush cblistopen [98]) [97])"
    by (simp add: cblist_wf_def cblistpush_def cblistopen_def CB_LISTUNIT_def)
  show ?thesis using cblistsort_sorts [OF wf] wf by blast
qed

theorem cblistlsearch_first_witness:
  "cblist_wf (cblistpush cblistopen [97]) \<and>
   (cblistlsearch (cblistpush cblistopen [97]) [97] 1 = -1 \<longleftrightarrow> c_region [97] 0 1 \<notin> set (cblist_abs (cblistpush cblistopen [97])))"
proof -
  have wf: "cblist_wf (cblistpush cblistopen [97])"
    by (simp add: cblist_wf_def cblistpush_def cblistopen_def CB_LISTUNIT_def)
  show ?thesis using cblistlsearch_first [OF wf, of "[97]" 1] wf by blast
qed

end
