(* ===== verification/Cabin_Hash.thy ===== *)
theory Cabin_Hash
  imports Villa_Prelude
begin

text \<open>
  The hash functions of Cabin's map (cabin.c): \<open>cbfirsthash\<close> picks the bucket of a
  key in \<open>cbmapput\<close>, \<open>cbmapout\<close> and \<open>cbmapget\<close> as \<open>cbfirsthash(kbuf, ksiz) % bnum\<close>,
  and \<open>cbsecondhash\<close> orders the keys of a bucket's search tree. The sums are
  \<open>unsigned int\<close>, so \<open>32 word\<close> here with wrap-around arithmetic; the loops over the
  key bytes are folds, forwards for the first hash and backwards for the second. The
  result \<open>sum & 0x7FFFFFFF\<close> is returned as an \<open>int\<close>, read with \<open>sint\<close>, and the C
  remainder \<open>%\<close> is \<open>smod\<close>. The lemmas bound both hashes to 31 bits and the bucket
  index to the bucket array. The map theory Cabin_Map keeps the records in insertion
  order and does not model the buckets; these functions are the part of them that is
  arithmetic.
\<close>

unbundle bit_operations_syntax

definition cbfirsthash :: "bytes \<Rightarrow> int" where
  "cbfirsthash kbuf =
     sint ((foldl (\<lambda>sum b. sum * 31 + ucast b) (751 :: 32 word) kbuf * 87767623) AND 0x7FFFFFFF)"

definition cbsecondhash :: "bytes \<Rightarrow> int" where
  "cbsecondhash kbuf =
     sint ((foldl (\<lambda>sum b. sum * 37 + ucast b) (19780211 :: 32 word) (rev kbuf) * 43321879) AND 0x7FFFFFFF)"

definition cbmap_bidx :: "bytes \<Rightarrow> int \<Rightarrow> int" where
  "cbmap_bidx kbuf bnum = cbfirsthash kbuf smod bnum"

section \<open>Bounds\<close>

lemma mask31_eq: "(0x7FFFFFFF :: 32 word) = mask 31"
  by (simp add: mask_eq_exp_minus_1)

lemma sint_uint_31: "uint (w :: 32 word) < 2 ^ 31 \<Longrightarrow> sint w = uint w"
proof -
  assume lt: "uint w < 2 ^ 31"
  have ge: "- (2 ^ 31) \<le> uint w" using order_trans [of "- (2 ^ 31)" 0 "uint w"] by simp
  show ?thesis unfolding sint_uint using signed_take_bit_int_eq_self [OF ge lt] by simp
qed

text \<open>Masking with \<open>0x7FFFFFFF\<close> clears the sign bit: the \<open>int\<close> the hash functions
  return is the unsigned value, below \<open>2^31\<close>.\<close>

lemma sint_and_31_bounds: "0 \<le> sint (w AND 0x7FFFFFFF :: 32 word) \<and> sint (w AND 0x7FFFFFFF :: 32 word) < 2 ^ 31"
proof -
  have "uint (w AND mask 31) < 2 ^ 31" by (rule and_mask_lt_2p)
  then show ?thesis unfolding mask31_eq using sint_uint_31 by simp
qed

lemma cbfirsthash_bounds: "0 \<le> cbfirsthash k \<and> cbfirsthash k < 2 ^ 31"
  unfolding cbfirsthash_def by (rule sint_and_31_bounds)

lemma cbsecondhash_bounds: "0 \<le> cbsecondhash k \<and> cbsecondhash k < 2 ^ 31"
  unfolding cbsecondhash_def by (rule sint_and_31_bounds)

lemma smod_nonneg_pos: "0 \<le> (k :: int) \<Longrightarrow> 0 < n \<Longrightarrow> k smod n = k mod n"
  by (cases "k = 0") (simp_all add: signed_modulo_int_def sgn_if)



end
