(* ===== verification/Cabin_String.thy ===== *)
theory Cabin_String
  imports Cabin_Codec Cabin_List "HOL-Library.Sublist"
begin

text \<open>
  Cabin's string utilities (cabin.c): the forward and backward matchers
  \<open>cbstrfwmatch\<close> and \<open>cbstrbwmatch\<close>, CSV and XML escaping (\<open>cbcsvescape\<close>,
  \<open>cbcsvunescape\<close>, \<open>cbxmlescape\<close>, \<open>cbxmlunescape\<close>) and \<open>cbsplit\<close>. A C string is a
  byte list read through \<open>cstr_get\<close> of Cabin_Codec (the terminator at the length,
  an error further on) or, where the code indexes with an \<open>int\<close> that can be
  negative, \<open>cstr_at\<close>; \<open>cstr\<close> is the string a pointer denotes (the bytes before the
  first NUL), the bytes \<open>strlen\<close> counts. \<open>strchr(s, c)\<close> also finds the terminator
  of \<open>s\<close>, so it holds for \<open>c = 0\<close>.
\<close>

definition cstr :: "bytes \<Rightarrow> bytes" where
  "cstr s = takeWhile (\<lambda>c. c \<noteq> 0) s"

definition cstr_at :: "bytes \<Rightarrow> int \<Rightarrow> byte cbres" where
  "cstr_at s k = (if k < 0 then Inl CB_OOB else cstr_get s (nat k))"

definition c_strchr :: "bytes \<Rightarrow> byte \<Rightarrow> bool" where
  "c_strchr s c \<longleftrightarrow> c = 0 \<or> c \<in> set (cstr s)"

section \<open>Matching: \<open>cbstrfwmatch\<close>, \<open>cbstrbwmatch\<close>\<close>

function fw_loop :: "bytes \<Rightarrow> bytes \<Rightarrow> nat \<Rightarrow> bool cbres" where
  "fw_loop str key j =
     (case cstr_get key j of
        Inl e \<Rightarrow> Inl e
      | Inr kc \<Rightarrow>
          if kc = 0 then Inr True
          else (case cstr_get str j of
                  Inl e \<Rightarrow> Inl e
                | Inr sc \<Rightarrow> if sc \<noteq> kc \<or> sc = 0 then Inr False else fw_loop str key (Suc j)))"
  by pat_completeness auto
termination
  by (relation "measure (\<lambda>(_, key, j). length key - j)") (auto simp: cstr_get_def split: if_splits)

declare fw_loop.simps [simp del]

definition cbstrfwmatch :: "bytes \<Rightarrow> bytes \<Rightarrow> bool cbres" where
  "cbstrfwmatch str key = fw_loop str key 0"

text \<open>The loop of \<open>cbstrbwmatch\<close> reads \<open>str[slen-i]\<close> and \<open>key[klen-i]\<close> before it tests
  \<open>i > slen\<close>.\<close>

function bw_loop :: "bytes \<Rightarrow> bytes \<Rightarrow> int \<Rightarrow> int \<Rightarrow> int \<Rightarrow> bool cbres" where
  "bw_loop str key slen klen i =
     (if i \<le> klen then
        (case cstr_at str (slen - i) of
           Inl e \<Rightarrow> Inl e
         | Inr sc \<Rightarrow>
             (case cstr_at key (klen - i) of
                Inl e \<Rightarrow> Inl e
              | Inr kc \<Rightarrow> if sc \<noteq> kc \<or> slen < i then Inr False else bw_loop str key slen klen (i + 1)))
      else Inr True)"
  by pat_completeness auto
termination by (relation "measure (\<lambda>(_, _, _, klen, i). nat (klen + 1 - i))") auto

declare bw_loop.simps [simp del]

definition cbstrbwmatch :: "bytes \<Rightarrow> bytes \<Rightarrow> bool cbres" where
  "cbstrbwmatch str key = bw_loop str key (int (length (cstr str))) (int (length (cstr key))) 1"

section \<open>CSV: \<open>cbcsvescape\<close>, \<open>cbcsvunescape\<close>\<close>

definition csv_esc1 :: "byte \<Rightarrow> bytes" where
  "csv_esc1 c = (if c = 34 then [34, c] else [c])"

definition cbcsvescape :: "bytes \<Rightarrow> bytes" where
  "cbcsvescape str = 34 # concat (map csv_esc1 (cstr str)) @ [34]"

text \<open>The loop of \<open>cbcsvunescape\<close>, with the pointer \<open>str\<close> as the offset \<open>p\<close> into the
  argument: a quote followed by a quote gives one quote, a lone quote is dropped.\<close>

function csv_unesc :: "bytes \<Rightarrow> int \<Rightarrow> int \<Rightarrow> int \<Rightarrow> bytes \<Rightarrow> bytes cbres" where
  "csv_unesc s p len i acc =
     (if i < len then
        (case cstr_at s (p + i) of
           Inl e \<Rightarrow> Inl e
         | Inr c \<Rightarrow>
             if c = 34 then
               (case cstr_at s (p + i + 1) of
                  Inl e \<Rightarrow> Inl e
                | Inr c' \<Rightarrow> if c' = 34 then csv_unesc s p len (i + 2) (acc @ [c]) else csv_unesc s p len (i + 1) acc)
             else csv_unesc s p len (i + 1) (acc @ [c]))
      else Inr acc)"
  by pat_completeness auto
termination by (relation "measure (\<lambda>(_, _, len, i, _). nat (len - i))") auto

declare csv_unesc.simps [simp del]

definition cbcsvunescape :: "bytes \<Rightarrow> bytes cbres" where
  "cbcsvunescape s =
     (let len = int (length (cstr s)) in
      case cstr_at s 0 of
        Inl e \<Rightarrow> Inl e
      | Inr c0 \<Rightarrow>
          if c0 = 34 then
            (case cstr_at s (1 + (len - 1) - 1) of
               Inl e \<Rightarrow> Inl e
             | Inr cl \<Rightarrow> csv_unesc s 1 (if cl = 34 then len - 1 - 1 else len - 1) 0 [])
          else csv_unesc s 0 len 0 [])"

section \<open>XML: \<open>cbxmlescape\<close>, \<open>cbxmlunescape\<close>\<close>

definition ent_amp :: bytes where "ent_amp = [38, 97, 109, 112, 59]"
definition ent_lt :: bytes where "ent_lt = [38, 108, 116, 59]"
definition ent_gt :: bytes where "ent_gt = [38, 103, 116, 59]"
definition ent_quot :: bytes where "ent_quot = [38, 113, 117, 111, 116, 59]"
definition ent_apos :: bytes where "ent_apos = [38, 97, 112, 111, 115, 59]"

definition xml_esc1 :: "byte \<Rightarrow> bytes" where
  "xml_esc1 c =
     (if c = 38 then ent_amp else if c = 60 then ent_lt else if c = 62 then ent_gt
      else if c = 34 then ent_quot else if c = 39 then ent_apos else [c])"

definition cbxmlescape :: "bytes \<Rightarrow> bytes" where
  "cbxmlescape str = concat (map xml_esc1 (cstr str))"

function xml_unesc :: "bytes \<Rightarrow> nat \<Rightarrow> bytes \<Rightarrow> bytes cbres" where
  "xml_unesc s i acc =
     (case cstr_get s i of
        Inl e \<Rightarrow> Inl e
      | Inr c \<Rightarrow>
          if c = 0 then Inr acc
          else if c = 38 then
            (case cbstrfwmatch (drop i s) ent_amp of Inl e \<Rightarrow> Inl e | Inr True \<Rightarrow> xml_unesc s (i + 5) (acc @ [38]) | Inr False \<Rightarrow>
             case cbstrfwmatch (drop i s) ent_lt of Inl e \<Rightarrow> Inl e | Inr True \<Rightarrow> xml_unesc s (i + 4) (acc @ [60]) | Inr False \<Rightarrow>
             case cbstrfwmatch (drop i s) ent_gt of Inl e \<Rightarrow> Inl e | Inr True \<Rightarrow> xml_unesc s (i + 4) (acc @ [62]) | Inr False \<Rightarrow>
             case cbstrfwmatch (drop i s) ent_quot of Inl e \<Rightarrow> Inl e | Inr True \<Rightarrow> xml_unesc s (i + 6) (acc @ [34]) | Inr False \<Rightarrow>
             case cbstrfwmatch (drop i s) ent_apos of Inl e \<Rightarrow> Inl e | Inr True \<Rightarrow> xml_unesc s (i + 6) (acc @ [39]) | Inr False \<Rightarrow>
             xml_unesc s (i + 1) (acc @ [c]))
          else xml_unesc s (i + 1) (acc @ [c]))"
  by pat_completeness auto
termination
  by (relation "measure (\<lambda>(s, i, _). length s - i)") (auto simp: cstr_get_def split: if_splits)

declare xml_unesc.simps [simp del]

definition cbxmlunescape :: "bytes \<Rightarrow> bytes cbres" where
  "cbxmlunescape str = xml_unesc str 0 []"

section \<open>\<open>cbsplit\<close>\<close>

function split_step :: "(byte \<Rightarrow> bool) \<Rightarrow> bytes \<Rightarrow> nat \<Rightarrow> nat \<Rightarrow> nat" where
  "split_step isd r bi step =
     (if bi + step < length r \<and> \<not> isd (r ! (bi + step)) then split_step isd r bi (Suc step) else step)"
  by pat_completeness auto
termination by (relation "measure (\<lambda>(_, r, bi, step). length r - (bi + step))") auto

declare split_step.simps [simp del]

function split_loop :: "(byte \<Rightarrow> bool) \<Rightarrow> bytes \<Rightarrow> nat \<Rightarrow> cblist \<Rightarrow> cblist" where
  "split_loop isd r bi l =
     (if bi < length r then
        (let step = split_step isd r bi 0 in
         split_loop isd r (bi + step + 1) (cblistpush l (take step (drop bi r))))
      else l)"
  by pat_completeness auto
termination by (relation "measure (\<lambda>(_, r, bi, _). length r - bi)") auto

declare split_loop.simps [simp del]

definition cbsplit :: "bytes \<Rightarrow> int \<Rightarrow> bytes option \<Rightarrow> cblist" where
  "cbsplit ptr sz delim =
     (let r = c_region ptr 0 sz;
          isd = (case delim of Some d \<Rightarrow> c_strchr d | None \<Rightarrow> (\<lambda>c. c = 0));
          l = split_loop isd r 0 cblistopen
      in if 0 < length r \<and> isd (r ! (length r - 1)) then cblistpush l [] else l)"

section \<open>Specifications\<close>

text \<open>The fields of a split rejoined with the delimiter between them, the inverse a
  split promises, and the invariant of the loop of \<open>cbsplit\<close>: the fields pushed so far,
  each followed by the delimiter, are the bytes before \<open>bi\<close>.\<close>

fun join_fields :: "byte \<Rightarrow> bytes list \<Rightarrow> bytes" where
  "join_fields d [] = []"
| "join_fields d [f] = f"
| "join_fields d (f # g # F) = f @ d # join_fields d (g # F)"

definition split_inv :: "byte \<Rightarrow> bytes \<Rightarrow> nat \<Rightarrow> cblist \<Rightarrow> bool" where
  "split_inv d r bi l \<longleftrightarrow> cblist_wf l \<and> (\<forall>f \<in> set (cblist_abs l). d \<notin> set f) \<and>
     ((bi \<le> length r \<and> concat (map (\<lambda>f. f @ [d]) (cblist_abs l)) = take bi r \<and> (0 < bi \<longrightarrow> r ! (bi - 1) = d)) \<or>
      (bi = Suc (length r) \<and> concat (map (\<lambda>f. f @ [d]) (cblist_abs l)) = r @ [d] \<and> r \<noteq> [] \<and> last r \<noteq> d))"

section \<open>Matching\<close>

lemma fw_loop_Cons: "fw_loop (x # s) (y # k) (Suc j) = fw_loop s k j"
proof (induction s k j rule: fw_loop.induct)
  case (1 s k j)
  show ?case
    by (subst fw_loop.simps, subst (2) fw_loop.simps)
       (simp add: cstr_get_Cons "1.IH" split: sum.split)
qed

lemma cstr_Cons: "cstr (x # s) = (if x = 0 then [] else x # cstr s)"
  by (simp add: cstr_def)

lemma cbstrfwmatch_prefix:
  "0 \<notin> set key \<Longrightarrow> cbstrfwmatch str key = Inr (prefix key (cstr str))"
proof (induction key arbitrary: str)
  case Nil
  then show ?case by (simp add: cbstrfwmatch_def fw_loop.simps cstr_get_def)
next
  case (Cons y k)
  show ?case
  proof (cases str)
    case Nil
    then show ?thesis using Cons.prems by (simp add: cbstrfwmatch_def fw_loop.simps cstr_get_def cstr_def)
  next
    case (Cons x s)
    have "y \<noteq> 0" "0 \<notin> set k" using Cons.prems by auto
    then show ?thesis
      using Cons.IH [of s] \<open>str = x # s\<close>
      by (subst cbstrfwmatch_def, subst fw_loop.simps)
         (auto simp: cstr_get_Cons fw_loop_Cons cbstrfwmatch_def cstr_Cons)
  qed
qed

lemma cstr_nul_free: "0 \<notin> set s \<Longrightarrow> cstr s = s"
  by (auto simp: cstr_def takeWhile_eq_all_conv)

lemma cstr_at_snoc:
  "k < int (length s) \<Longrightarrow> cstr_at (s @ [a]) k = cstr_at s k"
  by (auto simp: cstr_at_def cstr_get_def nth_append)

lemma bw_loop_snoc:
  "1 \<le> i \<Longrightarrow> slen = int (length s) \<Longrightarrow> klen = int (length k) \<Longrightarrow>
   bw_loop (s @ [a]) (k @ [b]) (slen + 1) (klen + 1) (i + 1) = bw_loop s k slen klen i"
proof (induction s k slen klen i rule: bw_loop.induct)
  case (1 s k slen klen i)
  show ?case
  proof (cases "i \<le> klen")
    case False
    then show ?thesis by (subst bw_loop.simps, subst (2) bw_loop.simps) simp
  next
    case True
    have rs: "cstr_at (s @ [a]) (slen + 1 - (i + 1)) = cstr_at s (slen - i)"
      using cstr_at_snoc [of "slen - i" s a] "1.prems" by simp
    have rk: "cstr_at (k @ [b]) (klen + 1 - (i + 1)) = cstr_at k (klen - i)"
      using "1.prems" True by (simp add: cstr_at_snoc)
    show ?thesis
      using True rs rk "1.IH" "1.prems"
      by (subst bw_loop.simps, subst (2) bw_loop.simps) (auto split: sum.split)
  qed
qed

lemma suffix_snoc_snoc: "suffix (xs @ [x]) (ys @ [y]) \<longleftrightarrow> x = y \<and> suffix xs ys"
  by (auto simp: suffix_def)

text \<open>C34. \<open>cbstrbwmatch\<close> on strings without NUL bytes answers whether the key is a
  suffix of the string; when the string is a proper suffix of the key, the loop reads
  the byte before the string and the model returns the out-of-bounds error.\<close>

theorem cbstrbwmatch_suffix:
  "0 \<notin> set str \<Longrightarrow> 0 \<notin> set key \<Longrightarrow>
   cbstrbwmatch str key =
     (if suffix key str then Inr True else if suffix str key then Inl CB_OOB else Inr False)"
proof (induction key arbitrary: str rule: rev_induct)
  case Nil
  then show ?case by (simp add: cbstrbwmatch_def bw_loop.simps cstr_nul_free)
next
  case (snoc b k)
  show ?case
  proof (cases str rule: rev_cases)
    case Nil
    then show ?thesis using snoc.prems
      by (simp add: cbstrbwmatch_def bw_loop.simps cstr_nul_free cstr_at_def)
  next
    case (snoc s a)
    have nz: "0 \<notin> set s" "0 \<notin> set k" using snoc.prems \<open>str = s @ [a]\<close> by auto
    have r0: "cstr_at (s @ [a]) (int (length s) + 1 - 1) = Inr a"
      "cstr_at (k @ [b]) (int (length k) + 1 - 1) = Inr b"
      by (simp_all add: cstr_at_def cstr_get_def)
    have step: "cbstrbwmatch (s @ [a]) (k @ [b]) =
        (if a \<noteq> b then Inr False else bw_loop (s @ [a]) (k @ [b]) (int (length s) + 1) (int (length k) + 1) (1 + 1))"
      using snoc.prems \<open>str = s @ [a]\<close> r0
      by (subst cbstrbwmatch_def, subst bw_loop.simps) (simp add: cstr_nul_free add.commute)
    show ?thesis
    proof (cases "a = b")
      case False
      then show ?thesis using step \<open>str = s @ [a]\<close> by (auto simp: suffix_snoc_snoc)
    next
      case True
      then have "cbstrbwmatch str (k @ [b]) = cbstrbwmatch s k"
        using step \<open>str = s @ [a]\<close> bw_loop_snoc [of 1 "int (length s)" s "int (length k)" k a b] nz
        by (simp add: cbstrbwmatch_def cstr_nul_free)
      then show ?thesis using snoc.IH [OF nz(1) nz(2)] True \<open>str = s @ [a]\<close> by (simp add: suffix_snoc_snoc)
    qed
  qed
qed

section \<open>CSV\<close>

lemma csv_unesc_enc1:
  assumes q: "int (length q) = p + i" and p: "0 \<le> p" "0 \<le> i"
    and len: "i + int (length (csv_esc1 c)) \<le> len"
  shows "csv_unesc (q @ csv_esc1 c @ t) p len i acc =
         csv_unesc (q @ csv_esc1 c @ t) p len (i + int (length (csv_esc1 c))) (acc @ [c])"
proof -
  have n0: "nat (p + i) = length q" and n1: "nat (p + i + 1) = length q + 1" using q p by simp_all
  have lt: "i < len" using len by (simp add: csv_esc1_def split: if_splits)
  show ?thesis
  proof (cases "c = 34")
    case True
    then show ?thesis using lt p
      by (subst csv_unesc.simps) (simp add: csv_esc1_def cstr_at_def n0 n1 cstr_get_shift [of q _ 1, simplified] cstr_get_Cons)
  next
    case False
    then show ?thesis using lt p
      by (subst csv_unesc.simps) (simp add: csv_esc1_def cstr_at_def n0 cstr_get_Cons)
  qed
qed

lemma csv_unesc_concat:
  "int (length q) = p + i \<Longrightarrow> 0 \<le> p \<Longrightarrow> 0 \<le> i \<Longrightarrow> i + int (length (concat (map csv_esc1 xs))) \<le> len \<Longrightarrow>
   csv_unesc (q @ concat (map csv_esc1 xs) @ t) p len i acc =
   csv_unesc (q @ concat (map csv_esc1 xs) @ t) p len (i + int (length (concat (map csv_esc1 xs)))) (acc @ xs)"
proof (induction xs arbitrary: q i acc)
  case (Cons x xs)
  let ?e = "csv_esc1 x" and ?r = "concat (map csv_esc1 xs)"
  have "csv_unesc (q @ ?e @ ?r @ t) p len i acc = csv_unesc (q @ ?e @ ?r @ t) p len (i + int (length ?e)) (acc @ [x])"
    using csv_unesc_enc1 [of q p i x len "?r @ t" acc] Cons.prems by simp
  also have "\<dots> = csv_unesc ((q @ ?e) @ ?r @ t) p len (i + int (length ?e) + int (length ?r)) ((acc @ [x]) @ xs)"
    using Cons.IH [of "q @ ?e" "i + int (length ?e)" "acc @ [x]"] Cons.prems by simp
  finally show ?case by (simp add: add.assoc)
qed simp

lemma csv_esc_nul_free: "0 \<notin> set xs \<Longrightarrow> 0 \<notin> set (concat (map csv_esc1 xs))"
  by (auto simp: csv_esc1_def split: if_splits)

lemma cstr_nul_free_cstr: "0 \<notin> set (cstr s)"
  by (simp add: cstr_def) (metis (mono_tags) set_takeWhileD)

text \<open>C31. Unescaping what \<open>cbcsvescape\<close> produced gives back the string: the quotes
  around the field are stripped and every doubled quote becomes one.\<close>

theorem csv_roundtrip: "cbcsvunescape (cbcsvescape s) = Inr (cstr s)"
proof -
  let ?b = "concat (map csv_esc1 (cstr s))"
  have nz: "0 \<notin> set (cbcsvescape s)"
    using csv_esc_nul_free [OF cstr_nul_free_cstr [of s]] by (simp add: cbcsvescape_def)
  have c: "cstr (cbcsvescape s) = cbcsvescape s" by (rule cstr_nul_free [OF nz])
  have last: "cstr_at (cbcsvescape s) (1 + (int (length (cbcsvescape s)) - 1) - 1) = Inr 34"
    by (simp add: cbcsvescape_def cstr_at_def cstr_get_def nth_append nat_add_distrib)
  have "csv_unesc ([34] @ ?b @ [34]) 1 (int (length ?b)) 0 [] =
        csv_unesc ([34] @ ?b @ [34]) 1 (int (length ?b)) (int (length ?b)) (cstr s)"
    using csv_unesc_concat [of "[34]" 1 0 "cstr s" "int (length ?b)" "[34]" "[]"] by simp
  also have "\<dots> = Inr (cstr s)" by (subst csv_unesc.simps) simp
  finally have u: "csv_unesc (34 # ?b @ [34]) 1 (int (length ?b)) 0 [] = Inr (cstr s)" by simp
  show ?thesis
    using u last unfolding cbcsvunescape_def c
    by (simp add: cbcsvescape_def cstr_at_def cstr_get_def)
qed

section \<open>XML\<close>

lemma cstr_append_nul_free: "0 \<notin> set e \<Longrightarrow> cstr (e @ t) = e @ cstr t"
  unfolding cstr_def by (rule takeWhile_append2) auto

lemma ent_nul_free:
  "0 \<notin> set ent_amp" "0 \<notin> set ent_lt" "0 \<notin> set ent_gt" "0 \<notin> set ent_quot" "0 \<notin> set ent_apos"
  by (simp_all add: ent_amp_def ent_lt_def ent_gt_def ent_quot_def ent_apos_def)

lemma xml_esc1_nul_free: "c \<noteq> 0 \<Longrightarrow> 0 \<notin> set (xml_esc1 c)"
  using ent_nul_free by (auto simp: xml_esc1_def)

lemma fwmatch_ent:
  "0 \<notin> set key \<Longrightarrow> 0 \<notin> set e \<Longrightarrow> cbstrfwmatch (e @ t) key = Inr (prefix key (e @ cstr t))"
  by (simp add: cbstrfwmatch_prefix cstr_append_nul_free)

lemmas ent_defs = ent_amp_def ent_lt_def ent_gt_def ent_quot_def ent_apos_def

lemma ent_lengths:
  "length ent_amp = 5" "length ent_lt = 4" "length ent_gt = 4" "length ent_quot = 6" "length ent_apos = 6"
  by (simp_all add: ent_defs)

lemma ent_hd:
  "hd ent_amp = 38" "hd ent_lt = 38" "hd ent_gt = 38" "hd ent_quot = 38" "hd ent_apos = 38"
  "ent_amp \<noteq> []" "ent_lt \<noteq> []" "ent_gt \<noteq> []" "ent_quot \<noteq> []" "ent_apos \<noteq> []"
  by (simp_all add: ent_defs)

lemma ent_not_prefix:
  "\<not> prefix ent_amp (ent_lt @ x)" "\<not> prefix ent_amp (ent_gt @ x)" "\<not> prefix ent_amp (ent_quot @ x)"
  "\<not> prefix ent_amp (ent_apos @ x)" "\<not> prefix ent_lt (ent_gt @ x)" "\<not> prefix ent_lt (ent_quot @ x)"
  "\<not> prefix ent_lt (ent_apos @ x)" "\<not> prefix ent_gt (ent_quot @ x)" "\<not> prefix ent_gt (ent_apos @ x)"
  "\<not> prefix ent_quot (ent_apos @ x)"
  by (simp_all add: ent_defs)

lemma xml_unesc_ent:
  assumes "0 \<notin> set e" "e \<noteq> []"
  shows "xml_unesc (q @ e @ t) (length q) acc =
     (if hd e = 0 then Inr acc
      else if hd e = 38 then
        (if prefix ent_amp (e @ cstr t) then xml_unesc (q @ e @ t) (length q + length ent_amp) (acc @ [38])
         else if prefix ent_lt (e @ cstr t) then xml_unesc (q @ e @ t) (length q + length ent_lt) (acc @ [60])
         else if prefix ent_gt (e @ cstr t) then xml_unesc (q @ e @ t) (length q + length ent_gt) (acc @ [62])
         else if prefix ent_quot (e @ cstr t) then xml_unesc (q @ e @ t) (length q + length ent_quot) (acc @ [34])
         else if prefix ent_apos (e @ cstr t) then xml_unesc (q @ e @ t) (length q + length ent_apos) (acc @ [39])
         else xml_unesc (q @ e @ t) (length q + 1) (acc @ [hd e]))
      else xml_unesc (q @ e @ t) (length q + 1) (acc @ [hd e]))"
proof -
  have g: "cstr_get (q @ e @ t) (length q) = Inr (hd e)"
    using assms(2) by (cases e) (simp_all add: cstr_get_Cons)
  show ?thesis
    using g fwmatch_ent [OF _ assms(1)] ent_nul_free by (subst xml_unesc.simps) (simp add: ent_lengths)
qed

lemma xml_unesc_enc1:
  assumes c: "c \<noteq> 0"
  shows "xml_unesc (q @ xml_esc1 c @ t) (length q) acc =
         xml_unesc (q @ xml_esc1 c @ t) (length q + length (xml_esc1 c)) (acc @ [c])"
  using xml_unesc_ent [OF xml_esc1_nul_free [OF c], of q t acc] c
  by (simp add: xml_esc1_def ent_hd ent_not_prefix split: if_splits)

lemma xml_unesc_concat:
  "0 \<notin> set xs \<Longrightarrow>
   xml_unesc (q @ concat (map xml_esc1 xs) @ t) (length q) acc =
   xml_unesc (q @ concat (map xml_esc1 xs) @ t) (length q + length (concat (map xml_esc1 xs))) (acc @ xs)"
proof (induction xs arbitrary: q acc)
  case (Cons x xs)
  let ?e = "xml_esc1 x" and ?r = "concat (map xml_esc1 xs)"
  have "x \<noteq> 0" "0 \<notin> set xs" using Cons.prems by auto
  have "xml_unesc (q @ ?e @ ?r @ t) (length q) acc = xml_unesc ((q @ ?e) @ ?r @ t) (length (q @ ?e)) (acc @ [x])"
    using xml_unesc_enc1 [OF \<open>x \<noteq> 0\<close>, of q "?r @ t" acc] by simp
  also have "\<dots> = xml_unesc ((q @ ?e) @ ?r @ t) (length (q @ ?e) + length ?r) ((acc @ [x]) @ xs)"
    by (rule Cons.IH [OF \<open>0 \<notin> set xs\<close>])
  finally show ?case by (simp add: add.assoc)
qed simp

text \<open>C32. \<open>cbxmlunescape\<close> inverts \<open>cbxmlescape\<close> on every C string: no escaped
  byte can be read back as the start of another entity.\<close>

theorem xml_roundtrip: "cbxmlunescape (cbxmlescape s) = Inr (cstr s)"
proof -
  let ?b = "concat (map xml_esc1 (cstr s))"
  have "xml_unesc ([] @ ?b @ []) (length ([] :: bytes)) [] = xml_unesc ([] @ ?b @ []) (length ?b) (cstr s)"
    using xml_unesc_concat [OF cstr_nul_free_cstr [of s], of "[]" "[]" "[]"] by simp
  also have "\<dots> = Inr (cstr s)" by (subst xml_unesc.simps) (simp add: cstr_get_def)
  finally show ?thesis by (simp add: cbxmlunescape_def cbxmlescape_def)
qed

section \<open>Splitting\<close>

lemma split_step_spec:
  "bi + step \<le> length r \<Longrightarrow>
   step \<le> split_step isd r bi step \<and> bi + split_step isd r bi step \<le> length r \<and>
   (\<forall>j. step \<le> j \<and> j < split_step isd r bi step \<longrightarrow> \<not> isd (r ! (bi + j))) \<and>
   (bi + split_step isd r bi step < length r \<longrightarrow> isd (r ! (bi + split_step isd r bi step)))"
proof (induction isd r bi step rule: split_step.induct)
  case (1 isd r bi step)
  show ?case
  proof (cases "bi + step < length r \<and> \<not> isd (r ! (bi + step))")
    case True
    then have eq: "split_step isd r bi step = split_step isd r bi (Suc step)" by (subst split_step.simps) simp
    have IH: "Suc step \<le> split_step isd r bi (Suc step)" "bi + split_step isd r bi (Suc step) \<le> length r"
      "\<forall>j. Suc step \<le> j \<and> j < split_step isd r bi (Suc step) \<longrightarrow> \<not> isd (r ! (bi + j))"
      "bi + split_step isd r bi (Suc step) < length r \<longrightarrow> isd (r ! (bi + split_step isd r bi (Suc step)))"
      using "1.IH" [OF True] True by simp_all
    have "\<forall>j. step \<le> j \<and> j < split_step isd r bi (Suc step) \<longrightarrow> \<not> isd (r ! (bi + j))"
    proof (intro allI impI)
      fix j assume j: "step \<le> j \<and> j < split_step isd r bi (Suc step)"
      show "\<not> isd (r ! (bi + j))"
      proof (cases "j = step")
        case True then show ?thesis using \<open>bi + step < length r \<and> \<not> isd (r ! (bi + step))\<close> by simp
      next
        case False then show ?thesis using IH(3) j by simp
      qed
    qed
    then show ?thesis unfolding eq using IH by simp
  next
    case False
    then have "split_step isd r bi step = step" by (subst split_step.simps) auto
    then show ?thesis using False "1.prems" by auto
  qed
qed

lemma split_loop_inv:
  assumes isd: "\<And>c. c \<in> set r \<Longrightarrow> isd c \<longleftrightarrow> c = d"
  shows "split_inv d r bi l \<Longrightarrow> split_inv d r (length r) (split_loop isd r bi l) \<or>
         split_inv d r (Suc (length r)) (split_loop isd r bi l)"
  using isd
proof (induction isd r bi l rule: split_loop.induct)
  case (1 isd r bi l)
  note inv = "1.prems"(1) and isd = "1.prems"(2)
  show ?case
  proof (cases "bi < length r")
    case False
    then have "split_loop isd r bi l = l" by (subst split_loop.simps) simp
    moreover have "bi = length r \<or> bi = Suc (length r)" using inv False by (auto simp: split_inv_def)
    ultimately show ?thesis using inv by auto
  next
    case lt: True
    define st where "st = split_step isd r bi 0"
    let ?f = "take st (drop bi r)"
    have S: "bi + st \<le> length r" "\<forall>j. j < st \<longrightarrow> \<not> isd (r ! (bi + j))"
      "bi + st < length r \<longrightarrow> isd (r ! (bi + st))"
      using split_step_spec [of bi 0 r isd] lt by (simp_all add: st_def)
    have I: "cblist_wf l" "\<forall>f \<in> set (cblist_abs l). d \<notin> set f"
      "concat (map (\<lambda>f. f @ [d]) (cblist_abs l)) = take bi r"
      using inv lt by (auto simp: split_inv_def)
    have P: "cblist_wf (cblistpush l ?f)" "cblist_abs (cblistpush l ?f) = cblist_abs l @ [?f]"
      using cblistpush_refines [OF I(1)] by simp_all
    have nd: "d \<notin> set ?f"
    proof
      assume "d \<in> set ?f"
      then obtain j where "j < length ?f" "?f ! j = d" by (auto simp: in_set_conv_nth)
      moreover have "r ! (bi + j) \<in> set r" using \<open>j < length ?f\<close> S(1) by simp
      ultimately show False using S(2) isd [of "r ! (bi + j)"] lt by force
    qed
    have step: "split_loop isd r bi l = split_loop isd r (bi + st + 1) (cblistpush l ?f)"
      using lt by (subst split_loop.simps) (simp add: st_def Let_def)
    have next_inv: "split_inv d r (bi + st + 1) (cblistpush l ?f)"
    proof (cases "bi + st < length r")
      case True
      then have rd: "r ! (bi + st) = d" using S(3) isd [of "r ! (bi + st)"] by simp
      have "take (bi + st + 1) r = take bi r @ ?f @ [d]"
        using True rd by (simp add: take_add take_Suc_conv_app_nth min_def)
      then show ?thesis using P I nd True rd by (simp add: split_inv_def)
    next
      case False
      then have e: "bi + st = length r" using S(1) by simp
      then have "0 < st" using lt by simp
      have "r \<noteq> []" using lt by auto
      have "last r = r ! (bi + (st - 1))"
        using last_conv_nth [OF \<open>r \<noteq> []\<close>] e \<open>0 < st\<close> by simp
      moreover have "r ! (bi + (st - 1)) \<in> set r" using e \<open>0 < st\<close> by simp
      moreover have "\<not> isd (r ! (bi + (st - 1)))" using spec [OF S(2), of "st - 1"] \<open>0 < st\<close> by simp
      ultimately have "last r \<noteq> d" using isd [of "r ! (bi + (st - 1))"] by simp
      moreover have "take bi r @ ?f = r" using e by (simp add: append_take_drop_id)
      ultimately show ?thesis using P I nd e lt by (auto simp: split_inv_def)
    qed
    show ?thesis using "1.IH" [OF lt st_def next_inv isd] step by simp
  qed
qed

lemma join_fields_snoc_sep:
  "F \<noteq> [] \<Longrightarrow> join_fields d F @ [d] = concat (map (\<lambda>f. f @ [d]) F)"
proof (induction F)
  case (Cons f F)
  then show ?case by (cases F) auto
qed simp

lemma join_fields_snoc:
  "F \<noteq> [] \<Longrightarrow> join_fields d (F @ [g]) = join_fields d F @ d # g"
proof (induction d F rule: join_fields.induct)
  case (3 d f h F)
  then show ?case by simp
qed simp_all

lemma concat_sep_Nil: "concat (map (\<lambda>f. f @ [d]) F) = [] \<longleftrightarrow> F = []"
  by (cases F) auto

text \<open>C33. \<open>cbsplit\<close> with a one-byte delimiter \<open>d\<close> on a region without NUL bytes cuts
  it into fields that contain no \<open>d\<close> and that, rejoined with \<open>d\<close> between them, give the
  region back: an empty field stands before a leading, between two adjacent and after
  a trailing delimiter.\<close>

theorem cbsplit_rejoin:
  assumes d: "d \<noteq> 0" and nz: "0 \<notin> set (c_region ptr 0 sz)"
  shows "join_fields d (cblist_abs (cbsplit ptr sz (Some [d]))) = c_region ptr 0 sz \<and>
         (\<forall>f \<in> set (cblist_abs (cbsplit ptr sz (Some [d]))). d \<notin> set f)"
proof -
  define r where "r = c_region ptr 0 sz"
  have isd: "c_strchr [d] c \<longleftrightarrow> c = d" if "c \<in> set r" for c
    using that nz d by (auto simp: c_strchr_def cstr_def r_def)
  have i0: "split_inv d r 0 cblistopen" using cblistopen_wf by (simp add: split_inv_def)
  define l where "l = split_loop (c_strchr [d]) r 0 cblistopen"
  have res: "cbsplit ptr sz (Some [d]) = (if 0 < length r \<and> c_strchr [d] (r ! (length r - 1)) then cblistpush l [] else l)"
    by (simp add: cbsplit_def r_def l_def)
  from split_loop_inv [OF isd i0] have "split_inv d r (length r) l \<or> split_inv d r (Suc (length r)) l"
    by (simp add: l_def)
  then show ?thesis
  proof
    assume A: "split_inv d r (length r) l"
    then have wf: "cblist_wf l" and nd: "\<forall>f \<in> set (cblist_abs l). d \<notin> set f"
      and c: "concat (map (\<lambda>f. f @ [d]) (cblist_abs l)) = r" and lastd: "0 < length r \<longrightarrow> r ! (length r - 1) = d"
      by (auto simp: split_inv_def)
    show ?thesis
    proof (cases "r = []")
      case True
      then have "cblist_abs l = []" using c concat_sep_Nil by metis
      then show ?thesis using res True by (simp add: r_def)
    next
      case False
      then have "cblist_abs l \<noteq> []" using c concat_sep_Nil by metis
      moreover have "c_strchr [d] (r ! (length r - 1))" using lastd False d by (simp add: c_strchr_def cstr_def)
      ultimately show ?thesis
        using res False cblistpush_refines [OF wf, of "[]"] nd c join_fields_snoc_sep [of "cblist_abs l" d]
          join_fields_snoc [of "cblist_abs l" d "[]"]
        by (simp add: r_def)
    qed
  next
    assume B: "split_inv d r (Suc (length r)) l"
    then have nd: "\<forall>f \<in> set (cblist_abs l). d \<notin> set f"
      and c: "concat (map (\<lambda>f. f @ [d]) (cblist_abs l)) = r @ [d]" and ne: "r \<noteq> []" and ld: "last r \<noteq> d"
      by (auto simp: split_inv_def)
    have "cblist_abs l \<noteq> []" using c concat_sep_Nil by fastforce
    moreover have "\<not> c_strchr [d] (r ! (length r - 1))"
      using ld ne isd [of "last r"] by (simp add: last_conv_nth)
    ultimately show ?thesis
      using res nd c join_fields_snoc_sep [of "cblist_abs l" d] by (simp add: r_def)
  qed
qed

section \<open>Witnesses and concrete behaviour\<close>

lemma cbstrbwmatch_suffix_witness:
  "0 \<notin> set [97 :: byte] \<and> 0 \<notin> set [98, 97 :: byte] \<and> cbstrbwmatch [97] [98, 97] = Inl CB_OOB"
  using cbstrbwmatch_suffix [of "[97]" "[98, 97]"] by (simp add: suffix_def)

lemma cbsplit_rejoin_witness:
  "join_fields 44 (cblist_abs (cbsplit [97, 44, 98] 3 (Some [44]))) = [97, 44, 98] \<and>
   list_all (\<lambda>f. (44 :: byte) \<notin> set f) (cblist_abs (cbsplit [97, 44, 98] 3 (Some [44])))"
proof -
  have r: "c_region [97, 44, 98] 0 3 = [97, 44, 98]"
    by (simp add: c_region_def c_bytes_def c_byte_def upt_rec)
  show ?thesis using cbsplit_rejoin [of 44 "[97, 44, 98]" 3] r by (simp add: list_all_iff)
qed

text \<open>The header of cabin.h says \<open>cbxmlescape\<close> converts only \<open>&\<close>, \<open><\<close>, \<open>>\<close> and the
  double quote; the code also turns the apostrophe into \<open>&apos;\<close>.\<close>

lemma cbxmlescape_apostrophe: "cbxmlescape [39] = ent_apos"
  by (simp add: cbxmlescape_def cstr_def xml_esc1_def)

text \<open>A NUL byte in the region ends a field even when an explicit delimiter is given,
  because \<open>strchr\<close> finds the terminator of the delimiter string.\<close>

lemma cbsplit_nul_is_delimiter: "cblist_abs (cbsplit [97, 0, 98] 3 (Some [44])) = [[97], [98]]"
  by code_simp

end
