(* ===== verification/Spec2Isabelle.thy ===== *)
theory Spec2Isabelle
  imports Villa_Atomic Suffix_Array Result_Set Cabin_Codec Cabin_Sort Cabin_Hash Cabin_String
begin

text \<open>
  \<^bold>\<open>A verification library for the storage engine and extensions of fcst.\<close>

  \<^bold>\<open>The program.\<close> src/ext/odeum_index holds Villa (villa.c, villa.h), a B+ tree
  of byte-string keys with duplicate values, a page cache with write-back, a
  cursor and a single-level transaction, built on the Depot hashed record store
  and on the Cabin utility library (cabin.c, cabin.h); odeum_index.c binds the
  Odeum full-text index to Ruby. src/ext/sarray/suffix_array.c is a Ruby suffix
  array. Villa's operations load leaves and nodes through the caches, descend
  the tree with \<open>vlsearchleaf\<close>, change a leaf with \<open>vlleafaddrec\<close>, and split
  leaves and nodes up the recorded path; the caches write pages to Depot on
  eviction, \<open>vlsync\<close>, transaction boundaries and \<open>vlclose\<close>.

  \<^bold>\<open>Theories and the code they model.\<close>
  \<^item> Villa_Prelude: bytes, C buffer reads through a pointer and an offset, C
    truncating division, the shared list, option-monad and fold lemmas.
  \<^item> Comparators: \<open>vllexcompare\<close>, \<open>vlintcompare\<close>, \<open>vlnumcompare\<close> (villa.c), and
    the interface \<open>cmp_linear\<close> a comparator must meet.
  \<^item> Varint: \<open>vlsetvnumbuf\<close> and \<open>vlreadvnumbuf\<close>, the variable-length numbers.
  \<^item> Binsearch, Leaf_Page: \<open>VLREC\<close>, \<open>VLLEAF\<close>, the binary narrowing and linear
    scan of \<open>vlrecsearch\<close> and \<open>vlleafaddrec\<close>, with a reference insertion
    \<open>addrec_ref\<close> and the abstract map of keys to value lists.
  \<^item> Leaf_Codec, Node_Page: the page images of \<open>vlleafsave\<close>/\<open>vlnodesave\<close> and
    their parsers in \<open>vlleafload\<close>/\<open>vlnodeload\<close>, \<open>VLNODE\<close>, \<open>vlnodeaddidx\<close> and the
    routing step of \<open>vlsearchleaf\<close>.
  \<^item> Cabin_List, Cabin_Map: \<open>CBLIST\<close> (array, start, count) and \<open>CBMAP\<close> (records
    in insertion order) with their operations and dump/load.
  \<^item> Villa_Pages: the Depot store as a record store (\<open>dpget\<close>, \<open>dpput\<close>), the
    \<open>VILLA\<close> handle as a record, the leaf and node caches (\<open>vlleafnew\<close>, \<open>vlleafload\<close>,
    \<open>vlleafcacheout\<close>, \<open>vlleafdivide\<close>, \<open>vlnode*\<close>), \<open>vlcacheadjust\<close> and \<open>vlsearchleaf\<close>.
  \<^item> Villa_Ops: \<open>vlput\<close> with the leaf split and the split propagation (\<open>put_split\<close>,
    \<open>split_up\<close>), \<open>vlout\<close>, \<open>vlget\<close>, \<open>vlvnum\<close>, \<open>vlgetlist\<close>, \<open>vlgetcat\<close>,
    \<open>vlputlist\<close>, \<open>vloutlist\<close>.
  \<^item> Villa_Cursor: \<open>vlcurfirst\<close>, \<open>vlcurlast\<close>, \<open>vlcurprev\<close>, \<open>vlcurnext\<close>,
    \<open>vlcurjump\<close>, \<open>vlcurkey\<close>, \<open>vlcurval\<close>.
  \<^item> Villa_Tran: the metadata records, \<open>vlsettuning\<close>, \<open>vlsync\<close>, \<open>vltranbegin\<close>,
    \<open>vltrancommit\<close>, \<open>vltranabort\<close>, \<open>vlclose\<close>, \<open>vlopen\<close>, and the operations as a
    datatype \<open>vlop\<close> run by \<open>run_ops\<close>.
  \<^item> Villa_Examples, Villa_Atomic: concrete handles, and the frame and cache
    lemmas behind the transaction properties.
  \<^item> Suffix_Array: \<open>scan_string\<close>, \<open>find_longest_match\<close>, \<open>SuffixArray_initialize\<close>,
    \<open>longest_match\<close>, \<open>match\<close>, \<open>longest_nonmatch\<close>, \<open>all_starts\<close>.
  \<^item> Result_Set: the \<open>Odeum::ResultSet\<close> class of odeum_index.c and the
    \<open>CBLIST\<close>/\<open>Array\<close> conversions.
  \<^item> Cabin_Codec: Cabin's URL, Base64 and quoted-printable encoders and decoders
    (\<open>cburlencode\<close>, \<open>cburldecode\<close>, \<open>cbbaseencode\<close>, \<open>cbbasedecode\<close>,
    \<open>cbquoteencode\<close>, \<open>cbquotedecode\<close>); a C string is read through
    \<open>cstr_get\<close>, which gives the terminator at its length and an error beyond.
  \<^item> Cabin_Sort: Cabin's array sorts \<open>cbisort\<close>, \<open>cbssort\<close>, \<open>cbhsort\<close>, \<open>cbqsort\<close>
    (with \<open>cbqsortsub\<close>) over a HOL list of elements, \<open>memcpy\<close> between slots being a
    list update, and \<open>cblistsort\<close> (through \<open>cbqsort\<close> with \<open>cblistelemcmp\<close>) and
    \<open>cblistlsearch\<close> on the \<open>CBLIST\<close> model of Cabin_List.
  \<^item> Cabin_Hash: the map hashes \<open>cbfirsthash\<close> and \<open>cbsecondhash\<close> on \<open>32 word\<close>
    and the bucket index of \<open>cbmapput\<close>.
  \<^item> Cabin_String: the matchers \<open>cbstrfwmatch\<close> and \<open>cbstrbwmatch\<close>, CSV and XML
    escaping (\<open>cbcsvescape\<close>, \<open>cbcsvunescape\<close>, \<open>cbxmlescape\<close>,
    \<open>cbxmlunescape\<close>) and \<open>cbsplit\<close>, which pushes its fields on a \<open>CBLIST\<close> of
    Cabin_List; pointer walks are offsets into the argument, \<open>strlen\<close> is
    \<open>cstr\<close>, a read at a negative index is an error value.
  Each operation of the handle is a function from the \<open>villa\<close> record to the new
  record and the C result; the C function names are kept.

  \<^bold>\<open>What is shown.\<close> Leaf insertion equals a reference insertion, refines a put on
  the map of keys to value lists and keeps the leaf sorted; record search finds
  exactly the stored key; node routing picks the child whose range holds the key;
  leaf, node, list, map and number encodings round-trip. A transaction is atomic:
  no operation inside it writes to the store, and abort restores the snapshot with
  clean caches; the cache-adjust loop of commit and abort terminates; the metadata
  close writes is what open reads. The concrete scenarios of the spec (split at
  four records, duplicates, commit, close and reopen) are computed. For the suffix
  array: matches reported are occurrences, the binary search terminates, and the
  object built is well-formed. For ResultSet: the invariant is kept by every call,
  indexing and iteration return the pairs, marshalling round-trips. Each of
  Cabin's three decoders inverts its encoder on every byte string, NUL bytes
  included, and quoted-printable decoding never reads past the terminator. Every
  one of Cabin's four sorts returns, for a comparison that is a total preorder, a
  sorted permutation of the array (the heap sort and quick sort loops, which a bad
  comparison could make endless, are shown to end); the step-1 pass of shell sort
  is the insertion sort; \<open>cblistsort\<close> keeps the list invariant and
  \<open>cblistlsearch\<close> finds the first occurrence. The bucket index of the map lies in
  the bucket array, since the hashes are masked to 31 bits. CSV and XML unescaping
  invert their escapers on every C string; \<open>cbsplit\<close> with a one-byte delimiter
  returns delimiter-free fields that rejoin to the region; \<open>cbstrbwmatch\<close> decides
  the suffix relation, with the read before a string shorter than the key as an
  error. The defects
  shown are listed in the findings: comparators that overflow or are not linear,
  loaders that loop or over-read on corrupt data, node splits at odd counts, a
  suffix table that loses the last position, out-of-bounds reads in \<open>match\<close> and
  \<open>all_starts\<close>, \<open>move(1)\<close> that does not move, \<open>marshal_load\<close> without a size check,
  a URL decoder that reads past the terminator after \<open>%\<close>, a Base64 decoder
  that decodes an unpadded last group as a full one, \<open>cbstrbwmatch\<close> reading
  before its string, \<open>cbxmlescape\<close> also escaping the apostrophe, and
  \<open>cbsplit\<close> treating a NUL byte as a delimiter.

  \<^bold>\<open>Machine numbers, fuel and bounds.\<close> C \<open>int\<close>s are HOL integers, wrapped to 32
  bits where the code can overflow (\<open>vlintcompare\<close>, \<open>wrap32\<close>), Cabin's
  \<open>unsigned int\<close> hash sums are \<open>32 word\<close>, and bytes are
  \<open>8 word\<close>; \<open>size_t\<close> in suffix_array.c is a natural number taken modulo
  \<open>2^64\<close>, and its termination is shown for sources below \<open>2^63\<close> bytes so that
  \<open>low + high\<close> does not wrap. \<open>char\<close> is signed and memory little-endian, as on
  x86. Loops that a corrupt page or a cycle of links can make endless (page
  parsers, tree descent, cursor skipping, the adjust loop, suffix searches) are
  \<open>partial_function (option)\<close>: \<open>None\<close> is not returning, and termination is
  proved where the code guarantees it. Out-of-bounds reads are error values.

  \<^bold>\<open>Not modelled.\<close> Depot and Odeum are outside the repository: Depot is modelled
  from its interface as an always-succeeding record store, Odeum not at all (so
  \<open>Index\<close>, \<open>Document\<close> and \<open>next_doc\<close> are left out). zlib compression (the
  build modelled has none), \<open>vldeccompare\<close> (needs \<open>strtod\<close>), \<open>vlremove\<close>,
  \<open>vlrepair\<close>, \<open>vlexportdb\<close>, \<open>vlimportdb\<close> and \<open>vloptimize\<close> (file and text I/O),
  Cabin's other text utilities (\<open>cbsprintf\<close>, \<open>cbreplace\<close>, case-insensitive
  matching, trimming, MIME, CSV-row and date parsing, which build \<open>CBDATUM\<close>s and
  are not used by the storage engine), \<open>cblistbsearch\<close> (the C library's \<open>bsearch\<close>), the
  bucket trees of \<open>CBMAP\<close>, and Cabin's memory and file utilities, the
  Ruby object plumbing,
  and the raw-array restore path and plain copying methods of the suffix array.
  The tree depth bound \<open>VL_LEVELMAX\<close> of the split history is not checked.
\<close>

definition keys_n :: "nat \<Rightarrow> (bytes \<times> bytes) list" where
  "keys_n n = map (\<lambda>i. ([of_nat i], [1])) [1..<n + 1]"

section \<open>The scenarios of the spec\<close>


text \<open>Duplicates as the spec describes them: two \<open>VL_DDUP\<close> puts of one key give
  \<open>vlvnum\<close> 2, \<open>vlget\<close> the first value and \<open>vlgetlist\<close> both in insertion order; one
  \<open>vlout\<close> leaves the second value.\<close>

theorem spec_duplicates:
  "do {
     st \<leftarrow> open_new;
     st1 \<leftarrow> put_all VL_DDUP st [([107], [1]), ([107], [2])];
     (s2, n) \<leftarrow> vlvnum st1 [107];
     (s3, g) \<leftarrow> vlget s2 [107];
     (s4, l) \<leftarrow> vlgetlist s3 [107];
     (s5, ok) \<leftarrow> vlout s4 [107];
     (s6, g2) \<leftarrow> vlget s5 [107];
     Some (n, g, l, ok, g2)
   } = Some (2, Some [1], Some [[1], [2]], True, Some [2])"
  by code_simp


text \<open>A node is split when its index count exceeds \<open>nodeidxmax\<close> and is odd
  (\<open>CB_LISTNUM(node->idxs) % 2 == 0\<close> ends the loop of \<open>vlput\<close>), where the spec says
  even: with \<open>nodeidxmax\<close> 4, twelve ascending keys make six leaves, and the fifth
  index splits the root into nodes of 2 and 2 indexes under a new root of 1.\<close>

theorem node_split_odd:
  "map_option (\<lambda>st. (lnum st, nnum st, map (\<lambda>(_, nd). length (idxs nd)) (nodec st)))
     (open_new \<bind> (\<lambda>st. put_all VL_DOVER (vlsettuning st 3 4 0 0) (keys_n 12))) =
   Some (6, 3, [2, 2, 1])"
  by code_simp

section \<open>Transaction atomicity\<close>


section \<open>Witnesses\<close>

lemma ex_open_cache_ok: "cache_ok ex_open"
  by code_simp

lemma ex_begin_ok: "vltranbegin ex_open = (ex_begin, True)"
  by (simp add: ex_begin_def prod_eq_iff, code_simp)

lemma ex_abort_some: "vltranabort ex_run \<noteq> None"
  by code_simp


end
